(* ===== verification/Prelude.thy ===== *)
theory Prelude
  imports Main "HOL-Library.Multiset" "HOL-Library.Sublist"
begin

text \<open>
  Shared vocabulary of the development.

  The sources are TypeScript. Their strings are sequences of UTF-16 code units; here a
  \<^typ>\<open>string\<close> is a list of characters, each read as the code unit of the same number, so the
  models range over strings whose code units are below 256 (all identifiers the services accept
  are ASCII). The operations on strings the sources use (trim, toLowerCase, join, split,
  includes, startsWith) are defined here exactly for that range.

  An operation that throws returns a value of a sum type, the error on the left. The helper
  \<open>bind_r\<close> is the propagation of an exception; \<open>mapM_r\<close> is \<open>Array.prototype.map\<close> over a
  callback that may throw.

  A database table is the list of its rows. \<open>insert_or_ignore\<close> and \<open>upsert_row\<close> are
  the two conflict clauses the services use against a unique index; the locale
  \<open>unique_index\<close> collects what such an index promises.
\<close>

named_theorems result_simps \<open>propagation of errors\<close>
named_theorems table_simps \<open>rows of tables\<close>

section \<open>Results\<close>

type_synonym ('e, 'a) result = "'e + 'a"

definition bind_r :: "('e, 'a) result \<Rightarrow> ('a \<Rightarrow> ('e, 'b) result) \<Rightarrow> ('e, 'b) result" where
  "bind_r x f = (case x of Inl e \<Rightarrow> Inl e | Inr a \<Rightarrow> f a)"

definition guard_r :: "bool \<Rightarrow> 'e \<Rightarrow> ('e, unit) result" where
  "guard_r ok e = (if ok then Inr () else Inl e)"

fun mapM_r :: "('a \<Rightarrow> ('e, 'b) result) \<Rightarrow> 'a list \<Rightarrow> ('e, 'b list) result" where
  "mapM_r f [] = Inr []"
| "mapM_r f (x # xs) =
     (case f x of Inl e \<Rightarrow> Inl e
      | Inr y \<Rightarrow> (case mapM_r f xs of Inl e \<Rightarrow> Inl e | Inr ys \<Rightarrow> Inr (y # ys)))"

lemma bind_r_Inl [simp]: "bind_r (Inl e) f = Inl e"
  by (simp add: bind_r_def)

lemma bind_r_Inr [simp]: "bind_r (Inr a) f = f a"
  by (simp add: bind_r_def)

lemma bind_r_eq_Inr [result_simps]: "bind_r x f = Inr b \<longleftrightarrow> (\<exists>a. x = Inr a \<and> f a = Inr b)"
  by (cases x) auto

lemma guard_r_eq_Inr [result_simps]: "guard_r ok e = Inr u \<longleftrightarrow> ok"
  by (cases u) (simp add: guard_r_def)

lemma guard_r_True [simp]: "guard_r True e = Inr ()"
  by (simp add: guard_r_def)

lemma guard_r_False [simp]: "guard_r False e = Inl e"
  by (simp add: guard_r_def)

lemma mapM_r_Inr: "mapM_r f xs = Inr ys \<longleftrightarrow> list_all2 (\<lambda>x y. f x = Inr y) xs ys"
proof (induction xs arbitrary: ys)
  case Nil
  then show ?case by auto
next
  case (Cons x xs)
  show ?case
  proof (cases "mapM_r f xs")
    case (Inl e)
    then have "\<not> list_all2 (\<lambda>x y. f x = Inr y) xs zs" for zs
      using Cons.IH [of zs] by simp
    with Inl show ?thesis by (cases ys) (auto split: sum.splits)
  next
    case (Inr zs)
    then have "list_all2 (\<lambda>x y. f x = Inr y) xs ws \<longleftrightarrow> ws = zs" for ws
      using Cons.IH [of ws] by auto
    with Inr show ?thesis by (cases ys) (auto split: sum.splits)
  qed
qed

lemma mapM_r_set:
  assumes "mapM_r f xs = Inr ys" and "y \<in> set ys"
  obtains x where "x \<in> set xs" and "f x = Inr y"
proof -
  from assms(1) have *: "list_all2 (\<lambda>x y. f x = Inr y) xs ys" by (simp add: mapM_r_Inr)
  from assms(2) obtain i where "i < length ys" and "y = ys ! i" by (auto simp: in_set_conv_nth)
  with * have "xs ! i \<in> set xs" and "f (xs ! i) = Inr y" by (auto simp: list_all2_conv_all_nth)
  then show thesis by (rule that)
qed

lemma mapM_r_all: "mapM_r f xs = Inr ys \<Longrightarrow> (\<And>x y. f x = Inr y \<Longrightarrow> P y) \<Longrightarrow> list_all P ys"
  by (auto simp: list_all_iff elim: mapM_r_set)

section \<open>Strings\<close>

abbreviation code :: "char \<Rightarrow> nat" where
  "code c \<equiv> of_char c"

definition js_ws :: "char \<Rightarrow> bool" where
  "js_ws c \<longleftrightarrow> code c \<in> {9, 10, 11, 12, 13, 32, 160}"

definition trim :: "string \<Rightarrow> string" where
  "trim s = rev (dropWhile js_ws (rev (dropWhile js_ws s)))"

definition lower_char :: "char \<Rightarrow> char" where
  "lower_char c =
     (if 65 \<le> code c \<and> code c \<le> 90 \<or> 192 \<le> code c \<and> code c \<le> 222 \<and> code c \<noteq> 215
      then char_of (code c + 32) else c)"

definition toLowerCase :: "string \<Rightarrow> string" where
  "toLowerCase s = map lower_char s"

fun join :: "string \<Rightarrow> string list \<Rightarrow> string" where
  "join sep [] = []"
| "join sep [s] = s"
| "join sep (s # t # ss) = s @ sep @ join sep (t # ss)"

fun split_on :: "char \<Rightarrow> string \<Rightarrow> string list" where
  "split_on sep [] = [[]]"
| "split_on sep (c # cs) =
     (if c = sep then [] # split_on sep cs
      else (case split_on sep cs of [] \<Rightarrow> [[c]] | w # ws \<Rightarrow> (c # w) # ws))"

lemma trim_Nil [simp]: "trim [] = []"
  by (simp add: trim_def)

lemma trim_ne_Nil: "trim s \<noteq> [] \<Longrightarrow> s \<noteq> []"
  by auto

lemma split_on_ne [simp]: "split_on sep s \<noteq> []"
  by (induction s) (auto split: list.splits)

lemma split_on_append:
  "sep \<notin> set w \<Longrightarrow> split_on sep (w @ sep # s) = w # split_on sep s"
  by (induction w) auto

lemma split_on_single: "sep \<notin> set w \<Longrightarrow> split_on sep w = [w]"
  by (induction w) auto

text \<open>Joining words free of the separator and splitting again gives the words back.\<close>

lemma split_on_join:
  "ws \<noteq> [] \<Longrightarrow> \<forall>w \<in> set ws. sep \<notin> set w \<Longrightarrow> split_on sep (join [sep] ws) = ws"
proof (induction "[sep]" ws rule: join.induct)
  case 1
  then show ?case by simp
next
  case (2 s)
  then show ?case by (simp add: split_on_single)
next
  case (3 s t ss)
  then show ?case by (simp add: split_on_append)
qed

lemma join_inject:
  assumes "length ws = length vs" and "\<forall>w \<in> set ws. sep \<notin> set w"
    and "\<forall>v \<in> set vs. sep \<notin> set v" and "join [sep] ws = join [sep] vs"
  shows "ws = vs"
proof (cases "ws = []")
  case True
  with assms show ?thesis by simp
next
  case False
  with assms(1) have "vs \<noteq> []" by auto
  with False assms show ?thesis by (metis split_on_join)
qed

lemma join_append1: "ws \<noteq> [] \<Longrightarrow> join sep (ws @ [w]) = join sep ws @ sep @ w"
  by (induction sep ws rule: join.induct) auto

lemma join_ne_Nil: "ws \<noteq> [] \<Longrightarrow> \<forall>w \<in> set ws. w \<noteq> [] \<Longrightarrow> join sep ws \<noteq> []"
  by (induction sep ws rule: join.induct) auto

section \<open>Tables\<close>

text \<open>
  \<open>INSERT ... ON CONFLICT DO NOTHING\<close>, \<open>INSERT ... ON CONFLICT DO UPDATE\<close> and
  \<open>UPDATE ... WHERE key = k\<close>, for the unique index \<open>key\<close>.
\<close>

definition insert_or_ignore :: "('r \<Rightarrow> 'k) \<Rightarrow> 'r \<Rightarrow> 'r list \<Rightarrow> 'r list" where
  "insert_or_ignore key r rs = (if key r \<in> key ` set rs then rs else rs @ [r])"

definition update_where :: "('r \<Rightarrow> bool) \<Rightarrow> ('r \<Rightarrow> 'r) \<Rightarrow> 'r list \<Rightarrow> 'r list" where
  "update_where p f rs = map (\<lambda>r. if p r then f r else r) rs"

definition delete_where :: "('r \<Rightarrow> bool) \<Rightarrow> 'r list \<Rightarrow> 'r list" where
  "delete_where p rs = filter (\<lambda>r. \<not> p r) rs"

definition upsert_row :: "('r \<Rightarrow> 'k) \<Rightarrow> 'r \<Rightarrow> ('r \<Rightarrow> 'r) \<Rightarrow> 'r list \<Rightarrow> 'r list" where
  "upsert_row key r f rs =
     (if key r \<in> key ` set rs then update_where (\<lambda>x. key x = key r) f rs else rs @ [r])"

lemma set_delete_where [table_simps]: "set (delete_where p rs) = {r \<in> set rs. \<not> p r}"
  by (auto simp: delete_where_def)

lemma find_append_new: "find p (xs @ [x]) = (case find p xs of None \<Rightarrow> if p x then Some x else None | Some y \<Rightarrow> Some y)"
  by (induction xs) auto

lemma set_update_where [table_simps]:
  "set (update_where p f rs) = (\<lambda>r. if p r then f r else r) ` set rs"
  by (auto simp: update_where_def)

lemma set_insert_or_ignore [table_simps]:
  "set (insert_or_ignore key r rs) = (if key r \<in> key ` set rs then set rs else insert r (set rs))"
  by (auto simp: insert_or_ignore_def)

lemma find_Some_iff_mem: "find p xs = Some x \<Longrightarrow> x \<in> set xs \<and> p x"
  by (auto simp: find_Some_iff)

lemma find_ex: "x \<in> set xs \<Longrightarrow> p x \<Longrightarrow> \<exists>y. find p xs = Some y"
  by (meson find_None_iff not_None_eq)

text \<open>\<open>[...new Set(xs)]\<close>: the first occurrence of each element, in order.\<close>

definition uniq :: "'a list \<Rightarrow> 'a list" where
  "uniq xs = rev (remdups (rev xs))"

lemma set_uniq [simp]: "set (uniq xs) = set xs"
  by (simp add: uniq_def)

lemma distinct_uniq [simp]: "distinct (uniq xs)"
  by (simp add: uniq_def)

text \<open>
  What a unique index promises to the operations that write through it: every write keeps the
  keys distinct, and a row that is in the table is the only one a lookup by its key can find.
\<close>

locale unique_index =
  fixes key :: "'r \<Rightarrow> 'k" and f :: "'r \<Rightarrow> 'r"
  assumes f_key: "key (f r) = key r"
begin

lemma distinct_insert_or_ignore:
  "distinct (map key rs) \<Longrightarrow> distinct (map key (insert_or_ignore key r rs))"
  by (auto simp: insert_or_ignore_def)

lemma distinct_delete_where:
  "distinct (map key rs) \<Longrightarrow> distinct (map key (delete_where p rs))"
  by (simp add: delete_where_def distinct_map_filter)

lemma keys_update_where: "map key (update_where p f rs) = map key rs"
  by (auto simp: update_where_def f_key)

lemma distinct_update_where:
  "distinct (map key rs) \<Longrightarrow> distinct (map key (update_where p f rs))"
  by (simp add: keys_update_where)

lemma distinct_upsert_row:
  "distinct (map key rs) \<Longrightarrow> distinct (map key (upsert_row key r f rs))"
  by (auto simp: upsert_row_def keys_update_where)

lemma find_by_key:
  "distinct (map key rs) \<Longrightarrow> r \<in> set rs \<Longrightarrow> find (\<lambda>x. key x = key r) rs = Some r"
  by (induction rs) (auto simp: image_iff)

lemma upsert_row_keys: "key ` set (upsert_row key r f rs) = insert (key r) (key ` set rs)"
proof -
  have "key ` set (update_where p f rs) = key ` set rs" for p
    by (metis keys_update_where list.set_map)
  then show ?thesis by (simp add: upsert_row_def insert_absorb)
qed

lemma find_update_key:
  "find (\<lambda>x. key x = k) (update_where (\<lambda>x. key x = k') f rs) =
     map_option (\<lambda>x. if k = k' then f x else x) (find (\<lambda>x. key x = k) rs)"
  by (induction rs) (auto simp: update_where_def f_key)

lemma find_upsert_row:
  "find (\<lambda>x. key x = k) (upsert_row key r f rs) =
     (if k = key r then Some (case find (\<lambda>x. key x = k) rs of None \<Rightarrow> r | Some x \<Rightarrow> f x)
      else find (\<lambda>x. key x = k) rs)"
proof (cases "key r \<in> key ` set rs")
  case True
  then obtain y where "y \<in> set rs" "key y = key r" by auto
  then have "find (\<lambda>x. key x = key r) rs \<noteq> None" by (auto simp: find_None_iff)
  then obtain x where "find (\<lambda>x. key x = key r) rs = Some x" by auto
  with True show ?thesis by (auto simp: upsert_row_def find_update_key option.map_ident)
next
  case False
  then have none: "find (\<lambda>x. key x = key r) rs = None" unfolding find_None_iff by (metis imageI)
  have "find (\<lambda>x. key x = k) (rs @ [r]) = (case find (\<lambda>x. key x = k) rs of None \<Rightarrow> if key r = k then Some r else None | Some y \<Rightarrow> Some y)"
    by (induction rs) auto
  with False none show ?thesis by (auto simp: upsert_row_def split: option.splits)
qed

end

lemma unique_index_id: "unique_index key id"
  by unfold_locales simp

section \<open>Simulation\<close>

text \<open>
  A concrete step relation with an invariant, and an abstraction that takes every concrete step to some
  steps of an abstract relation: whole runs then have a run of the abstract relation behind them.
\<close>

locale simulation =
  fixes step :: "'s \<Rightarrow> 's \<Rightarrow> bool" and inv :: "'s \<Rightarrow> bool" and absf :: "'s \<Rightarrow> 'a" and astep :: "'a \<Rightarrow> 'a \<Rightarrow> bool"
  assumes keeps: "inv s \<Longrightarrow> step s s' \<Longrightarrow> inv s'"
    and refines: "inv s \<Longrightarrow> step s s' \<Longrightarrow> astep\<^sup>*\<^sup>* (absf s) (absf s')"
begin

lemma runs:
  assumes "step\<^sup>*\<^sup>* s s'" and "inv s"
  shows "inv s' \<and> astep\<^sup>*\<^sup>* (absf s) (absf s')"
  using assms(1)
proof (induction rule: rtranclp_induct)
  case base
  show ?case using assms(2) by simp
next
  case (step s1 s2)
  with keeps refines show ?case by (blast intro: rtranclp_trans)
qed

end

section \<open>Sorted tables\<close>

lemma filter_upward:
  assumes "sorted (map f xs)" and "\<And>x y. x \<in> set xs \<Longrightarrow> y \<in> set xs \<Longrightarrow> P x \<Longrightarrow> f x \<le> f y \<Longrightarrow> P y"
  shows "\<exists>n. filter P xs = drop n xs"
  using assms
proof (induction xs)
  case (Cons x xs)
  show ?case
  proof (cases "P x")
    case True
    have "P y" if "y \<in> set xs" for y
      using Cons.prems(1) that by (intro Cons.prems(2) [OF _ _ True]) simp_all
    then have "filter P (x # xs) = drop 0 (x # xs)" using True by simp
    then show ?thesis by (rule exI)
  next
    case False
    have "sorted (map f xs)" using Cons.prems(1) by simp
    moreover have "P z" if "y \<in> set xs" "z \<in> set xs" "P y" "f y \<le> f z" for y z
      using that by (intro Cons.prems(2) [of y z]) simp_all
    ultimately obtain n where "filter P xs = drop n xs" using Cons.IH by blast
    with False have "filter P (x # xs) = drop (Suc n) (x # xs)" by simp
    then show ?thesis by (rule exI)
  qed
qed simp

lemma sort_key_append_last:
  assumes "\<And>x. x \<in> set xs \<Longrightarrow> f x \<le> f y"
  shows "sort_key f (xs @ [y]) = sort_key f xs @ [y]"
proof -
  have insort: "insort_key f x (zs @ [y]) = insort_key f x zs @ [y]" if "f x \<le> f y" for x zs
    using that by (induction zs) auto
  from assms show ?thesis by (induction xs) (simp_all add: insort)
qed

end
