(* ===== verification/Audience.thy ===== *)
theory Audience
  imports Prelude
begin

text \<open>
  The audience predicate of the social service (\<open>pricing/audience.ts\<close>): the facts known about
  a person, the buckets of a dimension, which bucket a person falls in, the stand-alone
  conditions, and the check for overlapping buckets.

  An optional field of the source is an option; \<open>anyTier?: boolean\<close> is only ever tested for
  truth, so an absent one is \<^const>\<open>False\<close>. \<open>Record<string, string[]>\<close> is a partial map.
\<close>

section \<open>Data\<close>

record pricing_facts =
  promo :: "int option"
  formation :: "string option"
  cotisationTiers :: "string option list"
  answers :: "string \<rightharpoonup> string list"

record bucket_base =
  bucketId :: string
  label :: string

record cotisation_bucket = bucket_base +
  anyTier :: bool
  variantKeys :: "string option list option"

record promo_bucket = bucket_base +
  promoValues :: "int list"

record string_bucket = bucket_base +
  stringValues :: "string list"

datatype dimension =
    DCotisation string "cotisation_bucket list"
  | DPromo string "promo_bucket list"
  | DFormation string "string_bucket list"
  | DAnswer string string "string_bucket list"

definition OTHERS_BUCKET_ID :: string where
  "OTHERS_BUCKET_ID = ''_others''"

record cotisation_criterion =
  critAnyTier :: bool
  critVariantKeys :: "string option list option"

record audience_condition =
  condCotisation :: "cotisation_criterion option"
  condPromo :: "int list option"
  condFormation :: "string list option"
  condAnswer :: "(string \<times> string list) option"

section \<open>Matching\<close>

definition matchesCotisation ::
  "bool \<Rightarrow> string option list option \<Rightarrow> pricing_facts \<Rightarrow> bool" where
  "matchesCotisation any keys facts =
     (if cotisationTiers facts = [] then False
      else if any then True
      else (let wanted = (case keys of None \<Rightarrow> [] | Some ks \<Rightarrow> ks)
            in list_ex (\<lambda>held. held \<in> set wanted) (cotisationTiers facts)))"

definition matchesPromo :: "int list \<Rightarrow> pricing_facts \<Rightarrow> bool" where
  "matchesPromo values facts = (case promo facts of None \<Rightarrow> False | Some y \<Rightarrow> y \<in> set values)"

definition matchesFormation :: "string list \<Rightarrow> pricing_facts \<Rightarrow> bool" where
  "matchesFormation values facts =
     (case formation facts of None \<Rightarrow> False | Some f \<Rightarrow> f \<in> set values)"

definition matchesAnswer :: "string \<Rightarrow> string list \<Rightarrow> pricing_facts \<Rightarrow> bool" where
  "matchesAnswer questionId optionIds facts =
     (case answers facts questionId of
        None \<Rightarrow> False
      | Some selected \<Rightarrow>
          if selected = [] then False else list_ex (\<lambda>i. i \<in> set optionIds) selected)"

text \<open>\<open>buckets.find(p)?.id ?? OTHERS_BUCKET_ID\<close>\<close>

definition idOrOthers :: "('r bucket_base_scheme \<Rightarrow> bool) \<Rightarrow> 'r bucket_base_scheme list \<Rightarrow> string" where
  "idOrOthers p bs = (case find p bs of None \<Rightarrow> OTHERS_BUCKET_ID | Some b \<Rightarrow> bucketId b)"

fun bucketFor :: "dimension \<Rightarrow> pricing_facts \<Rightarrow> string" where
  "bucketFor (DCotisation i bs) facts =
     idOrOthers (\<lambda>b. matchesCotisation (anyTier b) (variantKeys b) facts) bs"
| "bucketFor (DPromo i bs) facts = idOrOthers (\<lambda>b. matchesPromo (promoValues b) facts) bs"
| "bucketFor (DFormation i bs) facts =
     idOrOthers (\<lambda>b. matchesFormation (stringValues b) facts) bs"
| "bucketFor (DAnswer i q bs) facts =
     idOrOthers (\<lambda>b. matchesAnswer q (stringValues b) facts) bs"

definition matchesCondition :: "audience_condition \<Rightarrow> pricing_facts \<Rightarrow> bool" where
  "matchesCondition c facts =
     (if (case condCotisation c of None \<Rightarrow> False
          | Some k \<Rightarrow> \<not> matchesCotisation (critAnyTier k) (critVariantKeys k) facts) then False
      else if (case condPromo c of None \<Rightarrow> False | Some v \<Rightarrow> \<not> matchesPromo v facts) then False
      else if (case condFormation c of None \<Rightarrow> False | Some v \<Rightarrow> \<not> matchesFormation v facts) then False
      else if (case condAnswer c of None \<Rightarrow> False
               | Some (q, opts) \<Rightarrow> \<not> matchesAnswer q opts facts) then False
      else True)"

definition needsProfile :: "audience_condition option \<Rightarrow> bool" where
  "needsProfile c = (case c of None \<Rightarrow> False
     | Some d \<Rightarrow> condPromo d \<noteq> None \<or> condFormation d \<noteq> None)"

fun readsProfile :: "dimension \<Rightarrow> bool" where
  "readsProfile (DPromo i bs) = True"
| "readsProfile (DFormation i bs) = True"
| "readsProfile (DCotisation i bs) = False"
| "readsProfile (DAnswer i q bs) = False"

definition dimensionsNeedProfile :: "dimension list \<Rightarrow> bool" where
  "dimensionsNeedProfile ds = list_ex readsProfile ds"

section \<open>Overlaps\<close>

definition overlapsCotisation :: "cotisation_bucket \<Rightarrow> cotisation_bucket \<Rightarrow> bool" where
  "overlapsCotisation a b =
     (anyTier a \<or> anyTier b
      \<or> list_ex (\<lambda>k. k \<in> set (case variantKeys b of None \<Rightarrow> [] | Some ks \<Rightarrow> ks))
           (case variantKeys a of None \<Rightarrow> [] | Some ks \<Rightarrow> ks))"

definition overlapsValues :: "'v list \<Rightarrow> 'v list \<Rightarrow> bool" where
  "overlapsValues va vb = list_ex (\<lambda>v. v \<in> set vb) va"

fun overlappingPairs ::
  "('r bucket_base_scheme \<Rightarrow> 'r bucket_base_scheme \<Rightarrow> bool) \<Rightarrow> 'r bucket_base_scheme list
     \<Rightarrow> (string \<times> string) list" where
  "overlappingPairs ov [] = []"
| "overlappingPairs ov (a # bs) =
     map (\<lambda>b. (bucketId a, bucketId b)) (filter (ov a) bs) @ overlappingPairs ov bs"

fun findOverlappingBuckets :: "dimension \<Rightarrow> (string \<times> string) list" where
  "findOverlappingBuckets (DCotisation i bs) = overlappingPairs overlapsCotisation bs"
| "findOverlappingBuckets (DPromo i bs) =
     overlappingPairs (\<lambda>a b. overlapsValues (promoValues a) (promoValues b)) bs"
| "findOverlappingBuckets (DFormation i bs) =
     overlappingPairs (\<lambda>a b. overlapsValues (stringValues a) (stringValues b)) bs"
| "findOverlappingBuckets (DAnswer i q bs) =
     overlappingPairs (\<lambda>a b. overlapsValues (stringValues a) (stringValues b)) bs"

section \<open>Views of a dimension\<close>

fun dimId :: "dimension \<Rightarrow> string" where
  "dimId (DCotisation i bs) = i"
| "dimId (DPromo i bs) = i"
| "dimId (DFormation i bs) = i"
| "dimId (DAnswer i q bs) = i"

fun bucketIds :: "dimension \<Rightarrow> string list" where
  "bucketIds (DCotisation i bs) = map bucketId bs"
| "bucketIds (DPromo i bs) = map bucketId bs"
| "bucketIds (DFormation i bs) = map bucketId bs"
| "bucketIds (DAnswer i q bs) = map bucketId bs"

fun bucketLabels :: "dimension \<Rightarrow> (string \<times> string) list" where
  "bucketLabels (DCotisation i bs) = map (\<lambda>b. (bucketId b, label b)) bs"
| "bucketLabels (DPromo i bs) = map (\<lambda>b. (bucketId b, label b)) bs"
| "bucketLabels (DFormation i bs) = map (\<lambda>b. (bucketId b, label b)) bs"
| "bucketLabels (DAnswer i q bs) = map (\<lambda>b. (bucketId b, label b)) bs"

fun isAnswer :: "dimension \<Rightarrow> bool" where
  "isAnswer (DAnswer i q bs) = True"
| "isAnswer (DCotisation i bs) = False"
| "isAnswer (DPromo i bs) = False"
| "isAnswer (DFormation i bs) = False"

text \<open>The dimension with its buckets in another order.\<close>

fun reorders :: "dimension \<Rightarrow> dimension \<Rightarrow> bool" where
  "reorders (DCotisation i bs) (DCotisation j cs) = (i = j \<and> mset bs = mset cs)"
| "reorders (DPromo i bs) (DPromo j cs) = (i = j \<and> mset bs = mset cs)"
| "reorders (DFormation i bs) (DFormation j cs) = (i = j \<and> mset bs = mset cs)"
| "reorders (DAnswer i q bs) (DAnswer j r cs) = (i = j \<and> q = r \<and> mset bs = mset cs)"
| "reorders _ _ = False"

text \<open>At most one value of the person can speak for the dimension.\<close>

fun singleValued :: "dimension \<Rightarrow> pricing_facts \<Rightarrow> bool" where
  "singleValued (DCotisation i bs) facts = (length (remdups (cotisationTiers facts)) \<le> 1)"
| "singleValued (DPromo i bs) facts = True"
| "singleValued (DFormation i bs) facts = True"
| "singleValued (DAnswer i q bs) facts =
     (case answers facts q of None \<Rightarrow> True | Some sel \<Rightarrow> length (remdups sel) \<le> 1)"

section \<open>A dimension is a partition\<close>

lemma idOrOthers_mem: "idOrOthers p bs \<in> set (map bucketId bs @ [OTHERS_BUCKET_ID])"
  by (auto simp: idOrOthers_def split: option.splits dest: find_Some_iff_mem)

lemma bucketFor_mem: "bucketFor d facts \<in> set (bucketIds d @ [OTHERS_BUCKET_ID])"
  by (cases d) (use idOrOthers_mem in simp_all)

lemma idOrOthers_filter:
  "idOrOthers p bs = (case filter p bs of [] \<Rightarrow> OTHERS_BUCKET_ID | b # _ \<Rightarrow> bucketId b)"
  by (induction bs) (auto simp: idOrOthers_def split: list.splits option.splits)

text \<open>
  The contract between a matcher and the overlap test of its kind: for the facts called single,
  two buckets that both match overlap. Under it, a list of buckets without overlap behaves as a
  partition: at most one bucket matches, and the order of the buckets does not matter.
\<close>

locale exclusive_buckets =
  fixes matches :: "'f \<Rightarrow> 'r bucket_base_scheme \<Rightarrow> bool"
    and overlaps :: "'r bucket_base_scheme \<Rightarrow> 'r bucket_base_scheme \<Rightarrow> bool"
    and single :: "'f \<Rightarrow> bool"
  assumes exclusive: "single x \<Longrightarrow> matches x a \<Longrightarrow> matches x b \<Longrightarrow> overlaps a b"
begin

lemma at_most_one:
  "overlappingPairs overlaps bs = [] \<Longrightarrow> single x \<Longrightarrow> length (filter (matches x) bs) \<le> 1"
proof (induction bs)
  case (Cons a bs)
  then have "matches x a \<Longrightarrow> filter (matches x) bs = []"
    using exclusive by (auto simp: filter_empty_conv)
  with Cons show ?case by auto
qed simp

lemma order_independent:
  assumes no: "overlappingPairs overlaps bs = []" and x: "single x" and eq: "mset bs = mset cs"
  shows "idOrOthers (matches x) cs = idOrOthers (matches x) bs"
proof -
  have len: "length (filter (matches x) bs) \<le> 1" using no x by (rule at_most_one)
  have ms: "mset (filter (matches x) bs) = mset (filter (matches x) cs)"
    using eq by (simp add: mset_filter)
  have "filter (matches x) bs = filter (matches x) cs"
  proof (cases "filter (matches x) bs")
    case Nil
    with ms show ?thesis by simp
  next
    case (Cons b rest)
    with len have b: "filter (matches x) bs = [b]" by simp
    with ms have "mset (filter (matches x) cs) = {#b#}" by simp
    then have "filter (matches x) cs = [b]" by (metis mset_single_iff_right)
    with b show ?thesis by simp
  qed
  then show ?thesis by (simp add: idOrOthers_filter)
qed

end

interpretation promo_buckets: exclusive_buckets
  "\<lambda>facts b. matchesPromo (promoValues b) facts"
  "\<lambda>a b. overlapsValues (promoValues a) (promoValues b)" "\<lambda>_. True"
  by unfold_locales (auto simp: matchesPromo_def overlapsValues_def list_ex_iff split: option.splits)

interpretation formation_buckets: exclusive_buckets
  "\<lambda>facts b. matchesFormation (stringValues b) facts"
  "\<lambda>a b. overlapsValues (stringValues a) (stringValues b)" "\<lambda>_. True"
  by unfold_locales (auto simp: matchesFormation_def overlapsValues_def list_ex_iff split: option.splits)

text \<open>A list of at most one value is described by the value.\<close>

lemma remdups_le_1:
  assumes "length (remdups xs) \<le> 1"
  obtains "xs = []" | x where "set xs = {x}"
proof (cases "remdups xs")
  case Nil
  then show thesis using that by simp
next
  case (Cons x ys)
  with assms have "set (remdups xs) = {x}" by simp
  then show thesis using that by simp
qed

interpretation answer_buckets: exclusive_buckets
  "\<lambda>facts b. matchesAnswer q (stringValues b) facts"
  "\<lambda>a b. overlapsValues (stringValues a) (stringValues b)"
  "\<lambda>facts. case answers facts q of None \<Rightarrow> True | Some sel \<Rightarrow> length (remdups sel) \<le> 1"
  for q
  by unfold_locales
    (auto simp: matchesAnswer_def overlapsValues_def list_ex_iff split: option.splits if_splits
      elim!: remdups_le_1 [simplified])

interpretation cotisation_buckets: exclusive_buckets
  "\<lambda>facts b. matchesCotisation (anyTier b) (variantKeys b) facts" overlapsCotisation
  "\<lambda>facts. length (remdups (cotisationTiers facts)) \<le> 1"
  by unfold_locales
    (auto simp: matchesCotisation_def overlapsCotisation_def list_ex_iff Let_def
      split: option.splits if_splits elim!: remdups_le_1 [simplified])

lemma bucketFor_without_profile:
  "\<not> readsProfile d \<Longrightarrow> bucketFor d (facts\<lparr>promo := p, formation := f\<rparr>) = bucketFor d facts"
  by (cases d) (simp_all add: matchesCotisation_def matchesAnswer_def)

section \<open>Properties\<close>

text \<open>
  In a dimension whose buckets do not overlap, the bucket a person falls in does not depend on
  the order the buckets are declared in, provided at most one of the person's values (the one promo,
  the one formation, one cotisation tier, one selected option) can speak for the dimension.
\<close>

theorem bucketFor_order_independent:
  assumes "findOverlappingBuckets d = []" and "singleValued d facts" and "reorders d d'"
  shows "bucketFor d' facts = bucketFor d facts"
proof (cases d)
  case (DCotisation i bs)
  with assms show ?thesis
    by (cases d') (auto intro: cotisation_buckets.order_independent)
next
  case (DPromo i bs)
  with assms show ?thesis
    by (cases d') (auto intro: promo_buckets.order_independent)
next
  case (DFormation i bs)
  with assms show ?thesis
    by (cases d') (auto intro: formation_buckets.order_independent)
next
  case (DAnswer i q bs)
  with assms show ?thesis
    by (cases d') (auto intro: answer_buckets.order_independent split: option.splits)
qed

definition promo_1A :: promo_bucket where
  "promo_1A = \<lparr>bucketId = ''a'', label = ''1A'', promoValues = [2025]\<rparr>"

definition promo_2A :: promo_bucket where
  "promo_2A = \<lparr>bucketId = ''b'', label = ''2A'', promoValues = [2024]\<rparr>"

definition facts_2024 :: pricing_facts where
  "facts_2024 = \<lparr>promo = Some 2024, formation = None, cotisationTiers = [], answers = (\<lambda>_. None)\<rparr>"

theorem bucketFor_order_independent_witness:
  "bucketFor (DPromo ''p'' [promo_2A, promo_1A]) facts_2024 = ''b''
   \<and> bucketFor (DPromo ''p'' [promo_1A, promo_2A]) facts_2024 = ''b''"
  using bucketFor_order_independent
    [of "DPromo ''p'' [promo_1A, promo_2A]" facts_2024 "DPromo ''p'' [promo_2A, promo_1A]"]
  by (simp add: overlapsValues_def promo_1A_def promo_2A_def facts_2024_def idOrOthers_def
      matchesPromo_def)

text \<open>
  The restriction to one value is needed: for a person who holds two cotisation tiers, two
  buckets that do not overlap both match, and exchanging them changes the bucket the person falls
  in, hence the price.
\<close>

theorem bucketFor_two_tiers_order:
  "\<exists>a b facts.
     findOverlappingBuckets (DCotisation ''c'' [a, b]) = []
     \<and> matchesCotisation (anyTier a) (variantKeys a) facts
     \<and> matchesCotisation (anyTier b) (variantKeys b) facts
     \<and> bucketFor (DCotisation ''c'' [a, b]) facts \<noteq> bucketFor (DCotisation ''c'' [b, a]) facts"
proof -
  define a :: cotisation_bucket where
    "a = \<lparr>bucketId = ''a'', label = ''A'', anyTier = False, variantKeys = Some [Some ''x'']\<rparr>"
  define b :: cotisation_bucket where
    "b = \<lparr>bucketId = ''b'', label = ''B'', anyTier = False, variantKeys = Some [None]\<rparr>"
  define facts :: pricing_facts where
    "facts = \<lparr>promo = None, formation = None, cotisationTiers = [None, Some ''x''],
       answers = (\<lambda>_. None)\<rparr>"
  have "findOverlappingBuckets (DCotisation ''c'' [a, b]) = []"
    by (simp add: a_def b_def overlapsCotisation_def)
  moreover have "matchesCotisation (anyTier a) (variantKeys a) facts"
    and "matchesCotisation (anyTier b) (variantKeys b) facts"
    by (simp_all add: a_def b_def facts_def matchesCotisation_def)
  moreover from this have
    "bucketFor (DCotisation ''c'' [a, b]) facts \<noteq> bucketFor (DCotisation ''c'' [b, a]) facts"
    by (simp add: idOrOthers_def) (simp add: a_def b_def)
  ultimately show ?thesis by blast
qed

text \<open>
  C15: What the profile guards promise: where \<open>dimensionsNeedProfile\<close> answers no, the buckets of a
  person are the same for every promo and formation, so skipping the profile fetch cannot change a
  price; where \<open>needsProfile\<close> answers no, neither can a condition.
\<close>

theorem needsProfile_sound:
  "(\<not> dimensionsNeedProfile ds \<longrightarrow>
      map (\<lambda>d. bucketFor d (facts\<lparr>promo := p, formation := f\<rparr>)) ds
      = map (\<lambda>d. bucketFor d facts) ds)
   \<and> (\<not> needsProfile (Some c) \<longrightarrow>
      matchesCondition c (facts\<lparr>promo := p, formation := f\<rparr>) = matchesCondition c facts)"
proof -
  let ?g = "facts\<lparr>promo := p, formation := f\<rparr>"
  have [simp]: "matchesCotisation a k ?g = matchesCotisation a k facts"
    "matchesAnswer q opts ?g = matchesAnswer q opts facts" for a k q opts
    by (simp_all add: matchesCotisation_def matchesAnswer_def)
  have "\<not> needsProfile (Some c) \<Longrightarrow> matchesCondition c ?g = matchesCondition c facts"
    by (simp add: needsProfile_def matchesCondition_def split: option.split prod.split)
  then show ?thesis
    by (auto simp: dimensionsNeedProfile_def list_ex_iff bucketFor_without_profile)
qed

theorem needsProfile_sound_witness:
  "\<not> dimensionsNeedProfile [DAnswer ''d'' ''q'' [\<lparr>bucketId = ''b'', label = ''B'', stringValues = [''o'']\<rparr>]]
   \<and> bucketFor (DAnswer ''d'' ''q'' [\<lparr>bucketId = ''b'', label = ''B'', stringValues = [''o'']\<rparr>])
       (facts_2024\<lparr>promo := None, formation := Some ''ICM''\<rparr>) = ''_others''"
  using needsProfile_sound
    [where ds = "[DAnswer ''d'' ''q'' [\<lparr>bucketId = ''b'', label = ''B'', stringValues = [''o'']\<rparr>]]"
      and p = None and f = "Some ''ICM''" and facts = facts_2024]
  by (simp add: dimensionsNeedProfile_def idOrOthers_def matchesAnswer_def facts_2024_def
      OTHERS_BUCKET_ID_def)

end
