(* ===== verification/Json.thy ===== *)
theory Json
  imports Complex_Main Prelude
begin

text \<open>
  The untyped documents the services receive: a JSON value as \<open>JSON.parse\<close> builds it. A number
  is a rational, which every finite double is; an object is the list of its own properties, read
  with \<open>field\<close>, whose \<^const>\<open>None\<close> is \<open>undefined\<close>.
\<close>

datatype json =
    JNull
  | JBool bool
  | JNum rat
  | JStr string
  | JArr "json list"
  | JObj "(string \<times> json) list"

type_synonym jobject = "(string \<times> json) list"

definition field :: "jobject \<Rightarrow> string \<Rightarrow> json option" where
  "field doc k = map_of doc k"

definition isInteger :: "json \<Rightarrow> bool" where
  "isInteger v = (case v of JNum r \<Rightarrow> r = of_int \<lfloor>r\<rfloor> | _ \<Rightarrow> False)"

definition intOf :: "json \<Rightarrow> int" where
  "intOf v = (case v of JNum r \<Rightarrow> \<lfloor>r\<rfloor> | _ \<Rightarrow> 0)"

definition isStr :: "json \<Rightarrow> bool" where
  "isStr v = (case v of JStr s \<Rightarrow> True | _ \<Rightarrow> False)"

definition strOf :: "json \<Rightarrow> string" where
  "strOf v = (case v of JStr s \<Rightarrow> s | _ \<Rightarrow> [])"

text \<open>\<open>typeof v === 'string' ? v : ''\<close>, of a property that may be undefined.\<close>

definition strOrEmpty :: "json option \<Rightarrow> string" where
  "strOrEmpty v = (case v of Some (JStr s) \<Rightarrow> s | _ \<Rightarrow> [])"

lemma isInteger_iff: "isInteger v \<longleftrightarrow> (\<exists>n. v = JNum (of_int n))"
proof (cases v)
  case (JNum r)
  then show ?thesis unfolding isInteger_def by (simp, metis floor_of_int)
qed (simp_all add: isInteger_def)

end
