(* ===== verification/Price_Matrix.thy ===== *)
theory Price_Matrix
  imports Audience Json
begin

text \<open>
  The price matrix (\<open>pricing/price-matrix.ts\<close>): the key of a cell, the cell a person falls in,
  the save-time validation, and the view of the grid the fill page is given. Cells are kept as the
  JSON values the source casts them from. Each thrown message is a constructor of
  \<open>pricing_error\<close> with the identifiers it carries.
\<close>

section \<open>Model\<close>

record price_matrix =
  dimensions :: "dimension list"
  cells :: jobject

datatype priced_subject = SForm | SProduct

datatype pricing_error =
    NoCell priced_subject string
  | NoCriterion
  | DuplicateCriterion string
  | EmptyCriterion string
  | ReservedGroup
  | DuplicateGroup string string
  | OverlappingGroups string string string
  | TooManyCells nat nat
  | MissingPrices nat string
  | ExtraPrices nat
  | BadPrice string
  | AllUnavailable priced_subject
  | MustBeObject
  | MustBeList
  | CannotBeEmpty
  | UnknownTier "string option"
  | NotAPromo int
  | NoCotisation
  | UnknownQuestion
  | UnknownOption
  | NoOptions
  | IdRequired
  | LabelRequired
  | UnknownKind
  | EmptyCondition

definition hasCell :: "jobject \<Rightarrow> string \<Rightarrow> bool" where
  "hasCell cs key = (case field cs key of Some JNull \<Rightarrow> True | Some (JNum _) \<Rightarrow> True | _ \<Rightarrow> False)"

definition expectedCellCount :: "dimension list \<Rightarrow> nat" where
  "expectedCellCount ds = foldl (\<lambda>n d. n * (length (bucketIds d) + 1)) 1 ds"

definition cellKey :: "string list \<Rightarrow> string" where
  "cellKey ids = join ''|'' ids"

definition idsWithOthers :: "dimension \<Rightarrow> string list" where
  "idsWithOthers d = bucketIds d @ [OTHERS_BUCKET_ID]"

definition allCellKeys :: "dimension list \<Rightarrow> string list" where
  "allCellKeys ds = foldl (\<lambda>keys d.
     concat (map (\<lambda>prefix. map (\<lambda>i. if prefix \<noteq> [] then prefix @ ''|'' @ i else i) (idsWithOthers d)) keys))
     [[]] ds"

definition cellKeyFor :: "price_matrix \<Rightarrow> pricing_facts \<Rightarrow> string" where
  "cellKeyFor m facts = cellKey (map (\<lambda>d. bucketFor d facts) (dimensions m))"

definition resolveCellPrice ::
  "price_matrix \<Rightarrow> pricing_facts \<Rightarrow> priced_subject \<Rightarrow> (pricing_error, json) result" where
  "resolveCellPrice m facts subject =
     (let key = cellKeyFor m facts in
      if \<not> hasCell (cells m) key then Inl (NoCell subject key)
      else (case field (cells m) key of Some v \<Rightarrow> Inr v | None \<Rightarrow> Inl (NoCell subject key)))"

fun checkBucketIds :: "string \<Rightarrow> string list \<Rightarrow> string list \<Rightarrow> (pricing_error, unit) result" where
  "checkBucketIds crit seen [] = Inr ()"
| "checkBucketIds crit seen (b # bs) =
     (if b = OTHERS_BUCKET_ID then Inl ReservedGroup
      else if b \<in> set seen then Inl (DuplicateGroup b crit)
      else checkBucketIds crit (b # seen) bs)"

fun checkDimensions :: "string list \<Rightarrow> dimension list \<Rightarrow> (pricing_error, unit) result" where
  "checkDimensions seen [] = Inr ()"
| "checkDimensions seen (d # ds) =
     (if dimId d \<in> set seen then Inl (DuplicateCriterion (dimId d))
      else if bucketIds d = [] then Inl (EmptyCriterion (dimId d))
      else bind_r (checkBucketIds (dimId d) [] (bucketIds d)) (\<lambda>_.
        case findOverlappingBuckets d of
          (a, b) # _ \<Rightarrow> Inl (OverlappingGroups a b (dimId d))
        | [] \<Rightarrow> checkDimensions (dimId d # seen) ds))"

fun checkPrices :: "jobject \<Rightarrow> (pricing_error, unit) result" where
  "checkPrices [] = Inr ()"
| "checkPrices ((key, v) # rest) =
     (if v = JNull then checkPrices rest
      else if \<not> isInteger v \<or> intOf v < 0 then Inl (BadPrice key)
      else checkPrices rest)"

definition assertMatrixValid ::
  "price_matrix \<Rightarrow> nat \<Rightarrow> priced_subject \<Rightarrow> (pricing_error, unit) result" where
  "assertMatrixValid m maxCells subject =
     (if dimensions m = [] then Inl NoCriterion
      else bind_r (checkDimensions [] (dimensions m)) (\<lambda>_.
        let expected = expectedCellCount (dimensions m);
            required = allCellKeys (dimensions m);
            missing = filter (\<lambda>k. \<not> hasCell (cells m) k) required;
            extra = filter (\<lambda>k. k \<notin> set required) (map fst (cells m))
        in if expected > maxCells then Inl (TooManyCells expected maxCells)
           else if missing \<noteq> [] then Inl (MissingPrices (length missing) (hd missing))
           else if extra \<noteq> [] then Inl (ExtraPrices (length extra))
           else bind_r (checkPrices (cells m)) (\<lambda>_.
             if list_all (\<lambda>k. field (cells m) k = Some JNull) required
             then Inl (AllUnavailable subject) else Inr ())))"

fun questionOf :: "dimension \<Rightarrow> string list" where
  "questionOf (DAnswer i q bs) = [q]"
| "questionOf (DCotisation i bs) = []"
| "questionOf (DPromo i bs) = []"
| "questionOf (DFormation i bs) = []"

definition pricedQuestionIds :: "price_matrix option \<Rightarrow> string list" where
  "pricedQuestionIds m =
     (case m of None \<Rightarrow> []
      | Some mm \<Rightarrow> rev (remdups (rev (concat (map questionOf (dimensions mm))))))"

record answer_dimension_view =
  advId :: string
  advQuestionId :: string
  advBuckets :: "string_bucket list"

record pricing_view =
  baseCents :: json
  appliedLabels :: "string list"
  answerDimensions :: "answer_dimension_view list"
  viewCells :: "string \<rightharpoonup> json"
  ignoredModifierQuestionIds :: "string list"

definition answerDims :: "dimension list \<Rightarrow> (nat \<times> dimension) list" where
  "answerDims ds = filter (\<lambda>(_, d). isAnswer d) (enumerate 0 ds)"

definition resolvedIds :: "dimension list \<Rightarrow> pricing_facts \<Rightarrow> string option list" where
  "resolvedIds ds facts = map (\<lambda>d. if isAnswer d then None else Some (bucketFor d facts)) ds"

definition combinations :: "dimension list \<Rightarrow> string list list" where
  "combinations ds = foldl (\<lambda>acc d.
     concat (map (\<lambda>prefix. map (\<lambda>i. prefix @ [i]) (idsWithOthers d)) acc)) [[]] ds"

definition fillCombination ::
  "string option list \<Rightarrow> (nat \<times> dimension) list \<Rightarrow> string list \<Rightarrow> string option list" where
  "fillCombination resolved ads combination =
     foldl (\<lambda>full ((idx, _), c). full[idx := Some c]) resolved (zip ads combination)"

definition cellKeyOpt :: "string option list \<Rightarrow> string" where
  "cellKeyOpt full = cellKey (map (\<lambda>x. case x of None \<Rightarrow> [] | Some s \<Rightarrow> s) full)"

definition cellOrNull :: "jobject \<Rightarrow> string \<Rightarrow> json" where
  "cellOrNull cs key =
     (if hasCell cs key then (case field cs key of Some v \<Rightarrow> v | None \<Rightarrow> JNull) else JNull)"

fun viewOf :: "dimension \<Rightarrow> answer_dimension_view list" where
  "viewOf (DAnswer i q bs) = [\<lparr>advId = i, advQuestionId = q, advBuckets = bs\<rparr>]"
| "viewOf (DCotisation i bs) = []"
| "viewOf (DPromo i bs) = []"
| "viewOf (DFormation i bs) = []"

definition labelFor :: "pricing_facts \<Rightarrow> dimension \<Rightarrow> string list" where
  "labelFor facts d =
     (if isAnswer d then []
      else (case map_of (bucketLabels d) (bucketFor d facts) of None \<Rightarrow> [] | Some l \<Rightarrow> [l]))"

text \<open>
  Assignment to a property of a plain object: a number or null given to \<open>__proto__\<close> is dropped, every
  other name becomes a property of the object.
\<close>

definition PROTO :: string where
  "PROTO = ''__proto__''"

definition setProperty :: "(string \<rightharpoonup> json) \<Rightarrow> string \<Rightarrow> json \<Rightarrow> (string \<rightharpoonup> json)" where
  "setProperty obj k v = (if k = PROTO then obj else obj(k \<mapsto> v))"

definition pricingViewFor :: "price_matrix \<Rightarrow> pricing_facts \<Rightarrow> pricing_view" where
  "pricingViewFor m facts =
     (let ads = answerDims (dimensions m);
          resolved = resolvedIds (dimensions m) facts;
          vcells = foldl (\<lambda>acc c.
            setProperty acc (cellKey c) (cellOrNull (cells m) (cellKeyOpt (fillCombination resolved ads c))))
            Map.empty (combinations (map snd ads))
      in \<lparr>baseCents =
            (case vcells (cellKey (map (\<lambda>_. OTHERS_BUCKET_ID) ads)) of None \<Rightarrow> JNull | Some v \<Rightarrow> v),
          appliedLabels = concat (map (labelFor facts) (dimensions m)),
          answerDimensions = concat (map (\<lambda>(_, d). viewOf d) ads),
          viewCells = vcells,
          ignoredModifierQuestionIds = pricedQuestionIds (Some m)\<rparr>)"

definition pipeFree :: "dimension list \<Rightarrow> bool" where
  "pipeFree ds = list_all (\<lambda>d. list_all (\<lambda>i. CHR ''|'' \<notin> set i) (bucketIds d)) ds"

definition protoFree :: "dimension list \<Rightarrow> bool" where
  "protoFree ds = list_all (\<lambda>d. PROTO \<notin> set (bucketIds d)) ds"

definition idsNonEmpty :: "dimension list \<Rightarrow> bool" where
  "idsNonEmpty ds = list_all (\<lambda>d. list_all (\<lambda>i. i \<noteq> []) (bucketIds d)) ds"

section \<open>Keys and combinations\<close>

lemma combinations_snoc:
  "combinations (ds @ [d]) =
     concat (map (\<lambda>p. map (\<lambda>i. p @ [i]) (idsWithOthers d)) (combinations ds))"
  by (simp add: combinations_def)

lemma combinations_Nil [simp]: "combinations [] = [[]]"
  by (simp add: combinations_def)

lemma list_all2_snoc: "list_all2 P (xs @ [x]) (ys @ [y]) \<longleftrightarrow> list_all2 P xs ys \<and> P x y"
proof (cases "length xs = length ys")
  case True
  then show ?thesis by (simp add: list_all2_append)
next
  case False
  then show ?thesis by (auto dest: list_all2_lengthD)
qed

lemma set_combinations:
  "set (combinations ds) = {c. list_all2 (\<lambda>i d. i \<in> set (idsWithOthers d)) c ds}"
proof (induction ds rule: rev_induct)
  case Nil
  then show ?case by simp
next
  case (snoc d ds)
  have "c \<in> set (combinations (ds @ [d])) \<longleftrightarrow>
      list_all2 (\<lambda>i d. i \<in> set (idsWithOthers d)) c (ds @ [d])" for c
    by (cases c rule: rev_cases) (auto simp: combinations_snoc list_all2_snoc snoc.IH)
  then show ?case by blast
qed

lemma map_bucketFor_combination:
  "map (\<lambda>d. bucketFor d facts) ds \<in> set (combinations ds)"
  using bucketFor_mem
  by (auto simp: set_combinations idsWithOthers_def list_all2_conv_all_nth)

lemma others_combination: "map (\<lambda>_. OTHERS_BUCKET_ID) ds \<in> set (combinations ds)"
  by (auto simp: set_combinations idsWithOthers_def list_all2_conv_all_nth)

lemma others_ne [simp]: "OTHERS_BUCKET_ID \<noteq> []" "CHR ''|'' \<notin> set OTHERS_BUCKET_ID"
  by (simp_all add: OTHERS_BUCKET_ID_def)

lemma combination_ids:
  assumes "c \<in> set (combinations ds)" and "i \<in> set c"
  obtains d where "d \<in> set ds" and "i \<in> set (idsWithOthers d)"
proof -
  from assms(2) obtain n where "n < length c" and "i = c ! n" by (auto simp: in_set_conv_nth)
  with assms(1) have "ds ! n \<in> set ds" and "i \<in> set (idsWithOthers (ds ! n))"
    by (auto simp: set_combinations list_all2_conv_all_nth)
  then show thesis by (rule that)
qed

lemma combination_nonempty:
  "idsNonEmpty ds \<Longrightarrow> c \<in> set (combinations ds) \<Longrightarrow> i \<in> set c \<Longrightarrow> i \<noteq> []"
  by (erule (1) combination_ids)
    (auto simp: idsNonEmpty_def idsWithOthers_def list_all_iff OTHERS_BUCKET_ID_def)

lemma combination_pipe_free:
  "pipeFree ds \<Longrightarrow> c \<in> set (combinations ds) \<Longrightarrow> i \<in> set c \<Longrightarrow> CHR ''|'' \<notin> set i"
  by (erule (1) combination_ids) (auto simp: pipeFree_def idsWithOthers_def list_all_iff)

lemma combination_length: "c \<in> set (combinations ds) \<Longrightarrow> length c = length ds"
  by (auto simp: set_combinations dest: list_all2_lengthD)

lemma cellKey_inj: "pipeFree ds \<Longrightarrow> inj_on cellKey (set (combinations ds))"
  unfolding cellKey_def
  by (intro inj_onI join_inject [where sep = "CHR ''|''"])
    (auto simp: combination_length dest: combination_pipe_free)

lemma allCellKeys_eq:
  "idsNonEmpty ds \<Longrightarrow> allCellKeys ds = map cellKey (combinations ds)"
proof (induction ds rule: rev_induct)
  case Nil
  then show ?case by (simp add: allCellKeys_def cellKey_def)
next
  case (snoc d ds)
  have ne: "idsNonEmpty ds" using snoc.prems by (simp add: idsNonEmpty_def)
  have step: "(if cellKey p \<noteq> [] then cellKey p @ ''|'' @ i else i) = cellKey (p @ [i])"
    if p: "p \<in> set (combinations ds)" for p i
  proof (cases "p = []")
    case True
    then show ?thesis by (simp add: cellKey_def)
  next
    case False
    moreover from this have "cellKey p \<noteq> []"
      unfolding cellKey_def using combination_nonempty [OF ne p] by (intro join_ne_Nil) auto
    ultimately show ?thesis by (simp add: cellKey_def join_append1)
  qed
  have "allCellKeys (ds @ [d]) = concat (map (\<lambda>prefix.
      map (\<lambda>i. if prefix \<noteq> [] then prefix @ ''|'' @ i else i) (idsWithOthers d)) (allCellKeys ds))"
    by (simp add: allCellKeys_def)
  also have "\<dots> = concat (map (\<lambda>p. map (\<lambda>i. cellKey (p @ [i])) (idsWithOthers d)) (combinations ds))"
    unfolding snoc.IH [OF ne] map_map o_def
    by (intro arg_cong [where f = concat] map_cong refl) (use step in auto)
  also have "\<dots> = map cellKey (combinations (ds @ [d]))"
    by (simp add: combinations_snoc map_concat o_def)
  finally show ?case .
qed

lemma length_combinations: "length (combinations ds) = expectedCellCount ds"
proof (induction ds rule: rev_induct)
  case Nil
  then show ?case by (simp add: expectedCellCount_def)
next
  case (snoc d ds)
  have "length (combinations (ds @ [d])) = length (combinations ds) * length (idsWithOthers d)"
    by (simp add: combinations_snoc length_concat o_def sum_list_triv)
  with snoc show ?case by (simp add: expectedCellCount_def idsWithOthers_def)
qed

lemma distinct_combinations:
  "\<forall>d \<in> set ds. distinct (idsWithOthers d) \<Longrightarrow> distinct (combinations ds)"
proof (induction ds rule: rev_induct)
  case Nil
  then show ?case by simp
next
  case (snoc d ds)
  let ?row = "\<lambda>p. map (\<lambda>i. p @ [i]) (idsWithOthers d)"
  from snoc have cs: "distinct (combinations ds)" and d: "distinct (idsWithOthers d)" by simp_all
  have "distinct (concat (map ?row ps))" if "distinct ps" for ps
    using that
  proof (induction ps)
    case (Cons p ps)
    have "distinct (?row p)" using d by (simp add: distinct_map inj_on_def)
    moreover have "set (?row p) \<inter> set (concat (map ?row ps)) = {}"
      using Cons.prems by auto
    ultimately show ?case using Cons by simp
  qed simp
  from this [OF cs] show ?case unfolding combinations_snoc .
qed

section \<open>What validation establishes\<close>

lemma checkBucketIds_Inr:
  "checkBucketIds crit seen bs = Inr u \<longleftrightarrow>
     OTHERS_BUCKET_ID \<notin> set bs \<and> distinct bs \<and> set bs \<inter> set seen = {}"
  by (induction crit seen bs rule: checkBucketIds.induct) auto

lemma checkDimensions_Cons_Inr:
  "checkDimensions seen (d # ds) = Inr u \<longleftrightarrow>
     dimId d \<notin> set seen \<and> bucketIds d \<noteq> [] \<and> distinct (idsWithOthers d)
     \<and> findOverlappingBuckets d = [] \<and> checkDimensions (dimId d # seen) ds = Inr u"
  by (simp add: result_simps checkBucketIds_Inr idsWithOthers_def split: list.split prod.split) blast

lemma checkDimensions_Inr:
  "checkDimensions seen ds = Inr u \<Longrightarrow>
     \<forall>d \<in> set ds. distinct (idsWithOthers d) \<and> bucketIds d \<noteq> [] \<and> findOverlappingBuckets d = []"
  by (induction ds arbitrary: seen) (auto simp: checkDimensions_Cons_Inr simp del: checkDimensions.simps(2))

lemma checkPrices_Inr:
  "checkPrices cs = Inr u \<Longrightarrow> (k, v) \<in> set cs \<Longrightarrow> v = JNull \<or> (\<exists>n \<ge> 0. v = JNum (of_int n))"
proof (induction cs rule: checkPrices.induct)
  case 1
  then show ?case by simp
next
  case (2 key w rest)
  have "isInteger w \<Longrightarrow> \<not> intOf w < 0 \<Longrightarrow> \<exists>n \<ge> 0. w = JNum (of_int n)"
    unfolding isInteger_iff by (auto simp: intOf_def)
  with 2 show ?case by (cases "w = JNull") (auto split: if_splits)
qed

lemma assertMatrixValid_Inr:
  assumes "assertMatrixValid m maxCells subject = Inr u"
  shows "\<forall>d \<in> set (dimensions m). distinct (idsWithOthers d) \<and> findOverlappingBuckets d = []"
    and "\<forall>k \<in> set (allCellKeys (dimensions m)). hasCell (cells m) k"
    and "fst ` set (cells m) \<subseteq> set (allCellKeys (dimensions m))"
    and "checkPrices (cells m) = Inr ()"
    and "\<exists>k \<in> set (allCellKeys (dimensions m)). field (cells m) k \<noteq> Some JNull"
    and "expectedCellCount (dimensions m) \<le> maxCells"
    and "dimensions m \<noteq> []"
proof -
  let ?required = "allCellKeys (dimensions m)"
  from assms have dims: "checkDimensions [] (dimensions m) = Inr ()"
    and rest: "dimensions m \<noteq> []" "\<not> expectedCellCount (dimensions m) > maxCells"
      "filter (\<lambda>k. \<not> hasCell (cells m) k) ?required = []"
      "filter (\<lambda>k. k \<notin> set ?required) (map fst (cells m)) = []"
      "checkPrices (cells m) = Inr ()"
      "\<not> list_all (\<lambda>k. field (cells m) k = Some JNull) ?required"
    unfolding assertMatrixValid_def Let_def by (simp_all add: result_simps split: if_splits)
  from checkDimensions_Inr [OF dims] rest
  show "\<forall>d \<in> set (dimensions m). distinct (idsWithOthers d) \<and> findOverlappingBuckets d = []"
    and "\<forall>k \<in> set ?required. hasCell (cells m) k"
    and "fst ` set (cells m) \<subseteq> set ?required"
    and "checkPrices (cells m) = Inr ()"
    and "\<exists>k \<in> set ?required. field (cells m) k \<noteq> Some JNull"
    and "expectedCellCount (dimensions m) \<le> maxCells"
    and "dimensions m \<noteq> []"
    by (auto simp: filter_empty_conv list_all_iff)
qed

lemma cellKeyFor_mem:
  "idsNonEmpty (dimensions m) \<Longrightarrow> cellKeyFor m facts \<in> set (allCellKeys (dimensions m))"
  by (auto simp: cellKeyFor_def allCellKeys_eq intro: map_bucketFor_combination)

lemma hasCell_field: "hasCell cs k \<Longrightarrow> \<exists>v. field cs k = Some v \<and> (k, v) \<in> set cs"
  by (auto simp: hasCell_def field_def split: option.splits dest: map_of_SomeD)

lemma resolveCellPrice_valid:
  assumes "assertMatrixValid m maxCells subject = Inr u" and "idsNonEmpty (dimensions m)"
  shows "\<exists>v. resolveCellPrice m facts s = Inr v
           \<and> field (cells m) (cellKeyFor m facts) = Some v
           \<and> (v = JNull \<or> (\<exists>n \<ge> 0. v = JNum (of_int n)))"
proof -
  note valid = assertMatrixValid_Inr [OF assms(1)]
  have has: "hasCell (cells m) (cellKeyFor m facts)"
    using valid(2) cellKeyFor_mem [OF assms(2)] by blast
  then obtain v where v: "field (cells m) (cellKeyFor m facts) = Some v"
    and mem: "(cellKeyFor m facts, v) \<in> set (cells m)"
    using hasCell_field by blast
  with has checkPrices_Inr [OF valid(4) mem] show ?thesis
    by (auto simp: resolveCellPrice_def)
qed

section \<open>The view of the fill page\<close>

lemma foldl_map_upd:
  assumes "inj_on k (set cs)" and "c \<in> set cs" and "k c \<noteq> PROTO"
  shows "foldl (\<lambda>m c. setProperty m (k c) (v c)) m0 cs (k c) = Some (v c)"
  using assms
proof (induction cs arbitrary: m0 rule: rev_induct)
  case Nil
  then show ?case by simp
next
  case (snoc x xs)
  show ?case
  proof (cases "c = x")
    case True
    with snoc.prems(3) show ?thesis by (simp add: setProperty_def)
  next
    case False
    with snoc.prems have "k c \<noteq> k x" and "c \<in> set xs" and "inj_on k (set xs)"
      by (auto simp: inj_on_def)
    with snoc.IH snoc.prems(3) show ?thesis by (simp add: setProperty_def)
  qed
qed

lemma fill_snoc:
  "\<forall>((i, _), _) \<in> set us. i < length xs \<Longrightarrow>
   foldl (\<lambda>full ((idx, _), c). full[idx := Some c]) (xs @ [y]) us
   = foldl (\<lambda>full ((idx, _), c). full[idx := Some c]) xs us @ [y]"
proof (induction us arbitrary: xs)
  case (Cons u us)
  obtain i d c where u: "u = ((i, d), c)" by (metis prod.exhaust)
  with Cons show ?case by (simp add: list_update_append)
qed simp

lemma answerDims_snoc:
  "answerDims (ds @ [d]) = answerDims ds @ (if isAnswer d then [(length ds, d)] else [])"
  by (simp add: answerDims_def enumerate_append_eq)

lemma answerDims_index: "(i, d) \<in> set (answerDims ds) \<Longrightarrow> i < length ds"
  by (auto simp: answerDims_def in_set_enumerate_eq)

lemma fillCombination_eq:
  "fillCombination (resolvedIds ds facts) (answerDims ds) (map (\<lambda>x. g (snd x)) (answerDims ds))
   = map (\<lambda>d. Some (if isAnswer d then g d else bucketFor d facts)) ds"
proof (induction ds rule: rev_induct)
  case Nil
  then show ?case by (simp add: fillCombination_def resolvedIds_def answerDims_def)
next
  case (snoc d ds)
  let ?us = "zip (answerDims ds) (map (\<lambda>x. g (snd x)) (answerDims ds))"
  have bound: "\<forall>((i, _), _) \<in> set ?us. i < length (resolvedIds ds facts)"
    by (auto simp: resolvedIds_def dest!: set_zip_leftD answerDims_index)
  have res: "resolvedIds (ds @ [d]) facts
      = resolvedIds ds facts @ [if isAnswer d then None else Some (bucketFor d facts)]"
    by (simp add: resolvedIds_def)
  have "foldl (\<lambda>full ((idx, _), c). full[idx := Some c]) (resolvedIds ds facts) ?us
      = map (\<lambda>d. Some (if isAnswer d then g d else bucketFor d facts)) ds"
    using snoc.IH unfolding fillCombination_def .
  then have "foldl (\<lambda>full ((idx, _), c). full[idx := Some c]) (resolvedIds ds facts @ [y]) ?us
      = map (\<lambda>d. Some (if isAnswer d then g d else bucketFor d facts)) ds @ [y]" for y
    using fill_snoc [OF bound] by simp
  then show ?case
    by (simp add: fillCombination_def answerDims_snoc res list_update_append)
qed

lemma pipeFree_answerDims: "pipeFree ds \<Longrightarrow> pipeFree (map snd (answerDims ds))"
  by (auto simp: pipeFree_def answerDims_def list_all_iff in_set_enumerate_eq)

lemma bucketFor_answers: "\<not> isAnswer d \<Longrightarrow> bucketFor d (facts\<lparr>answers := a\<rparr>) = bucketFor d facts"
  by (cases d) (simp_all add: matchesCotisation_def matchesPromo_def matchesFormation_def)

lemma join_sep: "CHR ''|'' \<in> set (cellKey (x # y # ys))"
  by (simp add: cellKey_def)

lemma combination_not_proto:
  assumes "protoFree ds" and "c \<in> set (combinations (map snd (answerDims ds)))"
  shows "cellKey c \<noteq> PROTO"
proof -
  have all: "list_all2 (\<lambda>i d. i \<in> set (idsWithOthers d)) c (map snd (answerDims ds))"
    using assms(2) by (simp add: set_combinations)
  have safe: "i \<noteq> PROTO" if "d \<in> set (map snd (answerDims ds))" "i \<in> set (idsWithOthers d)" for i d
    using that assms(1)
    by (auto simp: protoFree_def list_all_iff answerDims_def in_set_enumerate_eq idsWithOthers_def OTHERS_BUCKET_ID_def PROTO_def)
  have elems: "i \<noteq> PROTO" if mem: "i \<in> set c" for i
  proof -
    obtain k where "k < length c" "c ! k = i" using mem [unfolded in_set_conv_nth] by blast
    with list_all2_nthD [OF all] list_all2_lengthD [OF all] safe show ?thesis
      by (metis nth_mem)
  qed
  show ?thesis
  proof (cases c)
    case Nil
    then show ?thesis by (simp add: cellKey_def PROTO_def)
  next
    case (Cons x xs)
    show ?thesis
    proof (cases xs)
      case Nil
      with Cons elems show ?thesis by (simp add: cellKey_def)
    next
      case (Cons y ys)
      have "CHR ''|'' \<in> set (cellKey c)" unfolding \<open>c = x # xs\<close> Cons by (rule join_sep)
      moreover have "CHR ''|'' \<notin> set PROTO" by (simp add: PROTO_def)
      ultimately show ?thesis by metis
    qed
  qed
qed

lemma viewCells_at:
  assumes pf: "pipeFree (dimensions m)" and nf: "protoFree (dimensions m)"
    and g: "map g (map snd (answerDims (dimensions m)))
            \<in> set (combinations (map snd (answerDims (dimensions m))))"
  shows "viewCells (pricingViewFor m facts) (cellKey (map g (map snd (answerDims (dimensions m)))))
         = Some (cellOrNull (cells m)
             (cellKey (map (\<lambda>d. if isAnswer d then g d else bucketFor d facts) (dimensions m))))"
proof -
  have inj: "inj_on cellKey (set (combinations (map snd (answerDims (dimensions m)))))"
    using pf by (intro cellKey_inj pipeFree_answerDims)
  have "viewCells (pricingViewFor m facts) (cellKey (map g (map snd (answerDims (dimensions m)))))
      = Some (cellOrNull (cells m) (cellKeyOpt (fillCombination (resolvedIds (dimensions m) facts)
          (answerDims (dimensions m)) (map g (map snd (answerDims (dimensions m)))))))"
    unfolding pricingViewFor_def Let_def pricing_view.select_convs
    by (rule foldl_map_upd [OF inj g combination_not_proto [OF nf g]])
  also have "fillCombination (resolvedIds (dimensions m) facts)
          (answerDims (dimensions m)) (map g (map snd (answerDims (dimensions m))))
      = map (\<lambda>d. Some (if isAnswer d then g d else bucketFor d facts)) (dimensions m)"
    unfolding map_map o_def by (rule fillCombination_eq)
  finally show ?thesis by (simp add: cellKeyOpt_def o_def)
qed

lemma view_price:
  assumes pf: "pipeFree (dimensions m)" and nf: "protoFree (dimensions m)"
    and price: "resolveCellPrice m (facts\<lparr>answers := a\<rparr>) s = Inr v"
  shows "viewCells (pricingViewFor m facts)
           (cellKey (map (\<lambda>d. bucketFor d (facts\<lparr>answers := a\<rparr>))
             (map snd (answerDims (dimensions m))))) = Some v"
proof -
  have "cellOrNull (cells m) (cellKeyFor m (facts\<lparr>answers := a\<rparr>)) = v"
    using price by (auto simp: resolveCellPrice_def cellOrNull_def Let_def split: if_splits option.splits)
  moreover have "cellKeyFor m (facts\<lparr>answers := a\<rparr>) = cellKey (map (\<lambda>d. if isAnswer d
      then bucketFor d (facts\<lparr>answers := a\<rparr>) else bucketFor d facts) (dimensions m))"
    unfolding cellKeyFor_def
    by (intro arg_cong [where f = cellKey] map_cong refl) (simp add: bucketFor_answers)
  ultimately show ?thesis
    using viewCells_at [OF pf nf map_bucketFor_combination] by simp
qed

lemma bucketFor_no_answers: "isAnswer d \<Longrightarrow> bucketFor d (facts\<lparr>answers := (\<lambda>_. None)\<rparr>) = OTHERS_BUCKET_ID"
  by (cases d) (simp_all add: idOrOthers_filter matchesAnswer_def)

lemma view_base:
  assumes pf: "pipeFree (dimensions m)" and nf: "protoFree (dimensions m)"
    and price: "resolveCellPrice m (facts\<lparr>answers := (\<lambda>_. None)\<rparr>) s = Inr v"
  shows "baseCents (pricingViewFor m facts) = v"
proof -
  have *: "map (\<lambda>_. OTHERS_BUCKET_ID) (answerDims (dimensions m))
      = map (\<lambda>d. bucketFor d (facts\<lparr>answers := (\<lambda>_. None)\<rparr>)) (map snd (answerDims (dimensions m)))"
    by (auto simp: answerDims_def bucketFor_no_answers)
  have "baseCents (pricingViewFor m facts) =
      (case viewCells (pricingViewFor m facts)
          (cellKey (map (\<lambda>d. bucketFor d (facts\<lparr>answers := (\<lambda>_. None)\<rparr>))
            (map snd (answerDims (dimensions m))))) of None \<Rightarrow> JNull | Some v \<Rightarrow> v)"
    by (simp only: pricingViewFor_def Let_def pricing_view.select_convs *)
  with view_price [OF pf nf price] show ?thesis by simp
qed

end
