(* ===== verification/Price_Validate.thy ===== *)
theory Price_Validate
  imports Price_Matrix
begin

text \<open>
  Structural validation of the documents a client sends (\<open>pricing/validate.ts\<close>) and the
  assembly of the facts a price rests on (\<open>pricing/pricing-facts.service.ts\<close>).

  The calendar year the validation reads from the clock is the argument \<open>lastYear\<close>. The path
  \<open>where\<close> that only appears in the text of the messages is left out. The answers of core-service
  and of the tag service are arguments of \<open>build\<close>.
\<close>

section \<open>Parsing\<close>

record criteria_context =
  tierKeys :: "string option list"
  questions :: "string \<rightharpoonup> string list"

definition asRecord :: "json option \<Rightarrow> (pricing_error, jobject) result" where
  "asRecord v = (case v of Some (JObj kvs) \<Rightarrow> Inr kvs | _ \<Rightarrow> Inl MustBeObject)"

text \<open>The \<open>Array.isArray\<close> guards.\<close>

definition asArray :: "json option \<Rightarrow> (pricing_error, json list) result" where
  "asArray v = (case v of Some (JArr xs) \<Rightarrow> Inr xs | _ \<Rightarrow> Inl MustBeList)"

definition asStringArray :: "json option \<Rightarrow> (pricing_error, string list) result" where
  "asStringArray v =
     bind_r (asArray v) (\<lambda>xs.
       if list_ex (\<lambda>x. \<not> isStr x) xs then Inl MustBeList
       else if xs = [] then Inl CannotBeEmpty
       else Inr (map strOf xs))"

definition tierOf :: "json \<Rightarrow> string option" where
  "tierOf v = (case v of JStr s \<Rightarrow> Some s | _ \<Rightarrow> None)"

definition asTierKeys ::
  "json option \<Rightarrow> criteria_context \<Rightarrow> (pricing_error, string option list) result" where
  "asTierKeys v ctx =
     bind_r (asArray v) (\<lambda>xs.
       if list_ex (\<lambda>x. x \<noteq> JNull \<and> \<not> isStr x) xs then Inl MustBeList
       else if xs = [] then Inl CannotBeEmpty
       else (case find (\<lambda>k. k \<notin> set (tierKeys ctx)) (map tierOf xs) of
               Some k \<Rightarrow> Inl (UnknownTier k)
             | None \<Rightarrow> Inr (map tierOf xs)))"

definition FIRST_PROMO_YEAR :: int where
  "FIRST_PROMO_YEAR = 1816"

definition asPromoValues :: "json option \<Rightarrow> int \<Rightarrow> (pricing_error, int list) result" where
  "asPromoValues v lastYear =
     bind_r (asArray v) (\<lambda>xs.
       if list_ex (\<lambda>x. \<not> isInteger x) xs then Inl MustBeList
       else if xs = [] then Inl CannotBeEmpty
       else (case find (\<lambda>y. y < FIRST_PROMO_YEAR \<or> y > lastYear) (map intOf xs) of
               Some y \<Rightarrow> Inl (NotAPromo y)
             | None \<Rightarrow> Inr (map intOf xs)))"

definition assertSellsCotisation :: "criteria_context \<Rightarrow> (pricing_error, unit) result" where
  "assertSellsCotisation ctx = guard_r (tierKeys ctx \<noteq> []) NoCotisation"

definition emptyCondition :: audience_condition where
  "emptyCondition = \<lparr>condCotisation = None, condPromo = None, condFormation = None, condAnswer = None\<rparr>"

definition parseCotisationCriterion ::
  "jobject \<Rightarrow> criteria_context \<Rightarrow> (pricing_error, cotisation_criterion option) result" where
  "parseCotisationCriterion doc ctx =
     (if field doc ''cotisation'' = None then Inr None
      else bind_r (asRecord (field doc ''cotisation'')) (\<lambda>c.
        bind_r (assertSellsCotisation ctx) (\<lambda>_.
        if field c ''anyTier'' = Some (JBool True)
        then Inr (Some \<lparr>critAnyTier = True, critVariantKeys = None\<rparr>)
        else bind_r (asTierKeys (field c ''variantKeys'') ctx) (\<lambda>ks.
          Inr (Some \<lparr>critAnyTier = False, critVariantKeys = Some ks\<rparr>)))))"

definition parseAnswerCriterion ::
  "jobject \<Rightarrow> criteria_context \<Rightarrow> (pricing_error, (string \<times> string list) option) result" where
  "parseAnswerCriterion doc ctx =
     (if field doc ''answer'' = None then Inr None
      else bind_r (asRecord (field doc ''answer'')) (\<lambda>a.
        let questionId = strOrEmpty (field a ''questionId'') in
        case questions ctx questionId of
          None \<Rightarrow> Inl UnknownQuestion
        | Some options \<Rightarrow>
            bind_r (asStringArray (field a ''optionIds'')) (\<lambda>optionIds.
              if list_all (\<lambda>i. i \<in> set options) optionIds
              then Inr (Some (questionId, optionIds)) else Inl UnknownOption)))"

definition parseAudienceCondition ::
  "json \<Rightarrow> criteria_context \<Rightarrow> int \<Rightarrow> (pricing_error, audience_condition) result" where
  "parseAudienceCondition raw ctx lastYear =
     bind_r (asRecord (Some raw)) (\<lambda>doc.
     bind_r (parseCotisationCriterion doc ctx) (\<lambda>cot.
     bind_r (if field doc ''promo'' = None then Inr None
             else bind_r (asRecord (field doc ''promo'')) (\<lambda>p.
               bind_r (asPromoValues (field p ''values'') lastYear) (\<lambda>v. Inr (Some v)))) (\<lambda>pro.
     bind_r (if field doc ''formation'' = None then Inr None
             else bind_r (asRecord (field doc ''formation'')) (\<lambda>f.
               bind_r (asStringArray (field f ''values'')) (\<lambda>v. Inr (Some v)))) (\<lambda>form.
     bind_r (parseAnswerCriterion doc ctx) (\<lambda>ans.
     let condition = \<lparr>condCotisation = cot, condPromo = pro, condFormation = form, condAnswer = ans\<rparr> in
     if condition = emptyCondition then Inl EmptyCondition else Inr condition)))))"

text \<open>\<open>base(raw, i)\<close> of \<open>parseDimension\<close>: the document of a bucket, its id and its label.\<close>

definition parseBucketBase :: "json \<Rightarrow> (pricing_error, jobject \<times> string \<times> string) result" where
  "parseBucketBase raw =
     bind_r (asRecord (Some raw)) (\<lambda>b.
       let s = strOrEmpty (field b ''id'');
           bid = (if trim s \<noteq> [] then s else []);
           lbl = trim (strOrEmpty (field b ''label''))
       in if bid = [] then Inl IdRequired
          else if bid = OTHERS_BUCKET_ID then Inl ReservedGroup
          else if lbl = [] then Inl LabelRequired
          else Inr (b, bid, lbl))"

definition parseCotisationBucket ::
  "criteria_context \<Rightarrow> json \<Rightarrow> (pricing_error, cotisation_bucket) result" where
  "parseCotisationBucket ctx raw =
     bind_r (parseBucketBase raw) (\<lambda>(b, bid, lbl).
       if field b ''anyTier'' = Some (JBool True)
       then Inr \<lparr>bucketId = bid, label = lbl, anyTier = True, variantKeys = None\<rparr>
       else bind_r (asTierKeys (field b ''variantKeys'') ctx) (\<lambda>ks.
         Inr \<lparr>bucketId = bid, label = lbl, anyTier = False, variantKeys = Some ks\<rparr>))"

definition parsePromoBucket :: "int \<Rightarrow> json \<Rightarrow> (pricing_error, promo_bucket) result" where
  "parsePromoBucket lastYear raw =
     bind_r (parseBucketBase raw) (\<lambda>(b, bid, lbl).
       bind_r (asPromoValues (field b ''values'') lastYear) (\<lambda>v.
         Inr \<lparr>bucketId = bid, label = lbl, promoValues = v\<rparr>))"

definition parseStringBucket :: "json \<Rightarrow> (pricing_error, string_bucket) result" where
  "parseStringBucket raw =
     bind_r (parseBucketBase raw) (\<lambda>(b, bid, lbl).
       bind_r (asStringArray (field b ''values'')) (\<lambda>v.
         Inr \<lparr>bucketId = bid, label = lbl, stringValues = v\<rparr>))"

definition parseAnswerBucket :: "string list \<Rightarrow> json \<Rightarrow> (pricing_error, string_bucket) result" where
  "parseAnswerBucket options raw =
     bind_r (parseBucketBase raw) (\<lambda>(b, bid, lbl).
       bind_r (asStringArray (field b ''values'')) (\<lambda>v.
         if list_all (\<lambda>x. x \<in> set options) v
         then Inr \<lparr>bucketId = bid, label = lbl, stringValues = v\<rparr> else Inl UnknownOption))"

definition parseDimension ::
  "criteria_context \<Rightarrow> int \<Rightarrow> json \<Rightarrow> (pricing_error, dimension) result" where
  "parseDimension ctx lastYear raw =
     bind_r (asRecord (Some raw)) (\<lambda>doc.
       let s = strOrEmpty (field doc ''id''); i = (if trim s \<noteq> [] then s else []) in
       if i = [] then Inl IdRequired
       else bind_r (asArray (field doc ''buckets'')) (\<lambda>bs.
           (let kind = strOrEmpty (field doc ''kind'') in
            if kind = ''cotisation'' then
              bind_r (assertSellsCotisation ctx) (\<lambda>_.
              bind_r (mapM_r (parseCotisationBucket ctx) bs) (\<lambda>ps. Inr (DCotisation i ps)))
            else if kind = ''promo'' then
              bind_r (mapM_r (parsePromoBucket lastYear) bs) (\<lambda>ps. Inr (DPromo i ps))
            else if kind = ''formation'' then
              bind_r (mapM_r parseStringBucket bs) (\<lambda>ps. Inr (DFormation i ps))
            else if kind = ''answer'' then
              (let questionId = strOrEmpty (field doc ''questionId'') in
               case questions ctx questionId of
                 None \<Rightarrow> Inl UnknownQuestion
               | Some options \<Rightarrow>
                   if options = [] then Inl NoOptions
                   else bind_r (mapM_r (parseAnswerBucket options) bs) (\<lambda>ps.
                     Inr (DAnswer i questionId ps)))
            else Inl UnknownKind)))"

definition parsePriceMatrix ::
  "json \<Rightarrow> criteria_context \<Rightarrow> int \<Rightarrow> priced_subject \<Rightarrow> (pricing_error, price_matrix) result" where
  "parsePriceMatrix raw ctx lastYear subject =
     bind_r (asRecord (Some raw)) (\<lambda>doc.
     bind_r (asArray (field doc ''dimensions'')) (\<lambda>ds.
     bind_r (asRecord (field doc ''cells'')) (\<lambda>cs.
     bind_r (mapM_r (parseDimension ctx lastYear) ds) (\<lambda>dims.
       let m = \<lparr>dimensions = dims, cells = cs\<rparr> in
       bind_r (assertMatrixValid m 400 subject) (\<lambda>_. Inr m)))))"

section \<open>Assembling the facts\<close>

record internal_public_profile =
  profPromo :: "int option"
  profFormation :: "string option"

text \<open>What a request to core-service ends in: the body is absent when it cannot be read as a profile.\<close>

datatype profile_response =
    FetchFailed
  | Responded nat "internal_public_profile option"

text \<open>The refusal of the service, and the error raised by a body that cannot be read.\<close>

datatype facts_error = ServiceUnavailable | BodyUnreadable

definition response_ok :: "nat \<Rightarrow> bool" where
  "response_ok status = (200 \<le> status \<and> status \<le> 299)"

definition fetchProfile ::
  "(string \<Rightarrow> profile_response) \<Rightarrow> string \<Rightarrow> (facts_error, int option \<times> string option) result" where
  "fetchProfile core userId =
     (case core userId of
        FetchFailed \<Rightarrow> Inl ServiceUnavailable
      | Responded status profile \<Rightarrow>
          if status = 404 then Inr (None, None)
          else if \<not> response_ok status then Inl ServiceUnavailable
          else (case profile of None \<Rightarrow> Inl BodyUnreadable
                | Some p \<Rightarrow> Inr (profPromo p, profFormation p)))"

definition profileFor ::
  "(string \<Rightarrow> profile_response) \<Rightarrow> string option \<Rightarrow> bool
     \<Rightarrow> (facts_error, int option \<times> string option) result" where
  "profileFor core userId needProfile =
     (case userId of
        None \<Rightarrow> Inr (None, None)
      | Some u \<Rightarrow> if \<not> needProfile \<or> u = [] then Inr (None, None) else fetchProfile core u)"

definition build ::
  "(string \<Rightarrow> profile_response) \<Rightarrow> (string \<Rightarrow> string \<Rightarrow> string option list)
     \<Rightarrow> string option \<Rightarrow> string option \<Rightarrow> (string \<rightharpoonup> string list) \<Rightarrow> bool
     \<Rightarrow> (facts_error, pricing_facts) result" where
  "build core listHeldCotisationTiers userId associationId ans needProfile =
     (let tiers = (case (userId, associationId) of
                     (Some u, Some a) \<Rightarrow>
                       if u \<noteq> [] \<and> a \<noteq> [] then listHeldCotisationTiers u a else []
                   | _ \<Rightarrow> [])
      in bind_r (profileFor core userId needProfile) (\<lambda>(p, f).
           Inr \<lparr>promo = p, formation = f, cotisationTiers = tiers, answers = ans\<rparr>))"

section \<open>What a parsed grid satisfies\<close>

lemma parseBucketBase_id: "parseBucketBase raw = Inr (b, bid, lbl) \<Longrightarrow> bid \<noteq> []"
  by (auto simp: parseBucketBase_def result_simps Let_def split: if_splits)

lemma parse_buckets_id:
  "parseCotisationBucket ctx raw = Inr cb \<Longrightarrow> bucketId cb \<noteq> []"
  "parsePromoBucket y raw = Inr pb \<Longrightarrow> bucketId pb \<noteq> []"
  "parseStringBucket raw = Inr sb \<Longrightarrow> bucketId sb \<noteq> []"
  "parseAnswerBucket opts raw = Inr sb \<Longrightarrow> bucketId sb \<noteq> []"
  by (auto simp: parseCotisationBucket_def parsePromoBucket_def parseStringBucket_def
      parseAnswerBucket_def result_simps dest!: parseBucketBase_id split: if_splits)

lemma mapM_buckets_id:
  "mapM_r (parseCotisationBucket ctx) bs = Inr cbs \<Longrightarrow> list_all (\<lambda>b. bucketId b \<noteq> []) cbs"
  "mapM_r (parsePromoBucket y) bs = Inr pbs \<Longrightarrow> list_all (\<lambda>b. bucketId b \<noteq> []) pbs"
  "mapM_r parseStringBucket bs = Inr sbs \<Longrightarrow> list_all (\<lambda>b. bucketId b \<noteq> []) sbs"
  "mapM_r (parseAnswerBucket opts) bs = Inr sbs \<Longrightarrow> list_all (\<lambda>b. bucketId b \<noteq> []) sbs"
  by (erule mapM_r_all, erule parse_buckets_id)+

lemma parseDimension_ids: "parseDimension ctx y raw = Inr d \<Longrightarrow> list_all (\<lambda>i. i \<noteq> []) (bucketIds d)"
  unfolding parseDimension_def Let_def
  by (auto simp: result_simps list.pred_map o_def split: if_splits option.splits
      dest: mapM_buckets_id)

lemma parsePriceMatrix_Inr:
  assumes "parsePriceMatrix raw ctx lastYear subject = Inr m"
  shows "assertMatrixValid m 400 subject = Inr ()" and "idsNonEmpty (dimensions m)"
proof -
  from assms obtain ds dims cs where
    dims: "mapM_r (parseDimension ctx lastYear) ds = Inr dims" and
    m: "m = \<lparr>dimensions = dims, cells = cs\<rparr>" and
    valid: "assertMatrixValid m 400 subject = Inr ()"
    by (auto simp: parsePriceMatrix_def result_simps Let_def)
  from valid show "assertMatrixValid m 400 subject = Inr ()" .
  show "idsNonEmpty (dimensions m)"
    using mapM_r_all [OF dims parseDimension_ids] m by (simp add: idsNonEmpty_def)
qed

section \<open>Properties\<close>

definition demo_ctx :: criteria_context where
  "demo_ctx = \<lparr>tierKeys = [None], questions = [''q'' \<mapsto> [''o'', ''n'']]\<rparr>"

definition demo_grid :: json where
  "demo_grid = JObj [
     (''dimensions'', JArr [
        JObj [(''id'', JStr ''c''), (''kind'', JStr ''cotisation''), (''buckets'', JArr [
          JObj [(''id'', JStr ''cot''), (''label'', JStr ''Cotisant''), (''anyTier'', JBool True)]])],
        JObj [(''id'', JStr ''a''), (''kind'', JStr ''answer''), (''questionId'', JStr ''q''),
          (''buckets'', JArr [
          JObj [(''id'', JStr ''yes''), (''label'', JStr ''Yes''), (''values'', JArr [JStr ''o''])]])]]),
     (''cells'', JObj [(''cot|yes'', JNum 500), (''cot|_others'', JNum 0),
        (''_others|yes'', JNum 1000), (''_others|_others'', JNull)])]"

definition demo_matrix :: price_matrix where
  "demo_matrix = \<lparr>
     dimensions = [
       DCotisation ''c'' [\<lparr>bucketId = ''cot'', label = ''Cotisant'', anyTier = True, variantKeys = None\<rparr>],
       DAnswer ''a'' ''q'' [\<lparr>bucketId = ''yes'', label = ''Yes'', stringValues = [''o'']\<rparr>]],
     cells = [(''cot|yes'', JNum 500), (''cot|_others'', JNum 0),
        (''_others|yes'', JNum 1000), (''_others|_others'', JNull)]\<rparr>"

lemmas parse_defs =
  parsePriceMatrix_def asRecord_def asArray_def field_def parseDimension_def parseBucketBase_def
  parseCotisationBucket_def parsePromoBucket_def parseStringBucket_def parseAnswerBucket_def
  asStringArray_def asPromoValues_def asTierKeys_def assertSellsCotisation_def strOrEmpty_def
  strOf_def isStr_def intOf_def isInteger_def trim_def js_ws_def OTHERS_BUCKET_ID_def
  FIRST_PROMO_YEAR_def

lemmas valid_defs =
  assertMatrixValid_def expectedCellCount_def allCellKeys_def idsWithOthers_def hasCell_def
  field_def OTHERS_BUCKET_ID_def isInteger_def intOf_def overlapsCotisation_def overlapsValues_def

lemma demo_valid: "assertMatrixValid demo_matrix 400 SForm = Inr ()"
  by (simp add: valid_defs demo_matrix_def)

lemma demo_parsed: "parsePriceMatrix demo_grid demo_ctx 2026 SForm = Inr demo_matrix"
  using demo_valid by (simp add: parse_defs Let_def demo_grid_def demo_ctx_def demo_matrix_def)

definition demo_facts :: pricing_facts where
  "demo_facts = \<lparr>promo = None, formation = None, cotisationTiers = [None], answers = [''q'' \<mapsto> [''n'']]\<rparr>"

text \<open>
  C16: Nobody is unpriced. Whatever document a client sends, a grid that \<open>parsePriceMatrix\<close> accepts
  has a cell for every person, whatever is known or unknown about them: \<open>resolveCellPrice\<close> never
  raises, and what it returns is the explicit "unavailable" or a whole non-negative amount.
\<close>

theorem parsed_grid_prices_everyone:
  assumes "parsePriceMatrix raw ctx lastYear subject = Inr m"
  shows "\<exists>v. resolveCellPrice m facts s = Inr v \<and> (v = JNull \<or> (\<exists>n \<ge> 0. v = JNum (of_int n)))"
  using resolveCellPrice_valid [OF parsePriceMatrix_Inr [OF assms]] by blast

theorem parsed_grid_prices_everyone_witness:
  "(\<exists>v. resolveCellPrice demo_matrix demo_facts SForm = Inr v \<and> (v = JNull \<or> (\<exists>n \<ge> 0. v = JNum (of_int n))))
   \<and> resolveCellPrice demo_matrix demo_facts SForm = Inr (JNum 0)"
proof
  show "\<exists>v. resolveCellPrice demo_matrix demo_facts SForm = Inr v \<and> (v = JNull \<or> (\<exists>n \<ge> 0. v = JNum (of_int n)))"
    by (rule parsed_grid_prices_everyone [OF demo_parsed])
  show "resolveCellPrice demo_matrix demo_facts SForm = Inr (JNum 0)"
    by (simp add: resolveCellPrice_def cellKeyFor_def cellKey_def demo_matrix_def demo_facts_def
        hasCell_def field_def idOrOthers_def matchesCotisation_def matchesAnswer_def
        OTHERS_BUCKET_ID_def)
qed





text \<open>
  The separator is not refused in a group id, and then the grid is not a grid: there is an
  accepted document in which two people in different groups of both criteria fall in one and the
  same cell, so they cannot be priced apart.
\<close>

theorem separator_in_id_merges_cells:
  "\<exists>raw m f1 f2.
     parsePriceMatrix raw demo_ctx 2026 SForm = Inr m
     \<and> map (\<lambda>d. bucketFor d f1) (dimensions m) \<noteq> map (\<lambda>d. bucketFor d f2) (dimensions m)
     \<and> cellKeyFor m f1 = cellKeyFor m f2
     \<and> \<not> distinct (allCellKeys (dimensions m))"
proof -
  define cs where "cs = map (\<lambda>k. (k, JNum 100)) [''a|c'', ''a|b|c'', ''a|_others'', ''a|b|b|c'',
    ''a|b|_others'', ''_others|c'', ''_others|b|c'', ''_others|_others'']"
  define fb where "fb = (\<lambda>i v. JObj [(''id'', JStr i), (''label'', JStr i), (''values'', JArr [v])])"
  define raw where "raw = JObj [(''dimensions'', JArr [
      JObj [(''id'', JStr ''f''), (''kind'', JStr ''formation''),
        (''buckets'', JArr [fb ''a'' (JStr ''ICM''), fb ''a|b'' (JStr ''ISMIN'')])],
      JObj [(''id'', JStr ''p''), (''kind'', JStr ''promo''),
        (''buckets'', JArr [fb ''c'' (JNum 2024), fb ''b|c'' (JNum 2025)])]]), (''cells'', JObj cs)]"
  define m where "m = \<lparr>dimensions = [
      DFormation ''f'' [\<lparr>bucketId = ''a'', label = ''a'', stringValues = [''ICM'']\<rparr>,
        \<lparr>bucketId = ''a|b'', label = ''a|b'', stringValues = [''ISMIN'']\<rparr>],
      DPromo ''p'' [\<lparr>bucketId = ''c'', label = ''c'', promoValues = [2024]\<rparr>,
        \<lparr>bucketId = ''b|c'', label = ''b|c'', promoValues = [2025]\<rparr>]], cells = cs\<rparr>"
  define f1 f2 :: pricing_facts where
    "f1 = \<lparr>promo = Some 2025, formation = Some ''ICM'', cotisationTiers = [], answers = Map.empty\<rparr>" and
    "f2 = \<lparr>promo = Some 2024, formation = Some ''ISMIN'', cotisationTiers = [], answers = Map.empty\<rparr>"
  have "assertMatrixValid m 400 SForm = Inr ()"
    by (simp add: valid_defs m_def cs_def)
  then have "parsePriceMatrix raw demo_ctx 2026 SForm = Inr m"
    by (simp add: parse_defs Let_def raw_def fb_def demo_ctx_def m_def)
  moreover have "map (\<lambda>d. bucketFor d f1) (dimensions m) = [''a'', ''b|c'']"
    and "map (\<lambda>d. bucketFor d f2) (dimensions m) = [''a|b'', ''c'']"
    by (simp_all add: m_def f1_def f2_def idOrOthers_def matchesFormation_def matchesPromo_def)
  moreover from this have "cellKeyFor m f1 = cellKeyFor m f2"
    by (simp add: cellKeyFor_def cellKey_def)
  moreover have "\<not> distinct (allCellKeys (dimensions m))"
    by (simp add: allCellKeys_def idsWithOthers_def m_def)
  ultimately show ?thesis
    by (intro exI [of _ raw] exI [of _ m] exI [of _ f1] exI [of _ f2]) simp
qed

text \<open>The answers of core-service that are no answer, and the profile the others give: a 404 is the empty one.\<close>

definition profileFailed :: "profile_response \<Rightarrow> bool" where
  "profileFailed r = (case r of FetchFailed \<Rightarrow> True
     | Responded status body \<Rightarrow> status \<noteq> 404 \<and> (\<not> response_ok status \<or> body = None))"

definition profileGiven :: "profile_response \<Rightarrow> int option \<times> string option" where
  "profileGiven r = (case r of Responded status (Some p) \<Rightarrow> if status = 404 then (None, None) else (profPromo p, profFormation p)
     | _ \<Rightarrow> (None, None))"

text \<open>
  C19: A price is right or refused. For a signed-in person, with the profile fetched only where the
  grid needs it: the operation is refused exactly when the grid needs the profile and core-service
  failed to give one, be it that the request failed, that it answered with an error other than 404, or
  that its answer cannot be read. In every other case facts are built, with the tiers and the answers
  given, and where core-service did answer the cell is the one the profile it gave selects, a 404 being
  a person without promo and formation.
\<close>

theorem build_prices_right_or_refuses:
  assumes "u \<noteq> []" and "built = build core tiers (Some u) assoc ans (dimensionsNeedProfile (dimensions m))"
  shows "((\<exists>e. built = Inl e) \<longleftrightarrow> dimensionsNeedProfile (dimensions m) \<and> profileFailed (core u))
    \<and> (\<forall>facts. built = Inr facts \<longrightarrow>
         cotisationTiers facts = (case assoc of Some a \<Rightarrow> if a = [] then [] else tiers u a | None \<Rightarrow> []) \<and> answers facts = ans
         \<and> (\<not> profileFailed (core u) \<longrightarrow>
              cellKeyFor m facts = cellKeyFor m (facts\<lparr>promo := fst (profileGiven (core u)), formation := snd (profileGiven (core u))\<rparr>)))"
proof (cases "dimensionsNeedProfile (dimensions m)")
  case True
  with assms(1) show ?thesis unfolding assms(2)
    by (cases "core u")
      (auto simp: build_def profileFor_def fetchProfile_def response_ok_def profileFailed_def profileGiven_def Let_def
        split: option.split if_splits)
next
  case False
  then have "bucketFor d (facts\<lparr>promo := p, formation := f\<rparr>) = bucketFor d facts"
    if "d \<in> set (dimensions m)" for d facts p f
    using that by (intro bucketFor_without_profile)
      (auto simp: dimensionsNeedProfile_def list_ex_iff)
  then have "cellKeyFor m (facts\<lparr>promo := p, formation := f\<rparr>) = cellKeyFor m facts" for facts p f
    by (auto simp: cellKeyFor_def intro!: arg_cong [where f = cellKey])
  with False assms(1) show ?thesis unfolding assms(2)
    by (auto simp: build_def profileFor_def Let_def split: option.split)
qed

theorem build_prices_right_or_refuses_witness:
  "(\<exists>e. build (\<lambda>_. FetchFailed) (\<lambda>_ _. [None]) (Some ''u'') (Some ''assoc'') Map.empty
     (dimensionsNeedProfile [DPromo ''p'' [promo_1A]]) = Inl e) \<and> dimensionsNeedProfile [DPromo ''p'' [promo_1A]]"
proof -
  have need: "dimensionsNeedProfile [DPromo ''p'' [promo_1A]]" by (simp add: dimensionsNeedProfile_def)
  have "''u'' \<noteq> ([] :: string)" by simp
  from build_prices_right_or_refuses [OF this refl, where core = "\<lambda>_. FetchFailed"
      and tiers = "\<lambda>_ _. [None]" and assoc = "Some ''assoc''" and ans = Map.empty
      and m = "\<lparr>dimensions = [DPromo ''p'' [promo_1A]], cells = []\<rparr>"] need
  show ?thesis by (simp add: profileFailed_def)
qed

end
