(* ===== verification/Auth_Sessions.thy ===== *)
theory Auth_Sessions
  imports Prelude
begin

text \<open>
  The session store behind the refresh cookie of the core service
  (\<open>auth/auth-sessions.service.ts\<close>, \<open>auth/entities/auth-session.entity.ts\<close>).

  The table is the list of its rows. Instants are milliseconds. The identifiers \<open>randomUUID\<close>
  draws are arguments. Each operation returns its answer and the table it leaves. \<open>rotate\<close> is
  three database statements (a conditional UPDATE, a SELECT, a DELETE); they are separate
  definitions, composed by \<open>rotate_session\<close> for a request that runs alone, and interleaved freely by the
  step relation \<open>refresh_step\<close> for requests that run at the same time.
\<close>

section \<open>Model\<close>

record auth_session =
  sid :: string
  userId :: string
  tokenId :: string
  previousTokenId :: "string option"
  rotatedAt :: "int option"
  createdAt :: int
  lastUsedAt :: int
  expiresAt :: int
  userAgent :: "string option"
  deviceId :: "string option"
  lastIp :: "string option"

definition SESSION_TTL_SECONDS :: int where
  "SESSION_TTL_SECONDS = 7 * 24 * 60 * 60"

definition ROTATION_GRACE_SECONDS :: int where
  "ROTATION_GRACE_SECONDS = 60"

definition MAX_DEVICE_ID_LENGTH :: nat where
  "MAX_DEVICE_ID_LENGTH = 128"

record session_client_info =
  ciUserAgent :: "string option"
  ciIp :: "string option"

datatype rotate_result =
    Rotated string int
  | Reissued string int
  | Replayed
  | Unknown

record session_summary =
  sumId :: string
  sumCreatedAt :: int
  sumLastUsedAt :: int
  sumExpiresAt :: int
  sumUserAgent :: "string option"
  sumLastIp :: "string option"
  sumDeviceId :: "string option"

definition expiryFrom :: "int \<Rightarrow> int" where
  "expiryFrom start = start + SESSION_TTL_SECONDS * 1000"

definition truncateUserAgent :: "string option \<Rightarrow> string option" where
  "truncateUserAgent v =
     (case v of None \<Rightarrow> None
      | Some s \<Rightarrow> if trim s = [] then None else Some (take 255 (trim s)))"

definition create_session ::
  "int \<Rightarrow> string \<Rightarrow> string \<Rightarrow> string \<Rightarrow> session_client_info \<Rightarrow> auth_session list
     \<Rightarrow> (string \<times> string \<times> int) \<times> auth_session list" where
  "create_session now newId newToken user client rows =
     ((newId, newToken, expiryFrom now),
      rows @ [\<lparr>sid = newId, userId = user, tokenId = newToken, previousTokenId = None,
               rotatedAt = None, createdAt = now, lastUsedAt = now, expiresAt = expiryFrom now,
               userAgent = truncateUserAgent (ciUserAgent client), deviceId = None,
               lastIp = ciIp client\<rparr>])"

definition rotatable :: "int \<Rightarrow> string \<Rightarrow> string \<Rightarrow> auth_session \<Rightarrow> bool" where
  "rotatable now sessionId presented r \<longleftrightarrow>
     sid r = sessionId \<and> tokenId r = presented \<and> expiresAt r > now"

definition rotated_row ::
  "int \<Rightarrow> string \<Rightarrow> string \<Rightarrow> session_client_info \<Rightarrow> auth_session \<Rightarrow> auth_session" where
  "rotated_row now nextToken presented client r =
     r\<lparr>tokenId := nextToken, previousTokenId := Some presented, rotatedAt := Some now,
       lastUsedAt := now, expiresAt := expiryFrom now,
       userAgent := truncateUserAgent (ciUserAgent client), lastIp := ciIp client\<rparr>"

text \<open>The conditional UPDATE, with the number of rows it affected.\<close>

definition rotate_update ::
  "int \<Rightarrow> string \<Rightarrow> string \<Rightarrow> string \<Rightarrow> session_client_info \<Rightarrow> auth_session list
     \<Rightarrow> nat \<times> auth_session list" where
  "rotate_update now nextToken sessionId presented client rows =
     (length (filter (rotatable now sessionId presented) rows),
      update_where (rotatable now sessionId presented) (rotated_row now nextToken presented client) rows)"

text \<open>The classification of the row read after a failed UPDATE.\<close>

definition rotate_classify :: "int \<Rightarrow> string \<Rightarrow> auth_session option \<Rightarrow> rotate_result" where
  "rotate_classify now presented row =
     (case row of
        None \<Rightarrow> Unknown
      | Some r \<Rightarrow>
          if expiresAt r \<le> now then Unknown
          else if previousTokenId r = Some presented
                  \<and> (case rotatedAt r of None \<Rightarrow> False
                     | Some t \<Rightarrow> now - t \<le> ROTATION_GRACE_SECONDS * 1000)
               then Reissued (tokenId r) (expiresAt r)
          else Replayed)"

definition revoke :: "string \<Rightarrow> auth_session list \<Rightarrow> auth_session list" where
  "revoke sessionId rows = delete_where (\<lambda>r. sid r = sessionId) rows"

definition rotate_session ::
  "int \<Rightarrow> string \<Rightarrow> string \<Rightarrow> string \<Rightarrow> session_client_info \<Rightarrow> auth_session list
     \<Rightarrow> rotate_result \<times> auth_session list" where
  "rotate_session now nextToken sessionId presented client rows =
     (let (affected, rows1) = rotate_update now nextToken sessionId presented client rows in
      if affected = 1 then (Rotated nextToken (expiryFrom now), rows1)
      else (case rotate_classify now presented (find (\<lambda>r. sid r = sessionId) rows1) of
              Replayed \<Rightarrow> (Replayed, revoke sessionId rows1)
            | res \<Rightarrow> (res, rows1)))"

definition revokeOwned :: "string \<Rightarrow> string \<Rightarrow> auth_session list \<Rightarrow> bool \<times> auth_session list" where
  "revokeOwned user sessionId rows =
     (list_ex (\<lambda>r. sid r = sessionId \<and> userId r = user) rows,
      delete_where (\<lambda>r. sid r = sessionId \<and> userId r = user) rows)"

definition bindDevice ::
  "string \<Rightarrow> string \<Rightarrow> string \<Rightarrow> auth_session list \<Rightarrow> bool \<times> auth_session list" where
  "bindDevice user sessionId device rows =
     (let trimmed = trim device in
      if trimmed = [] \<or> length trimmed > MAX_DEVICE_ID_LENGTH then (False, rows)
      else
        let found = filter (\<lambda>r. sid r = sessionId \<and> userId r = user
                              \<or> userId r = user \<and> deviceId r = Some trimmed) rows
        in case find (\<lambda>r. sid r = sessionId) found of
             None \<Rightarrow> (False, rows)
           | Some own \<Rightarrow>
               let strays = map sid (filter (\<lambda>r. sid r \<noteq> sessionId) found);
                   rows1 = (if strays = [] then rows else delete_where (\<lambda>r. sid r \<in> set strays) rows);
                   rows2 = (if deviceId own = Some trimmed then rows1
                            else update_where (\<lambda>r. sid r = sessionId \<and> userId r = user)
                                   (\<lambda>r. r\<lparr>deviceId := Some trimmed\<rparr>) rows1)
               in (True, rows2))"

definition revokeOthers :: "string \<Rightarrow> string option \<Rightarrow> auth_session list \<Rightarrow> nat \<times> auth_session list" where
  "revokeOthers user keep rows =
     (let p = (\<lambda>r. userId r = user
                 \<and> (case keep of None \<Rightarrow> True | Some k \<Rightarrow> k = [] \<or> sid r \<noteq> k))
      in (length (filter p rows), delete_where p rows))"

definition summary_of :: "auth_session \<Rightarrow> session_summary" where
  "summary_of r = \<lparr>sumId = sid r, sumCreatedAt = createdAt r, sumLastUsedAt = lastUsedAt r,
     sumExpiresAt = expiresAt r, sumUserAgent = userAgent r, sumLastIp = lastIp r,
     sumDeviceId = deviceId r\<rparr>"

definition listForUser :: "int \<Rightarrow> string \<Rightarrow> auth_session list \<Rightarrow> session_summary list" where
  "listForUser now user rows =
     map summary_of (filter (\<lambda>r. expiresAt r > now)
       (sort_key (\<lambda>r. - lastUsedAt r) (filter (\<lambda>r. userId r = user) rows)))"

definition deleteExpired :: "int \<Rightarrow> auth_session list \<Rightarrow> nat \<times> auth_session list" where
  "deleteExpired now rows =
     (length (filter (\<lambda>r. expiresAt r < now) rows), delete_where (\<lambda>r. expiresAt r < now) rows)"

section \<open>The table invariant\<close>

text \<open>
  Session ids are the primary key, and at most one session of a user names a given device.
\<close>

definition sessions_inv :: "auth_session list \<Rightarrow> bool" where
  "sessions_inv rows \<longleftrightarrow> distinct (map sid rows)
     \<and> (\<forall>r1 \<in> set rows. \<forall>r2 \<in> set rows.
          userId r1 = userId r2 \<and> deviceId r1 \<noteq> None \<and> deviceId r1 = deviceId r2 \<longrightarrow> sid r1 = sid r2)"

interpretation rotation: unique_index sid "rotated_row now nextToken presented client"
  for now nextToken presented client
  by unfold_locales (simp add: rotated_row_def)

interpretation binding: unique_index sid "\<lambda>r. r\<lparr>deviceId := d\<rparr>" for d
  by unfold_locales simp

lemma rotated_row_sel [simp]:
  "sid (rotated_row now nt p c r) = sid r"
  "userId (rotated_row now nt p c r) = userId r"
  "deviceId (rotated_row now nt p c r) = deviceId r"
  "tokenId (rotated_row now nt p c r) = nt"
  "previousTokenId (rotated_row now nt p c r) = Some p"
  "rotatedAt (rotated_row now nt p c r) = Some now"
  "expiresAt (rotated_row now nt p c r) = expiryFrom now"
  by (simp_all add: rotated_row_def)

lemma sessions_invD:
  assumes "sessions_inv rows" and "r1 \<in> set rows" and "r2 \<in> set rows" and "userId r1 = userId r2"
    and "deviceId r1 \<noteq> None" and "deviceId r1 = deviceId r2"
  shows "sid r1 = sid r2"
  using assms unfolding sessions_inv_def by blast

text \<open>A table whose rows all stem from rows of another one, claiming no new device.\<close>

lemma inv_shrink:
  assumes inv: "sessions_inv rows" and dist: "distinct (map sid rows')"
    and origin: "\<And>r. r \<in> set rows' \<Longrightarrow>
      \<exists>q \<in> set rows. sid r = sid q \<and> userId r = userId q \<and> deviceId r = deviceId q"
  shows "sessions_inv rows'"
  unfolding sessions_inv_def
proof (intro conjI ballI impI)
  fix r1 r2
  assume r: "r1 \<in> set rows'" "r2 \<in> set rows'"
    and eq: "userId r1 = userId r2 \<and> deviceId r1 \<noteq> None \<and> deviceId r1 = deviceId r2"
  from origin r obtain q1 q2 where
    q: "q1 \<in> set rows" "sid r1 = sid q1" "userId r1 = userId q1" "deviceId r1 = deviceId q1"
      "q2 \<in> set rows" "sid r2 = sid q2" "userId r2 = userId q2" "deviceId r2 = deviceId q2"
    by metis
  from eq q have "sid q1 = sid q2" by (metis sessions_invD [OF inv])
  with q show "sid r1 = sid r2" by simp
qed (rule dist)

lemma inv_delete: "sessions_inv rows \<Longrightarrow> sessions_inv (delete_where p rows)"
  by (rule inv_shrink)
    (auto simp: sessions_inv_def binding.distinct_delete_where set_delete_where)

lemma inv_rotate_update:
  assumes "sessions_inv rows"
  shows "sessions_inv (snd (rotate_update now nt s p c rows))"
  using assms
proof (rule inv_shrink)
  show "distinct (map sid (snd (rotate_update now nt s p c rows)))"
    using assms by (simp add: sessions_inv_def rotate_update_def rotation.keys_update_where)
qed (auto simp: rotate_update_def set_update_where)

lemma inv_rotate: "sessions_inv rows \<Longrightarrow> sessions_inv (snd (rotate_session now nt s p c rows))"
  using inv_rotate_update [of rows now nt s p c]
  by (cases "rotate_update now nt s p c rows")
    (simp add: rotate_session_def revoke_def inv_delete split: rotate_result.split)

lemma inv_create:
  assumes "sessions_inv rows" and "newId \<notin> sid ` set rows"
  shows "sessions_inv (snd (create_session now newId newToken user client rows))"
  unfolding sessions_inv_def
proof (intro conjI ballI impI)
  show "distinct (map sid (snd (create_session now newId newToken user client rows)))"
    using assms by (simp add: create_session_def sessions_inv_def)
  fix r1 r2
  assume "r1 \<in> set (snd (create_session now newId newToken user client rows))"
    and "r2 \<in> set (snd (create_session now newId newToken user client rows))"
    and eq: "userId r1 = userId r2 \<and> deviceId r1 \<noteq> None \<and> deviceId r1 = deviceId r2"
  then have "r1 \<in> set rows" and "r2 \<in> set rows" by (auto simp: create_session_def)
  with eq show "sid r1 = sid r2" by (metis sessions_invD [OF assms(1)])
qed

text \<open>What a successful binding does to the table.\<close>

lemma row_of_sid: "distinct (map sid rows) \<Longrightarrow> r \<in> set rows \<Longrightarrow> q \<in> set rows \<Longrightarrow> sid r = sid q \<Longrightarrow> r = q"
  by (auto simp: distinct_map inj_on_def)

lemma bindDevice_True:
  assumes "distinct (map sid rows)" and "bindDevice user s device rows = (True, rows')"
  obtains own where "own \<in> set rows" and "sid own = s" and "userId own = user"
    and "rows' = update_where (\<lambda>r. sid r = s) (\<lambda>r. r\<lparr>deviceId := Some (trim device)\<rparr>)
          (delete_where (\<lambda>r. userId r = user \<and> deviceId r = Some (trim device) \<and> sid r \<noteq> s) rows)"
proof -
  let ?d = "trim device"
  let ?found = "filter (\<lambda>r. sid r = s \<and> userId r = user \<or> userId r = user \<and> deviceId r = Some ?d) rows"
  let ?strays = "map sid (filter (\<lambda>r. sid r \<noteq> s) ?found)"
  let ?rows1 = "if ?strays = [] then rows else delete_where (\<lambda>r. sid r \<in> set ?strays) rows"
  from assms(2) obtain own where own: "find (\<lambda>r. sid r = s) ?found = Some own"
    and rows': "rows' = (if deviceId own = Some ?d then ?rows1
        else update_where (\<lambda>r. sid r = s \<and> userId r = user) (\<lambda>r. r\<lparr>deviceId := Some ?d\<rparr>) ?rows1)"
    by (auto simp: bindDevice_def Let_def split: if_splits option.splits)
  from find_Some_iff_mem [OF own] have mem: "own \<in> set rows" "sid own = s" "userId own = user" by auto
  have stray: "sid r \<in> set ?strays \<longleftrightarrow> userId r = user \<and> deviceId r = Some ?d \<and> sid r \<noteq> s"
    if "r \<in> set rows" for r
    using that row_of_sid [OF assms(1)] by auto
  have rows1: "?rows1 = delete_where (\<lambda>r. userId r = user \<and> deviceId r = Some ?d \<and> sid r \<noteq> s) rows"
  proof (cases "?strays = []")
    case True
    then have "\<not> (userId r = user \<and> deviceId r = Some ?d \<and> sid r \<noteq> s)" if "r \<in> set rows" for r
      using stray [OF that] by (metis empty_iff list.set(1))
    with True show ?thesis by (auto simp: delete_where_def intro!: filter_True [symmetric])
  next
    case False
    with stray show ?thesis by (simp add: delete_where_def cong: filter_cong)
  qed
  have own_iff: "sid r = s \<longleftrightarrow> r = own" if "r \<in> set rows" for r
    using that mem row_of_sid [OF assms(1)] by blast
  have "rows' = update_where (\<lambda>r. sid r = s) (\<lambda>r. r\<lparr>deviceId := Some ?d\<rparr>) ?rows1"
    unfolding rows' rows1
    using mem own_iff by (auto simp: update_where_def delete_where_def intro!: map_idI [symmetric])
  with rows1 mem that show thesis by simp
qed

lemma inv_bindDevice:
  assumes "sessions_inv rows"
  shows "sessions_inv (snd (bindDevice user s device rows))"
proof (cases "fst (bindDevice user s device rows)")
  case False
  then have "snd (bindDevice user s device rows) = rows"
    by (auto simp: bindDevice_def Let_def split: if_splits option.splits)
  with assms show ?thesis by simp
next
  case True
  then obtain rows' where b: "bindDevice user s device rows = (True, rows')" by (metis prod.collapse)
  have d: "distinct (map sid rows)" using assms by (simp add: sessions_inv_def)
  from bindDevice_True [OF d b] obtain own where own: "own \<in> set rows" "sid own = s" "userId own = user"
    and rows': "rows' = update_where (\<lambda>r. sid r = s) (\<lambda>r. r\<lparr>deviceId := Some (trim device)\<rparr>)
          (delete_where (\<lambda>r. userId r = user \<and> deviceId r = Some (trim device) \<and> sid r \<noteq> s) rows)"
    by blast
  have user: "userId r = user" if "r \<in> set rows" and "sid r = s" for r
    using own that row_of_sid [OF d] by blast
  have origin: "\<exists>q \<in> set rows. sid r = sid q \<and> userId r = userId q
      \<and> deviceId r = (if sid q = s then Some (trim device) else deviceId q)
      \<and> \<not> (userId q = user \<and> deviceId q = Some (trim device) \<and> sid q \<noteq> s)"
    if "r \<in> set rows'" for r
    using that by (auto simp: rows' set_update_where set_delete_where)
  have "sid r1 = sid r2"
    if r1: "r1 \<in> set rows'" and r2: "r2 \<in> set rows'"
      and eq: "userId r1 = userId r2" "deviceId r1 \<noteq> None" "deviceId r1 = deviceId r2" for r1 r2
  proof -
    from origin [OF r1] obtain q1 where q1: "q1 \<in> set rows" "sid r1 = sid q1" "userId r1 = userId q1"
      "deviceId r1 = (if sid q1 = s then Some (trim device) else deviceId q1)"
      "\<not> (userId q1 = user \<and> deviceId q1 = Some (trim device) \<and> sid q1 \<noteq> s)" by blast
    from origin [OF r2] obtain q2 where q2: "q2 \<in> set rows" "sid r2 = sid q2" "userId r2 = userId q2"
      "deviceId r2 = (if sid q2 = s then Some (trim device) else deviceId q2)"
      "\<not> (userId q2 = user \<and> deviceId q2 = Some (trim device) \<and> sid q2 \<noteq> s)" by blast
    show ?thesis
    proof (cases "sid q1 = s \<or> sid q2 = s")
      case True
      then show ?thesis using q1 q2 eq user [OF q1(1)] user [OF q2(1)] by (auto split: if_splits)
    next
      case False
      then have "sid q1 = sid q2" using q1 q2 eq by (intro sessions_invD [OF assms]) auto
      then show ?thesis using q1 q2 by simp
    qed
  qed
  moreover have "distinct (map sid rows')"
    using d by (simp add: rows' binding.keys_update_where binding.distinct_delete_where)
  ultimately show ?thesis unfolding b snd_conv sessions_inv_def by blast
qed

section \<open>Every branch of a rotation\<close>

definition in_grace :: "int \<Rightarrow> string \<Rightarrow> auth_session \<Rightarrow> bool" where
  "in_grace now presented r \<longleftrightarrow> previousTokenId r = Some presented
     \<and> (case rotatedAt r of None \<Rightarrow> False | Some t \<Rightarrow> now - t \<le> ROTATION_GRACE_SECONDS * 1000)"

lemma rotate_update_none:
  assumes "\<And>r. r \<in> set rows \<Longrightarrow> \<not> rotatable now s p r"
  shows "rotate_update now nt s p c rows = (0, rows)"
proof -
  have "filter (rotatable now s p) rows = []" using assms by (simp add: filter_empty_conv)
  moreover have "update_where (rotatable now s p) (rotated_row now nt p c) rows = rows"
    unfolding update_where_def using assms by (intro map_idI) auto
  ultimately show ?thesis by (simp add: rotate_update_def)
qed

lemma rotate_update_one:
  assumes "distinct (map sid rows)" and "r \<in> set rows" and "rotatable now s p r"
  shows "rotate_update now nt s p c rows
    = (1, update_where (\<lambda>x. sid x = s) (rotated_row now nt p c) rows)"
proof -
  have iff: "rotatable now s p x \<longleftrightarrow> x = r" "sid x = s \<longleftrightarrow> x = r" if "x \<in> set rows" for x
    using that assms row_of_sid [OF assms(1)] by (auto simp: rotatable_def)
  then have "filter (rotatable now s p) rows = filter (\<lambda>x. x = r) rows"
    by (simp cong: filter_cong)
  moreover have "length (filter (\<lambda>x. x = r) rows) = 1"
    using assms(1,2) by (induction rows) (auto simp: filter_empty_conv)
  ultimately show ?thesis using iff by (simp add: rotate_update_def update_where_def)
qed

lemma find_sid: "distinct (map sid rows) \<Longrightarrow> r \<in> set rows \<Longrightarrow> find (\<lambda>x. sid x = sid r) rows = Some r"
  by (rule binding.find_by_key)

lemma rotate_branches_lemma:
  assumes d: "distinct (map sid rows)"
  shows "rotate_session now nt s p c rows =
    (case find (\<lambda>r. sid r = s) rows of
       None \<Rightarrow> (Unknown, rows)
     | Some r \<Rightarrow>
         if expiresAt r \<le> now then (Unknown, rows)
         else if tokenId r = p
           then (Rotated nt (expiryFrom now), update_where (\<lambda>x. sid x = s) (rotated_row now nt p c) rows)
         else if in_grace now p r then (Reissued (tokenId r) (expiresAt r), rows)
         else (Replayed, revoke s rows))"
proof (cases "find (\<lambda>r. sid r = s) rows")
  case None
  then have "\<And>r. r \<in> set rows \<Longrightarrow> \<not> rotatable now s p r"
    by (auto simp: find_None_iff rotatable_def)
  from rotate_update_none [OF this] None show ?thesis
    by (simp add: rotate_session_def rotate_classify_def)
next
  case (Some r)
  from find_Some_iff_mem [OF Some] have r: "r \<in> set rows" "sid r = s" by simp_all
  show ?thesis
  proof (cases "rotatable now s p r")
    case True
    from rotate_update_one [OF d r(1) True] Some True show ?thesis
      by (simp add: rotate_session_def rotatable_def)
  next
    case False
    then have "\<not> rotatable now s p x" if "x \<in> set rows" for x
      using that r row_of_sid [OF d] by (auto simp: rotatable_def)
    from rotate_update_none [OF this] Some False r show ?thesis
      by (auto simp: rotate_session_def rotate_classify_def rotatable_def in_grace_def)
  qed
qed

lemma find_revoked: "find (\<lambda>r. sid r = s) (revoke s rows) = None"
  by (auto simp: revoke_def delete_where_def find_None_iff)

lemma find_rotated:
  assumes "find (\<lambda>r. sid r = s) rows = Some r" and "\<And>x. sid (f x) = sid x"
  shows "find (\<lambda>x. sid x = s) (update_where (\<lambda>x. sid x = s) f rows) = Some (f r)"
  using assms by (induction rows) (auto simp: update_where_def split: if_splits)

section \<open>Honest clients and thieves\<close>

text \<open>
  A client that always presents the token it was last given: the answers to a sequence of refreshes,
  each with its instant, the identifier drawn for it and the client facts.
\<close>

fun refresh_all ::
  "string \<Rightarrow> string \<Rightarrow> (int \<times> string \<times> session_client_info) list \<Rightarrow> auth_session list
     \<Rightarrow> rotate_result list \<times> auth_session list" where
  "refresh_all s token [] rows = ([], rows)"
| "refresh_all s token ((now, nt, c) # reqs) rows =
     (let (res, rows1) = rotate_session now nt s token c rows;
          (ress, rows2) = refresh_all s nt reqs rows1
      in (res # ress, rows2))"

fun timely :: "int \<Rightarrow> (int \<times> string \<times> session_client_info) list \<Rightarrow> bool" where
  "timely deadline [] = True"
| "timely deadline ((now, nt, c) # reqs) = (now < deadline \<and> timely (expiryFrom now) reqs)"

lemma refresh_all_rotates:
  "distinct (map sid rows) \<Longrightarrow> find (\<lambda>r. sid r = s) rows = Some r \<Longrightarrow> tokenId r = token \<Longrightarrow>
   timely (expiresAt r) reqs \<Longrightarrow>
   fst (refresh_all s token reqs rows) = map (\<lambda>(now, nt, _). Rotated nt (expiryFrom now)) reqs"
proof (induction reqs arbitrary: token rows r)
  case Nil
  then show ?case by simp
next
  case (Cons q reqs)
  obtain now nt c where q: "q = (now, nt, c)" by (cases q)
  let ?rows = "update_where (\<lambda>x. sid x = s) (rotated_row now nt token c) rows"
  have "rotate_session now nt s token c rows = (Rotated nt (expiryFrom now), ?rows)"
    using Cons.prems q by (simp add: rotate_branches_lemma)
  moreover have "fst (refresh_all s nt reqs ?rows) = map (\<lambda>(now, nt, _). Rotated nt (expiryFrom now)) reqs"
  proof (rule Cons.IH)
    show "distinct (map sid ?rows)" using Cons.prems(1) by (simp add: rotation.keys_update_where)
    show "find (\<lambda>r. sid r = s) ?rows = Some (rotated_row now nt token c r)"
      by (rule find_rotated [OF Cons.prems(2)]) simp
    show "timely (expiresAt (rotated_row now nt token c r)) reqs" using Cons.prems q by simp
  qed simp
  ultimately show ?case by (cases "refresh_all s nt reqs ?rows") (simp add: q)
qed

section \<open>Properties\<close>

definition demo_client :: session_client_info where
  "demo_client = \<lparr>ciUserAgent = Some '' Firefox '', ciIp = None\<rparr>"

definition demo_sessions :: "auth_session list" where
  "demo_sessions = snd (create_session 0 ''s'' ''t0'' ''alice'' demo_client [])"



text \<open>
  C22: A stolen cookie is useless once its owner has moved on. A token that is neither the current
  one nor the previous one within the grace window destroys the session it is presented to, and from
  then on no token at all refreshes that session; within the grace window the same table is left and
  the current token is handed back.
\<close>

theorem replay_destroys_session:
  assumes "distinct (map sid rows)" and "r \<in> set rows" and "expiresAt r > now" and "tokenId r \<noteq> p"
  shows "if in_grace now p r
     then rotate_session now nt (sid r) p c rows = (Reissued (tokenId r) (expiresAt r), rows)
     else \<exists>rows'. rotate_session now nt (sid r) p c rows = (Replayed, rows')
        \<and> set rows' = {x \<in> set rows. sid x \<noteq> sid r}
        \<and> (\<forall>now' nt' p' c'. rotate_session now' nt' (sid r) p' c' rows' = (Unknown, rows'))"
proof (cases "in_grace now p r")
  case True
  with assms show ?thesis by (simp add: rotate_branches_lemma find_sid)
next
  case False
  let ?rows' = "revoke (sid r) rows"
  have "rotate_session now nt (sid r) p c rows = (Replayed, ?rows')"
    using assms False by (simp add: rotate_branches_lemma find_sid)
  moreover have "distinct (map sid ?rows')"
    using assms(1) by (simp add: revoke_def binding.distinct_delete_where)
  then have "rotate_session now' nt' (sid r) p' c' ?rows' = (Unknown, ?rows')" for now' nt' p' c'
    by (simp add: rotate_branches_lemma find_revoked)
  ultimately show ?thesis using False by (auto simp: revoke_def set_delete_where)
qed

theorem replay_destroys_session_witness:
  "\<exists>rows'. rotate_session 99 ''x'' ''s'' ''stolen'' demo_client demo_sessions = (Replayed, rows')
     \<and> rotate_session 99 ''x'' ''s'' ''t0'' demo_client rows' = (Unknown, rows')"
proof -
  let ?r = "hd demo_sessions"
  have r: "distinct (map sid demo_sessions)" "?r \<in> set demo_sessions" "expiresAt ?r > 99"
    "tokenId ?r \<noteq> ''stolen''" and s: "sid ?r = ''s''" and g: "\<not> in_grace 99 ''stolen'' ?r"
    by (simp_all add: demo_sessions_def create_session_def in_grace_def expiryFrom_def
        SESSION_TTL_SECONDS_def)
  from replay_destroys_session [OF r, of "''x''" demo_client, unfolded s] g obtain rows' where
    "rotate_session 99 ''x'' ''s'' ''stolen'' demo_client demo_sessions = (Replayed, rows')"
    and "\<forall>now' nt' p' c'. rotate_session now' nt' ''s'' p' c' rows' = (Unknown, rows')"
    by (simp only: if_False) blast
  then show ?thesis by blast
qed

text \<open>
  After a successful \<open>bindDevice\<close> the session named is the only session of the user that
  names the device, and the sessions of every other user are what they were.
\<close>

theorem bindDevice_exclusive:
  assumes "distinct (map sid rows)" and "bindDevice user s device rows = (True, rows')"
  shows "(\<exists>r. {x \<in> set rows'. userId x = user \<and> deviceId x = Some (trim device)} = {r} \<and> sid r = s)
     \<and> {x \<in> set rows'. userId x \<noteq> user} = {x \<in> set rows. userId x \<noteq> user}"
proof -
  from bindDevice_True [OF assms] obtain own where own: "own \<in> set rows" "sid own = s" "userId own = user"
    and rows': "rows' = update_where (\<lambda>r. sid r = s) (\<lambda>r. r\<lparr>deviceId := Some (trim device)\<rparr>)
          (delete_where (\<lambda>r. userId r = user \<and> deviceId r = Some (trim device) \<and> sid r \<noteq> s) rows)"
    by blast
  have own_iff: "sid r = s \<longleftrightarrow> r = own" if "r \<in> set rows" for r
    using that own row_of_sid [OF assms(1)] by blast
  have "{x \<in> set rows'. userId x = user \<and> deviceId x = Some (trim device)}
      = {own\<lparr>deviceId := Some (trim device)\<rparr>}"
    using own own_iff by (auto simp: rows' set_update_where set_delete_where)
  moreover have "{x \<in> set rows'. userId x \<noteq> user} = {x \<in> set rows. userId x \<noteq> user}"
    using own own_iff by (auto simp: rows' set_update_where set_delete_where)
  ultimately show ?thesis using own(2) by auto
qed

theorem bindDevice_exclusive_witness:
  "\<exists>rows'. bindDevice ''alice'' ''s'' '' phone '' demo_sessions = (True, rows')
     \<and> (\<exists>r. {x \<in> set rows'. userId x = ''alice'' \<and> deviceId x = Some ''phone''} = {r} \<and> sid r = ''s'')"
proof -
  have t: "trim '' phone '' = ''phone''" by (simp add: trim_def js_ws_def)
  have "\<exists>rows'. bindDevice ''alice'' ''s'' '' phone '' demo_sessions = (True, rows')"
    by (simp add: bindDevice_def t demo_sessions_def create_session_def MAX_DEVICE_ID_LENGTH_def Let_def)
  then obtain rows' where b: "bindDevice ''alice'' ''s'' '' phone '' demo_sessions = (True, rows')" ..
  have "distinct (map sid demo_sessions)" by (simp add: demo_sessions_def create_session_def)
  from bindDevice_exclusive [OF this b, unfolded t] b show ?thesis by blast
qed

section \<open>All operations together\<close>

text \<open>The tables the service can reach, every operation in any order, created ids being fresh.\<close>

inductive sessions_reachable :: "auth_session list \<Rightarrow> bool" where
  start: "sessions_reachable []"
| create: "sessions_reachable rows \<Longrightarrow> newId \<notin> sid ` set rows \<Longrightarrow>
    sessions_reachable (snd (create_session now newId newToken user client rows))"
| rotate: "sessions_reachable rows \<Longrightarrow> sessions_reachable (snd (rotate_session now nt s p c rows))"
| revoke: "sessions_reachable rows \<Longrightarrow> sessions_reachable (revoke s rows)"
| revokeOwned: "sessions_reachable rows \<Longrightarrow> sessions_reachable (snd (revokeOwned user s rows))"
| bindDevice: "sessions_reachable rows \<Longrightarrow> sessions_reachable (snd (bindDevice user s device rows))"
| revokeOthers: "sessions_reachable rows \<Longrightarrow> sessions_reachable (snd (revokeOthers user keep rows))"
| deleteExpired: "sessions_reachable rows \<Longrightarrow> sessions_reachable (snd (deleteExpired now rows))"

lemma sessions_reachable_inv: "sessions_reachable rows \<Longrightarrow> sessions_inv rows"
  by (induction rule: sessions_reachable.induct)
    (simp_all add: inv_create inv_rotate inv_bindDevice inv_delete revoke_def revokeOwned_def
      revokeOthers_def deleteExpired_def Let_def, simp add: sessions_inv_def)



section \<open>Concurrent refreshes\<close>

text \<open>
  Refresh requests in flight at the same time. A request stands before its UPDATE, before its
  SELECT, before its DELETE, or has its answer; each statement is atomic and any request may take
  the next step. Identifiers drawn by \<open>randomUUID\<close> are new: \<open>issued\<close> lists those drawn so far.
  Sessions may be opened, revoked and swept meanwhile.
\<close>

datatype refresh_pc = Updating | Classifying | Deleting | Finished rotate_result

record refresh_req =
  rqNow :: int
  rqNext :: string
  rqSid :: string
  rqPresented :: string
  rqClient :: session_client_info
  rqPc :: refresh_pc

record refresh_world =
  wRows :: "auth_session list"
  wIssued :: "string list"
  wReqs :: "refresh_req list"

definition update_step :: "nat \<Rightarrow> refresh_world \<Rightarrow> refresh_world" where
  "update_step i w =
     (let q = wReqs w ! i;
          (affected, rows1) = rotate_update (rqNow q) (rqNext q) (rqSid q) (rqPresented q) (rqClient q) (wRows w);
          pc = (if affected = 1 then Finished (Rotated (rqNext q) (expiryFrom (rqNow q))) else Classifying)
      in w\<lparr>wRows := rows1, wReqs := (wReqs w)[i := q\<lparr>rqPc := pc\<rparr>]\<rparr>)"

definition classify_step :: "nat \<Rightarrow> refresh_world \<Rightarrow> refresh_world" where
  "classify_step i w =
     (let q = wReqs w ! i;
          pc = (case rotate_classify (rqNow q) (rqPresented q) (find (\<lambda>r. sid r = rqSid q) (wRows w)) of
                  Replayed \<Rightarrow> Deleting | res \<Rightarrow> Finished res)
      in w\<lparr>wReqs := (wReqs w)[i := q\<lparr>rqPc := pc\<rparr>]\<rparr>)"

definition delete_step :: "nat \<Rightarrow> refresh_world \<Rightarrow> refresh_world" where
  "delete_step i w =
     (let q = wReqs w ! i
      in w\<lparr>wRows := revoke (rqSid q) (wRows w), wReqs := (wReqs w)[i := q\<lparr>rqPc := Finished Replayed\<rparr>]\<rparr>)"

inductive refresh_step :: "refresh_world \<Rightarrow> refresh_world \<Rightarrow> bool" where
  login: "newId \<notin> sid ` set (wRows w) \<Longrightarrow> token \<notin> set (wIssued w) \<Longrightarrow>
    refresh_step w (w\<lparr>wRows := snd (create_session now newId token user client (wRows w)),
                      wIssued := token # wIssued w\<rparr>)"
| arrive: "nt \<notin> set (wIssued w) \<Longrightarrow>
    refresh_step w (w\<lparr>wIssued := nt # wIssued w,
      wReqs := wReqs w @ [\<lparr>rqNow = now, rqNext = nt, rqSid = s, rqPresented = p, rqClient = c,
                           rqPc = Updating\<rparr>]\<rparr>)"
| update: "i < length (wReqs w) \<Longrightarrow> rqPc (wReqs w ! i) = Updating \<Longrightarrow> refresh_step w (update_step i w)"
| classify: "i < length (wReqs w) \<Longrightarrow> rqPc (wReqs w ! i) = Classifying \<Longrightarrow> refresh_step w (classify_step i w)"
| delete: "i < length (wReqs w) \<Longrightarrow> rqPc (wReqs w ! i) = Deleting \<Longrightarrow> refresh_step w (delete_step i w)"
| remove: "refresh_step w (w\<lparr>wRows := delete_where pr (wRows w)\<rparr>)"

definition refresh_init :: refresh_world where
  "refresh_init = \<lparr>wRows = [], wIssued = [], wReqs = []\<rparr>"

definition won :: "refresh_req \<Rightarrow> bool" where
  "won q \<longleftrightarrow> (case rqPc q of Finished (Rotated _ _) \<Rightarrow> True | _ \<Rightarrow> False)"

definition pending_tokens :: "refresh_world \<Rightarrow> string list" where
  "pending_tokens w = map rqNext (filter (\<lambda>q. rqPc q = Updating) (wReqs w))"

definition winning_tokens :: "refresh_world \<Rightarrow> string list" where
  "winning_tokens w = map rqPresented (filter won (wReqs w))"

text \<open>
  A token is at any time in at most one place: in a row, or drawn for a request that has not yet
  written it; and the token a winner consumed is in neither.
\<close>

definition tokens_ok :: "string list \<Rightarrow> string list \<Rightarrow> string list \<Rightarrow> string list \<Rightarrow> bool" where
  "tokens_ok live pending issued consumed \<longleftrightarrow>
     distinct (live @ pending) \<and> set (live @ pending) \<subseteq> set issued
     \<and> distinct consumed \<and> set consumed \<subseteq> set issued \<and> set consumed \<inter> set (live @ pending) = {}"

definition token_inv :: "refresh_world \<Rightarrow> bool" where
  "token_inv w \<longleftrightarrow> distinct (map sid (wRows w))
     \<and> tokens_ok (map tokenId (wRows w)) (pending_tokens w) (wIssued w) (winning_tokens w)"

lemma rotate_update_cases:
  assumes "distinct (map sid rows)"
  obtains "rotate_update now nt s p c rows = (0, rows)"
  | as r bs where "rows = as @ r # bs" and "tokenId r = p"
    and "rotate_update now nt s p c rows = (1, as @ rotated_row now nt p c r # bs)"
proof (cases "\<exists>r \<in> set rows. rotatable now s p r")
  case False
  then show thesis using that(1) rotate_update_none by blast
next
  case True
  then obtain r where r: "r \<in> set rows" "rotatable now s p r" by blast
  from split_list [OF r(1)] obtain as bs where rows: "rows = as @ r # bs" by blast
  have "sid r = s" using r(2) by (simp add: rotatable_def)
  with assms have "s \<notin> sid ` set as" and "s \<notin> sid ` set bs" by (auto simp: rows)
  then have "\<forall>x \<in> set as \<union> set bs. sid x \<noteq> s" by blast
  then have "update_where (\<lambda>x. sid x = s) (rotated_row now nt p c) rows = as @ rotated_row now nt p c r # bs"
    using \<open>sid r = s\<close> by (simp add: rows update_where_def map_idI)
  with rotate_update_one [OF assms r] show thesis
    using that(2) [OF rows] r(2) by (simp add: rotatable_def)
qed

lemma distinct_filter_nth:
  assumes "distinct (map f (filter P xs))" and "i < length xs" and "j < length xs" and "i \<noteq> j"
    and "P (xs ! i)" and "P (xs ! j)"
  shows "f (xs ! i) \<noteq> f (xs ! j)"
  using assms
proof (induction xs arbitrary: i j)
  case (Cons x xs)
  then show ?case
    by (cases i; cases j) (auto simp: image_iff split: if_splits dest: nth_mem)
qed simp

lemma nth_split:
  assumes "i < length xs"
  obtains as x bs where "xs = as @ x # bs" and "xs ! i = x" and "\<And>y. xs[i := y] = as @ y # bs"
  using that [of "take i xs" "xs ! i" "drop (Suc i) xs"] assms id_take_nth_drop upd_conv_take_nth_drop
  by metis

lemma tokens_ok_drop: "tokens_ok T (P1 @ n # P2) I W \<Longrightarrow> tokens_ok T (P1 @ P2) I W"
  by (auto simp: tokens_ok_def)

lemma tokens_ok_rotate:
  "tokens_ok (T1 @ p # T2) (P1 @ n # P2) I (W1 @ W2) \<Longrightarrow> tokens_ok (T1 @ n # T2) (P1 @ P2) I (W1 @ p # W2)"
  by (auto simp: tokens_ok_def)

lemma tokens_ok_shrink:
  "tokens_ok T P I W \<Longrightarrow> distinct T' \<Longrightarrow> set T' \<subseteq> set T \<Longrightarrow> tokens_ok T' P I W"
  by (auto simp: tokens_ok_def)

lemma tokens_ok_issue:
  "tokens_ok T P I W \<Longrightarrow> n \<notin> set I \<Longrightarrow> tokens_ok (T @ [n]) P (n # I) W"
  "tokens_ok T P I W \<Longrightarrow> n \<notin> set I \<Longrightarrow> tokens_ok T (P @ [n]) (n # I) W"
  by (auto simp: tokens_ok_def)

lemmas token_defs = token_inv_def pending_tokens_def winning_tokens_def

lemma token_inv_update:
  assumes inv: "token_inv w" and i: "i < length (wReqs w)" and pc: "rqPc (wReqs w ! i) = Updating"
  shows "token_inv (update_step i w)"
proof -
  from nth_split [OF i] obtain as q bs where reqs: "wReqs w = as @ q # bs" and q: "wReqs w ! i = q"
    and upd: "\<And>y. (wReqs w)[i := y] = as @ y # bs" by metis
  have d: "distinct (map sid (wRows w))" using inv by (simp add: token_inv_def)
  let ?pend = "\<lambda>qs. map rqNext (filter (\<lambda>q. rqPc q = Updating) qs)"
  let ?wins = "\<lambda>qs. map rqPresented (filter won qs)"
  have pq: "rqPc q = Updating" using pc q by simp
  have ok: "tokens_ok (map tokenId (wRows w)) (?pend as @ rqNext q # ?pend bs) (wIssued w)
      (?wins as @ ?wins bs)"
    using inv pq by (simp add: token_defs reqs won_def)
  from d show ?thesis
  proof (cases rule: rotate_update_cases [of _ "rqNow q" "rqNext q" "rqSid q" "rqPresented q" "rqClient q"])
    case 1
    with tokens_ok_drop [OF ok] d show ?thesis
      by (simp add: update_step_def token_defs q upd won_def)
  next
    case (2 us r vs)
    have "tokens_ok (map tokenId us @ rqNext q # map tokenId vs) (?pend as @ ?pend bs) (wIssued w)
        (?wins as @ rqPresented q # ?wins bs)"
      using ok 2 by (intro tokens_ok_rotate) simp
    with 2 d show ?thesis
      by (simp add: update_step_def token_defs q upd won_def)
  qed
qed

lemma token_inv_pc:
  assumes "token_inv w" and "i < length (wReqs w)" and "rqPc (wReqs w ! i) \<noteq> Updating"
    and "\<not> won (wReqs w ! i)" and "pc \<noteq> Updating" and "\<And>t e. pc \<noteq> Finished (Rotated t e)"
  shows "token_inv (w\<lparr>wReqs := (wReqs w)[i := (wReqs w ! i)\<lparr>rqPc := pc\<rparr>]\<rparr>)"
proof -
  from nth_split [OF assms(2)] obtain as q bs where reqs: "wReqs w = as @ q # bs"
    and q: "wReqs w ! i = q" and upd: "\<And>y. (wReqs w)[i := y] = as @ y # bs" by metis
  have "\<not> won (q\<lparr>rqPc := pc\<rparr>)"
    using assms(6) by (auto simp: won_def split: refresh_pc.splits rotate_result.splits)
  with assms show ?thesis
    unfolding q upd by (simp add: token_defs reqs)
qed

lemma token_inv_rows:
  assumes "token_inv w"
  shows "token_inv (w\<lparr>wRows := delete_where pr (wRows w)\<rparr>)"
proof -
  have "tokens_ok (map tokenId (delete_where pr (wRows w))) (pending_tokens w) (wIssued w) (winning_tokens w)"
    by (rule tokens_ok_shrink [of "map tokenId (wRows w)"])
      (use assms in \<open>auto simp: token_inv_def tokens_ok_def delete_where_def distinct_map_filter\<close>)
  with assms show ?thesis
    by (simp add: token_defs binding.distinct_delete_where)
qed

lemma rotate_classify_not_Rotated: "rotate_classify now p row \<noteq> Rotated t e"
  by (auto simp: rotate_classify_def split: option.splits)

lemma token_inv_step: "refresh_step w w' \<Longrightarrow> token_inv w \<Longrightarrow> token_inv w'"
proof (induction rule: refresh_step.induct)
  case (login newId w token now user client)
  then show ?case
    using tokens_ok_issue(1) by (simp add: token_defs create_session_def)
next
  case (arrive nt w now s p c)
  then show ?case
    using tokens_ok_issue(2) by (simp add: token_defs won_def)
next
  case (update i w)
  then show ?case by (intro token_inv_update)
next
  case (classify i w)
  then show ?case
    unfolding classify_step_def Let_def using rotate_classify_not_Rotated
    by (intro token_inv_pc) (auto simp: won_def split: rotate_result.splits)
next
  case (delete i w)
  let ?w = "w\<lparr>wRows := revoke (rqSid (wReqs w ! i)) (wRows w)\<rparr>"
  have "token_inv ?w" unfolding revoke_def using delete by (intro token_inv_rows)
  then have "token_inv (?w\<lparr>wReqs := (wReqs ?w)[i := (wReqs ?w ! i)\<lparr>rqPc := Finished Replayed\<rparr>]\<rparr>)"
    using delete by (intro token_inv_pc) (simp_all add: won_def)
  then show ?case by (simp add: delete_step_def Let_def)
next
  case (remove w pr)
  then show ?case by (intro token_inv_rows)
qed

lemma token_inv_reachable: "refresh_step\<^sup>*\<^sup>* refresh_init w \<Longrightarrow> token_inv w"
proof (induction rule: rtranclp_induct)
  case base
  show ?case by (simp add: token_defs refresh_init_def tokens_ok_def)
next
  case (step y z)
  then show ?case by (blast intro: token_inv_step)
qed

text \<open>
  C20: Two refreshes cannot both win. However the statements of any number of concurrent refreshes,
  logins and revocations interleave, at most one request obtains a rotation for a given presented
  token.
\<close>

theorem single_rotation_winner:
  assumes "refresh_step\<^sup>*\<^sup>* refresh_init w" and "i < length (wReqs w)" and "j < length (wReqs w)"
    and "rqPc (wReqs w ! i) = Finished (Rotated t1 e1)" and "rqPc (wReqs w ! j) = Finished (Rotated t2 e2)"
    and "rqPresented (wReqs w ! i) = rqPresented (wReqs w ! j)"
  shows "i = j"
proof (rule ccontr)
  assume "i \<noteq> j"
  have "distinct (map rqPresented (filter won (wReqs w)))"
    using token_inv_reachable [OF assms(1)] by (simp add: token_defs tokens_ok_def)
  moreover have "won (wReqs w ! i)" and "won (wReqs w ! j)" using assms by (simp_all add: won_def)
  ultimately show False
    using assms(2,3,6) \<open>i \<noteq> j\<close> distinct_filter_nth by blast
qed

lemma update_step_reqs:
  "length (wReqs (update_step i w)) = length (wReqs w)"
  "j \<noteq> i \<Longrightarrow> wReqs (update_step i w) ! j = wReqs w ! j"
  "i < length (wReqs w) \<Longrightarrow> rqPresented (wReqs (update_step i w) ! i) = rqPresented (wReqs w ! i)"
  by (simp_all add: update_step_def Let_def split_beta)

definition demo_req :: "string \<Rightarrow> refresh_pc \<Rightarrow> refresh_req" where
  "demo_req nt pc = \<lparr>rqNow = 1000, rqNext = nt, rqSid = ''s'', rqPresented = ''t0'',
     rqClient = demo_client, rqPc = pc\<rparr>"

definition demo_race :: refresh_world where
  "demo_race = update_step 0 \<lparr>wRows = demo_sessions, wIssued = [''t2'', ''t1'', ''t0''],
     wReqs = [demo_req ''t1'' Updating, demo_req ''t2'' Updating]\<rparr>"

lemma refresh_trans: "refresh_step v w \<Longrightarrow> refresh_step\<^sup>*\<^sup>* w z \<Longrightarrow> refresh_step\<^sup>*\<^sup>* v z"
  by (rule converse_rtranclp_into_rtranclp)

lemma demo_race_reachable: "refresh_step\<^sup>*\<^sup>* refresh_init demo_race"
proof -
  let ?w1 = "\<lparr>wRows = demo_sessions, wIssued = [''t0''], wReqs = []\<rparr>"
  let ?w2 = "\<lparr>wRows = demo_sessions, wIssued = [''t1'', ''t0''], wReqs = [demo_req ''t1'' Updating]\<rparr>"
  let ?w3 = "\<lparr>wRows = demo_sessions, wIssued = [''t2'', ''t1'', ''t0''],
     wReqs = [demo_req ''t1'' Updating, demo_req ''t2'' Updating]\<rparr>"
  have 1: "refresh_step refresh_init ?w1"
    using refresh_step.login [of "''s''" refresh_init "''t0''" 0 "''alice''" demo_client]
    by (simp add: refresh_init_def demo_sessions_def)
  have 2: "refresh_step ?w1 ?w2"
    using refresh_step.arrive [of "''t1''" ?w1 1000 "''s''" "''t0''" demo_client]
    by (simp add: demo_req_def)
  have 3: "refresh_step ?w2 ?w3"
    using refresh_step.arrive [of "''t2''" ?w2 1000 "''s''" "''t0''" demo_client]
    by (simp add: demo_req_def)
  have 4: "refresh_step ?w3 demo_race"
    unfolding demo_race_def by (rule refresh_step.update) (simp_all add: demo_req_def)
  show ?thesis
    using 1 2 3 4 by (rule refresh_trans [OF _ refresh_trans [OF _ refresh_trans [OF _ refresh_trans]]]) simp
qed

theorem single_rotation_winner_witness:
  "rqPc (wReqs demo_race ! 0) = Finished (Rotated ''t1'' 604801000)
   \<and> rqPresented (wReqs demo_race ! 1) = rqPresented (wReqs demo_race ! 0)
   \<and> (\<nexists>t e. rqPc (wReqs (update_step 1 demo_race) ! 1) = Finished (Rotated t e))"
proof (intro conjI notI)
  have len: "length (wReqs demo_race) = 2" "length (wReqs (update_step 1 demo_race)) = 2"
    by (simp_all add: demo_race_def update_step_reqs)
  show first: "rqPc (wReqs demo_race ! 0) = Finished (Rotated ''t1'' 604801000)"
    by (simp add: demo_race_def update_step_def Let_def rotate_update_def demo_req_def demo_sessions_def
        create_session_def rotatable_def expiryFrom_def SESSION_TTL_SECONDS_def)
  show same: "rqPresented (wReqs demo_race ! 1) = rqPresented (wReqs demo_race ! 0)"
    by (simp add: demo_race_def update_step_reqs demo_req_def)
  let ?w = "update_step 1 demo_race"
  have pc1: "rqPc (wReqs demo_race ! 1) = Updating"
    by (simp add: demo_race_def update_step_reqs demo_req_def)
  then have "refresh_step demo_race ?w" using len by (intro refresh_step.update) simp_all
  with demo_race_reachable have reach: "refresh_step\<^sup>*\<^sup>* refresh_init ?w" by (rule rtranclp.rtrancl_into_rtrancl)
  have keep: "wReqs ?w ! 0 = wReqs demo_race ! 0" "rqPresented (wReqs ?w ! 1) = rqPresented (wReqs demo_race ! 1)"
    using len by (simp_all add: update_step_reqs)
  assume "\<exists>t e. rqPc (wReqs ?w ! 1) = Finished (Rotated t e)"
  then obtain t e where won: "rqPc (wReqs ?w ! 1) = Finished (Rotated t e)" by blast
  have "(0::nat) = 1"
  proof (rule single_rotation_winner [OF reach])
    show "rqPc (wReqs ?w ! 0) = Finished (Rotated ''t1'' 604801000)" using first keep(1) by metis
    show "rqPc (wReqs ?w ! 1) = Finished (Rotated t e)" by (rule won)
    show "rqPresented (wReqs ?w ! 0) = rqPresented (wReqs ?w ! 1)" using same keep by metis
  qed (use len in simp_all)
  then show False by simp
qed

end
