(* ===== verification/Sanitize.thy ===== *)
theory Sanitize
  imports Json
begin

text \<open>
  Input validation of the delivery service (\<open>utils/sanitize.ts\<close>): the allowlist every identifier
  that reaches a query goes through, and the caller checks. An \<open>unknown\<close> value is a
  \<^typ>\<open>json option\<close>, \<^const>\<open>None\<close> being \<open>undefined\<close>. The HTTP exceptions of the service are
  \<open>http_error\<close>, each with a short tag; the text of the messages is left out.
\<close>

section \<open>Model\<close>

datatype http_error =
    BadRequest string
  | Forbidden string
  | NotFound string
  | Gone string
  | ServerError string

definition alnum :: "char \<Rightarrow> bool" where
  "alnum c \<longleftrightarrow> 97 \<le> code c \<and> code c \<le> 122 \<or> 65 \<le> code c \<and> code c \<le> 90 \<or> 48 \<le> code c \<and> code c \<le> 57"

definition safe_char :: "char \<Rightarrow> bool" where
  "safe_char c \<longleftrightarrow> alnum c \<or> c \<in> set ''_.:@-''"

definition SAFE_QUERY_VALUE_REGEX :: "string \<Rightarrow> bool" where
  "SAFE_QUERY_VALUE_REGEX s \<longleftrightarrow> 1 \<le> length s \<and> length s \<le> 128 \<and> list_all safe_char s"

definition sanitizeQueryValue :: "json option \<Rightarrow> (http_error, string) result" where
  "sanitizeQueryValue v =
     (case v of
        Some (JStr s) \<Rightarrow>
          (let trimmed = trim s in
           if trimmed = [] then Inl (BadRequest ''required'')
           else if \<not> SAFE_QUERY_VALUE_REGEX trimmed then Inl (BadRequest ''invalid characters'')
           else Inr trimmed)
      | _ \<Rightarrow> Inl (BadRequest ''must be a string''))"

text \<open>\<open>value ?? ''\<close> in front of a validator.\<close>

definition orBlank :: "json option \<Rightarrow> json option" where
  "orBlank v = (if v = None \<or> v = Some JNull then Some (JStr []) else v)"

definition UNRESOLVED_IDENTITY_VALUES :: "string list" where
  "UNRESOLVED_IDENTITY_VALUES = [''unknown'', ''pending'']"

definition sanitizeIdentityValue :: "json option \<Rightarrow> (http_error, string) result" where
  "sanitizeIdentityValue v =
     bind_r (sanitizeQueryValue v) (\<lambda>s.
       if s \<in> set UNRESOLVED_IDENTITY_VALUES then Inl (BadRequest ''placeholder'') else Inr s)"

definition sanitizeOptionalQueryValue :: "json option \<Rightarrow> (http_error, string option) result" where
  "sanitizeOptionalQueryValue v =
     (if v = None \<or> v = Some JNull \<or> v = Some (JStr []) then Inr None
      else bind_r (sanitizeQueryValue v) (\<lambda>s. Inr (Some s)))"

definition sanitizeStringIdList :: "json option \<Rightarrow> (http_error, string list) result" where
  "sanitizeStringIdList v =
     (case v of
        Some (JArr xs) \<Rightarrow>
          mapM_r (\<lambda>x. if \<not> isStr x \<or> trim (strOf x) = [] then Inl (BadRequest ''invalid id'')
                       else Inr (trim (strOf x))) xs
      | _ \<Rightarrow> Inl (BadRequest ''must be an array''))"

definition assertCallerOwnsUserId ::
  "json option \<Rightarrow> string option \<Rightarrow> string \<Rightarrow> (http_error, unit) result" where
  "assertCallerOwnsUserId headerUserId headerGlobalAdmin targetUserId =
     (if headerGlobalAdmin = Some ''true'' then Inr ()
      else bind_r (sanitizeOptionalQueryValue headerUserId) (\<lambda>caller.
        case caller of
          None \<Rightarrow> Inr ()
        | Some c \<Rightarrow> if c \<noteq> targetUserId then Inl (Forbidden ''not owner'') else Inr ()))"

definition sanitizeDisplayText :: "json option \<Rightarrow> (http_error, string) result" where
  "sanitizeDisplayText v =
     (case v of
        Some (JStr s) \<Rightarrow>
          (let text = trim s in
           if text = [] then Inl (BadRequest ''required'')
           else if length text > 256 then Inl (BadRequest ''too long'')
           else Inr text)
      | _ \<Rightarrow> Inl (BadRequest ''must be a string''))"

definition sanitizeOptionalDeviceName :: "json option \<Rightarrow> (http_error, string option) result" where
  "sanitizeOptionalDeviceName v =
     (if v = None \<or> v = Some JNull then Inr None
      else bind_r (sanitizeDisplayText v) (\<lambda>n. Inr (Some (take 80 n))))"

definition os_char :: "char \<Rightarrow> bool" where
  "os_char c \<longleftrightarrow> 97 \<le> code c \<and> code c \<le> 122 \<or> 48 \<le> code c \<and> code c \<le> 57 \<or> c \<in> set ''_.-''"

definition sanitizeOptionalDeviceOs :: "json option \<Rightarrow> (http_error, string option) result" where
  "sanitizeOptionalDeviceOs v =
     (if v = None \<or> v = Some JNull \<or> v = Some (JStr []) then Inr None
      else (case v of
        Some (JStr s) \<Rightarrow>
          (let os = toLowerCase (trim s) in
           if os = [] then Inr None
           else if \<not> (length os \<le> 32 \<and> list_all os_char os) then Inl (BadRequest ''invalid characters'')
           else Inr (Some os))
      | _ \<Rightarrow> Inl (BadRequest ''must be a string'')))"

definition version_char :: "char \<Rightarrow> bool" where
  "version_char c \<longleftrightarrow> alnum c \<or> c \<in> set ''._+-''"

definition sanitizeOptionalDeviceAppVersion :: "json option \<Rightarrow> (http_error, string option) result" where
  "sanitizeOptionalDeviceAppVersion v =
     (if v = None \<or> v = Some JNull \<or> v = Some (JStr []) then Inr None
      else (case v of
        Some (JStr s) \<Rightarrow>
          (let version = trim s in
           if version = [] then Inr None
           else if \<not> (length version \<le> 32 \<and> list_all version_char version)
           then Inl (BadRequest ''invalid characters'')
           else Inr (Some version))
      | _ \<Rightarrow> Inl (BadRequest ''must be a string'')))"

definition b64_char :: "char \<Rightarrow> bool" where
  "b64_char c \<longleftrightarrow> alnum c \<or> c \<in> set ''+/''"

text \<open>\<open>/^[A-Za-z0-9+/]*={0,2}$/\<close>\<close>

definition b64_shape :: "string \<Rightarrow> bool" where
  "b64_shape s =
     (let tail = dropWhile b64_char s in tail = [] \<or> tail = ''='' \<or> tail = ''=='')"

definition sanitizeBase64BinaryField :: "json option \<Rightarrow> (http_error, string) result" where
  "sanitizeBase64BinaryField v =
     (case v of
        Some (JStr s) \<Rightarrow>
          if s = [] then Inl (BadRequest ''must be base64'')
          else if length s > 131072 then Inl (BadRequest ''too large'')
          else if \<not> b64_shape s then Inl (BadRequest ''not base64'')
          else Inr s
      | _ \<Rightarrow> Inl (BadRequest ''must be base64''))"

definition sanitizeByteArray :: "json option \<Rightarrow> (http_error, int list) result" where
  "sanitizeByteArray v =
     (case v of
        Some (JArr xs) \<Rightarrow>
          mapM_r (\<lambda>x. if \<not> isInteger x \<or> intOf x < 0 \<or> intOf x > 255
                       then Inl (BadRequest ''invalid byte'') else Inr (intOf x)) xs
      | _ \<Rightarrow> Inl (BadRequest ''must be an array''))"

definition parsePositiveInt :: "json option \<Rightarrow> int \<Rightarrow> int" where
  "parsePositiveInt v fallback =
     (case v of Some (JNum r) \<Rightarrow> if \<lfloor>r\<rfloor> \<le> 0 then fallback else \<lfloor>r\<rfloor> | _ \<Rightarrow> fallback)"

definition sanitizeMessageIdList :: "json option \<Rightarrow> (http_error, string list) result" where
  "sanitizeMessageIdList v =
     (case v of
        Some (JArr xs) \<Rightarrow>
          bind_r (mapM_r (\<lambda>x. sanitizeQueryValue (Some x)) xs) (\<lambda>ids. Inr (uniq ids))
      | _ \<Rightarrow> Inl (BadRequest ''must be an array''))"

text \<open>The key of a device in the routing sets and the presence table.\<close>

definition memberKey :: "string \<Rightarrow> string \<Rightarrow> string" where
  "memberKey user device = user @ '':'' @ device"

section \<open>What passes\<close>

lemma sanitizeQueryValue_Inr:
  "sanitizeQueryValue v = Inr s \<Longrightarrow> SAFE_QUERY_VALUE_REGEX s \<and> s \<noteq> []"
  by (auto simp: sanitizeQueryValue_def Let_def split: option.splits json.splits if_splits)

lemma safe_char_not_ws: "safe_char c \<Longrightarrow> \<not> js_ws c"
  by (auto simp: safe_char_def alnum_def js_ws_def)

lemma trim_id: "list_all (\<lambda>c. \<not> js_ws c) s \<Longrightarrow> trim s = s"
proof -
  assume s: "list_all (\<lambda>c. \<not> js_ws c) s"
  have "dropWhile js_ws xs = xs" if "list_all (\<lambda>c. \<not> js_ws c) xs" for xs
    using that by (cases xs) auto
  moreover have "list_all (\<lambda>c. \<not> js_ws c) (rev s)" using s by (simp add: list_all_iff)
  ultimately show ?thesis using s by (simp add: trim_def)
qed

text \<open>A value that passed once passes again unchanged.\<close>

lemma sanitizeQueryValue_idem:
  assumes "sanitizeQueryValue v = Inr s"
  shows "sanitizeQueryValue (Some (JStr s)) = Inr s"
proof -
  from sanitizeQueryValue_Inr [OF assms] have s: "SAFE_QUERY_VALUE_REGEX s" "s \<noteq> []" by simp_all
  then have "trim s = s"
    by (intro trim_id) (auto simp: SAFE_QUERY_VALUE_REGEX_def list_all_iff dest: safe_char_not_ws)
  with s show ?thesis by (simp add: sanitizeQueryValue_def)
qed

lemma memberKey_inject:
  assumes "CHR '':'' \<notin> set u" and "CHR '':'' \<notin> set v" and "memberKey u d = memberKey v e"
  shows "u = v \<and> d = e"
proof -
  have "takeWhile (\<lambda>c. c \<noteq> CHR '':'') (u @ CHR '':'' # d) = u"
    and "takeWhile (\<lambda>c. c \<noteq> CHR '':'') (v @ CHR '':'' # e) = v"
    using assms(1,2) by (auto simp: takeWhile_append)
  moreover have "u @ CHR '':'' # d = v @ CHR '':'' # e" using assms(3) by (simp add: memberKey_def)
  ultimately show ?thesis by (metis append_same_eq append.right_neutral list.inject same_append_eq)
qed

end
