(* ===== verification/Delivery_State.thy ===== *)
theory Delivery_State
  imports Sanitize
begin

text \<open>
  The state of the delivery service: the tables of its database (\<open>src/entities\<close>), one record per
  entity, and the Redis keys it reads and writes. A table is the list of its rows. The columns kept
  are those some operation of the service reads or returns. A Redis set is the list of its members
  without repetition; a history stream is the list of its entries, oldest first. Instants are
  milliseconds.
\<close>

section \<open>Entities\<close>

record group_row =
  gId :: string
  gName :: "string option"
  gImageMediaId :: "string option"
  gIsGroup :: bool
  gDistributionWorkspaceId :: "string option"
  gDistributionChannelId :: "string option"
  gActiveEpoch :: nat
  gDeletedAt :: "int option"
  gUpdatedAt :: int

datatype member_role = Admin | Member

record member_row =
  mGroup :: string
  mUser :: string
  mRole :: member_role
  mJoinedAt :: int

datatype device_status = Pending | Active

record device_row =
  dUser :: string
  dDevice :: string
  dGroup :: string
  dStatus :: device_status
  dKickedAt :: "int option"
  dCreatedAt :: int

record queued_row =
  qId :: string
  qRecipient :: string
  qDevice :: string
  qProto :: "string option"
  qIsWelcome :: "bool option"
  qIsCommit :: "bool option"
  qSender :: "string option"
  qSenderDevice :: "string option"
  qGroup :: "string option"
  qType :: "string option"
  qContent :: "string option"
  qRatchetTree :: "string option"
  qCreatedAt :: int

record commit_row =
  cGroup :: string
  cBase :: nat
  cCommit :: string
  cSenderDevice :: "string option"
  cCreatedAt :: int

record ginfo_row =
  iGroup :: string
  iInfo :: string
  iBase :: int

record invite_row =
  vId :: string
  vGroup :: string
  vToken :: string
  vCreatedBy :: string
  vExpiresAt :: "int option"
  vMaxUses :: "int option"
  vUses :: int
  vRevoked :: bool

record kp_row =
  kUser :: string
  kDevice :: string
  kPayload :: string
  kName :: "string option"
  kOs :: "string option"
  kVersion :: "string option"
  kCreatedAt :: int

record otk_row =
  oId :: string
  oUser :: string
  oDevice :: string
  oPayload :: string
  oCreatedAt :: int

record push_row =
  pUser :: string
  pDevice :: string
  pToken :: string
  pIos :: bool
  pSecret :: "string option"
  pVoip :: "string option"
  pLocale :: "string option"

record pin_row =
  nUser :: string
  nVerifier :: string
  nSalt :: "string option"

record revoked_row =
  rUser :: string
  rDevice :: string
  rRevokedAt :: int

record dismissed_row =
  sUser :: string
  sGroup :: string

record history_entry =
  hMs :: int
  hSender :: string
  hSenderDevice :: string
  hContent :: string
  hSilent :: bool

text \<open>A lock key written with \<open>SET NX EX\<close>: its value and the instant it expires.\<close>

type_synonym lock = "(string \<times> int) option"

record delivery =
  groups :: "group_row list"
  members :: "member_row list"
  devices :: "device_row list"
  queue :: "queued_row list"
  commitLog :: "commit_row list"
  groupInfos :: "ginfo_row list"
  invites :: "invite_row list"
  dismissed :: "dismissed_row list"
  keyPackages :: "kp_row list"
  oneTimeKeyPackages :: "otk_row list"
  pushTokens :: "push_row list"
  pinVerifiers :: "pin_row list"
  revokedDevices :: "revoked_row list"
  routing :: "string \<Rightarrow> string list"
  history :: "string \<Rightarrow> history_entry list"
  pendingWelcome :: "string \<Rightarrow> string list"
  pendingNotify :: "string \<Rightarrow> (string \<times> string \<times> string) list"
  commitLock :: "string \<Rightarrow> lock"
  addLock :: "string \<Rightarrow> lock"

section \<open>Lookups and Redis commands\<close>

definition findGroup :: "string \<Rightarrow> delivery \<Rightarrow> group_row option" where
  "findGroup g st = find (\<lambda>r. gId r = g) (groups st)"

definition findMember :: "string \<Rightarrow> string \<Rightarrow> delivery \<Rightarrow> member_row option" where
  "findMember g u st = find (\<lambda>r. mGroup r = g \<and> mUser r = u) (members st)"

definition findDevice :: "string \<Rightarrow> string \<Rightarrow> delivery \<Rightarrow> device_row option" where
  "findDevice d g st = find (\<lambda>r. dDevice r = d \<and> dGroup r = g) (devices st)"

definition sadd :: "string \<Rightarrow> string list \<Rightarrow> delivery \<Rightarrow> delivery" where
  "sadd g ks st = st\<lparr>routing := (routing st)(g := fold (\<lambda>k s. if k \<in> set s then s else s @ [k]) ks (routing st g))\<rparr>"

definition srem :: "string \<Rightarrow> string list \<Rightarrow> delivery \<Rightarrow> delivery" where
  "srem g ks st = st\<lparr>routing := (routing st)(g := filter (\<lambda>k. k \<notin> set ks) (routing st g))\<rparr>"

text \<open>\<open>SET key value EX ttl NX\<close>: the lock is taken when the key is absent or has expired.\<close>

definition lock_free :: "int \<Rightarrow> lock \<Rightarrow> bool" where
  "lock_free now l = (case l of None \<Rightarrow> True | Some (_, expiry) \<Rightarrow> expiry \<le> now)"

definition set_nx_ex :: "int \<Rightarrow> int \<Rightarrow> string \<Rightarrow> lock \<Rightarrow> bool \<times> lock" where
  "set_nx_ex now ttlMs value l =
     (if lock_free now l then (True, Some (value, now + ttlMs)) else (False, l))"

text \<open>The Lua release: delete the key if it still holds the value given.\<close>

definition release_if :: "int \<Rightarrow> string \<Rightarrow> lock \<Rightarrow> lock" where
  "release_if now value l =
     (case l of None \<Rightarrow> None
      | Some (v, expiry) \<Rightarrow> if \<not> expiry \<le> now \<and> v = value then None else l)"

lemma set_sadd_fold:
  "set (fold (\<lambda>k s. if k \<in> set s then s else s @ [k]) ks s) = set s \<union> set ks"
  by (induction ks arbitrary: s) auto

lemma set_routing_sadd [table_simps]:
  "set (routing (sadd g ks st) h) = set (routing st h) \<union> (if h = g then set ks else {})"
  by (simp add: sadd_def set_sadd_fold)

lemma set_routing_srem [table_simps]:
  "set (routing (srem g ks st) h) = set (routing st h) - (if h = g then set ks else {})"
  by (auto simp: srem_def)

lemma sadd_sel [simp]:
  "groups (sadd g ks st) = groups st" "members (sadd g ks st) = members st"
  "devices (sadd g ks st) = devices st" "queue (sadd g ks st) = queue st"
  "commitLog (sadd g ks st) = commitLog st" "groupInfos (sadd g ks st) = groupInfos st"
  "invites (sadd g ks st) = invites st" "dismissed (sadd g ks st) = dismissed st"
  "keyPackages (sadd g ks st) = keyPackages st" "revokedDevices (sadd g ks st) = revokedDevices st"
  "history (sadd g ks st) = history st" "commitLock (sadd g ks st) = commitLock st"
  "pushTokens (sadd g ks st) = pushTokens st" "pinVerifiers (sadd g ks st) = pinVerifiers st"
  by (simp_all add: sadd_def)

lemma srem_sel [simp]:
  "groups (srem g ks st) = groups st" "members (srem g ks st) = members st"
  "devices (srem g ks st) = devices st" "queue (srem g ks st) = queue st"
  "commitLog (srem g ks st) = commitLog st" "groupInfos (srem g ks st) = groupInfos st"
  "invites (srem g ks st) = invites st" "dismissed (srem g ks st) = dismissed st"
  "keyPackages (srem g ks st) = keyPackages st" "revokedDevices (srem g ks st) = revokedDevices st"
  "history (srem g ks st) = history st" "commitLock (srem g ks st) = commitLock st"
  "pushTokens (srem g ks st) = pushTokens st" "pinVerifiers (srem g ks st) = pinVerifiers st"
  by (simp_all add: srem_def)

lemma findGroup_Some: "findGroup g st = Some r \<Longrightarrow> r \<in> set (groups st) \<and> gId r = g"
  unfolding findGroup_def by (rule find_Some_iff_mem)

lemma findDevice_Some: "findDevice d g st = Some r \<Longrightarrow> r \<in> set (devices st) \<and> dDevice r = d \<and> dGroup r = g"
  unfolding findDevice_def using find_Some_iff_mem by fast

section \<open>Constants\<close>

definition RETENTION_WINDOW_MS :: int where
  "RETENTION_WINDOW_MS = 90 * 24 * 60 * 60 * 1000"

definition PENDING_PAGE_MAX_BYTES :: nat where
  "PENDING_PAGE_MAX_BYTES = 1024 * 1024"

definition PENDING_FETCH_CHUNK_ROWS :: nat where
  "PENDING_FETCH_CHUNK_ROWS = 50"

definition DEVICE_REVOCATION_TTL_MS :: int where
  "DEVICE_REVOCATION_TTL_MS = 10 * 365 * 24 * 60 * 60 * 1000"

definition HISTORY_STREAM_MAXLEN :: nat where
  "HISTORY_STREAM_MAXLEN = 8000"

definition COMMIT_LOG_RETENTION_MS :: int where
  "COMMIT_LOG_RETENTION_MS = 365 * 24 * 60 * 60 * 1000"

definition COMMIT_LOG_MAX_PER_GROUP :: nat where
  "COMMIT_LOG_MAX_PER_GROUP = 20000"

section \<open>Revocation and addressability\<close>

definition activeRevocationCutoff :: "int \<Rightarrow> int" where
  "activeRevocationCutoff now = now - DEVICE_REVOCATION_TTL_MS"

definition activeRevocation :: "int \<Rightarrow> revoked_row \<Rightarrow> bool" where
  "activeRevocation now r \<longleftrightarrow> rRevokedAt r > activeRevocationCutoff now"

datatype addressability = Addressable | NotAddressable string

definition deviceAddressability :: "int \<Rightarrow> string \<Rightarrow> string \<Rightarrow> delivery \<Rightarrow> addressability" where
  "deviceAddressability now user device st =
     (if list_ex (\<lambda>r. rUser r = user \<and> rDevice r = device \<and> activeRevocation now r) (revokedDevices st)
      then NotAddressable ''revoked''
      else if \<not> list_ex (\<lambda>k. kUser k = user \<and> kDevice k = device) (keyPackages st)
      then NotAddressable ''no_key_package''
      else Addressable)"

section \<open>What a group owns\<close>

record owned_counts =
  ocQueued :: nat
  ocMembers :: nat
  ocDevices :: nat
  ocCommits :: nat
  ocInfos :: nat
  ocInvites :: nat
  ocDismissals :: nat

definition totalGroupOwnedRows :: "owned_counts \<Rightarrow> nat" where
  "totalGroupOwnedRows c = sum_list [ocQueued c, ocMembers c, ocDevices c, ocCommits c, ocInfos c,
     ocInvites c, ocDismissals c]"

definition countIn :: "('r \<Rightarrow> bool) \<Rightarrow> 'r list \<Rightarrow> nat" where
  "countIn p rs = length (filter p rs)"

definition queuedIn :: "string list \<Rightarrow> queued_row \<Rightarrow> bool" where
  "queuedIn gs r \<longleftrightarrow> (case qGroup r of None \<Rightarrow> False | Some g \<Rightarrow> g \<in> set gs)"

definition deleteGroupOwnedRows :: "string list \<Rightarrow> bool \<Rightarrow> delivery \<Rightarrow> owned_counts \<times> delivery" where
  "deleteGroupOwnedRows gs groupRowSurvives st =
     (if gs = [] then (\<lparr>ocQueued = 0, ocMembers = 0, ocDevices = 0, ocCommits = 0, ocInfos = 0,
                        ocInvites = 0, ocDismissals = 0\<rparr>, st)
      else
        (\<lparr>ocQueued = countIn (queuedIn gs) (queue st),
          ocMembers = countIn (\<lambda>r. mGroup r \<in> set gs) (members st),
          ocDevices = countIn (\<lambda>r. dGroup r \<in> set gs) (devices st),
          ocCommits = countIn (\<lambda>r. cGroup r \<in> set gs) (commitLog st),
          ocInfos = countIn (\<lambda>r. iGroup r \<in> set gs) (groupInfos st),
          ocInvites = countIn (\<lambda>r. vGroup r \<in> set gs) (invites st),
          ocDismissals = (if groupRowSurvives then 0 else countIn (\<lambda>r. sGroup r \<in> set gs) (dismissed st))\<rparr>,
         st\<lparr>queue := delete_where (queuedIn gs) (queue st),
            members := delete_where (\<lambda>r. mGroup r \<in> set gs) (members st),
            devices := delete_where (\<lambda>r. dGroup r \<in> set gs) (devices st),
            commitLog := delete_where (\<lambda>r. cGroup r \<in> set gs) (commitLog st),
            groupInfos := delete_where (\<lambda>r. iGroup r \<in> set gs) (groupInfos st),
            invites := delete_where (\<lambda>r. vGroup r \<in> set gs) (invites st),
            dismissed := (if groupRowSurvives then dismissed st
                          else delete_where (\<lambda>r. sGroup r \<in> set gs) (dismissed st))\<rparr>))"

definition deleteGroupRedisKeys :: "string list \<Rightarrow> delivery \<Rightarrow> delivery" where
  "deleteGroupRedisKeys gs st =
     st\<lparr>history := (\<lambda>g. if g \<in> set gs then [] else history st g),
        routing := (\<lambda>g. if g \<in> set gs then [] else routing st g),
        pendingWelcome := (\<lambda>g. if g \<in> set gs then [] else pendingWelcome st g)\<rparr>"

definition purgeOrphanGroups ::
  "string list \<Rightarrow> delivery \<Rightarrow> (string list \<times> string list) \<times> delivery" where
  "purgeOrphanGroups gs st =
     (if gs = [] then (([], []), st)
      else
        let existing = filter (\<lambda>r. gId r \<in> set gs) (groups st);
            present = map gId existing;
            deliverable = map gId (filter (\<lambda>r. gDeletedAt r = None) existing);
            tombstoned = map gId (filter (\<lambda>r. gDeletedAt r \<noteq> None) existing);
            orphaned = filter (\<lambda>g. g \<notin> set present) gs
        in if orphaned = [] then ((deliverable, tombstoned), st)
           else ((deliverable, tombstoned),
                 deleteGroupRedisKeys orphaned (snd (deleteGroupOwnedRows orphaned False st))))"

definition purgeDeviceFootprint :: "string \<Rightarrow> string \<Rightarrow> delivery \<Rightarrow> (nat \<times> nat \<times> nat \<times> nat) \<times> delivery" where
  "purgeDeviceFootprint user device st =
     (let mine = (\<lambda>r. dUser r = user \<and> dDevice r = device);
          mineK = (\<lambda>r. kUser r = user \<and> kDevice r = device);
          mineO = (\<lambda>r. oUser r = user \<and> oDevice r = device);
          mineQ = (\<lambda>r. qRecipient r = user \<and> qDevice r = device);
          gids = remdups (map dGroup (filter mine (devices st)));
          st1 = st\<lparr>devices := delete_where mine (devices st)\<rparr>;
          st2 = fold (\<lambda>g s. srem g [memberKey user device] s) gids st1
      in ((length gids, countIn mineK (keyPackages st), countIn mineO (oneTimeKeyPackages st),
           countIn mineQ (queue st)),
          st2\<lparr>keyPackages := delete_where mineK (keyPackages st2),
              oneTimeKeyPackages := delete_where mineO (oneTimeKeyPackages st2),
              queue := delete_where mineQ (queue st2),
              pushTokens := delete_where (\<lambda>r. pUser r = user \<and> pDevice r = device) (pushTokens st2)\<rparr>))"

end
