(* ===== verification/Send_Message.thy ===== *)
theory Send_Message
  imports Delivery_State
begin

text \<open>
  Fan-out of a message to the devices of a group (\<open>services/messaging.service.ts\<close>: sendMessage,
  enqueueForLiveGroup, activateDeviceMembership, redeliverMissedDuringActivationWindow, sendWelcome).

  What a request reads from outside the database is an \<open>env\<close>: its instant, the presence keys of
  Redis, the identifiers the database draws for the rows it inserts, and the trim Redis applies for
  \<open>XADD MAXLEN ~\<close>, whose extent Redis leaves open. What a request sends out - the frames published to
  the gateway, the pushes handed to FCM - is the list of effects it returns. An operation returns its
  answer, the state it leaves, and its effects; a request that fails keeps the state changes made
  before the failure. Redis and the database are taken to be reachable.
\<close>

section \<open>Model\<close>

record env =
  eNow :: int
  eOnline :: "string \<Rightarrow> bool"
  eIds :: "nat \<Rightarrow> string"
  eTrim :: "history_entry list \<Rightarrow> history_entry list"

datatype delivery_effect =
    Publish queued_row
  | DeferredPush queued_row bool
  | Push queued_row bool

record send_body =
  sbGroup :: "string option"
  sbSender :: "string option"
  sbSenderDevice :: "string option"
  sbProto :: "string option"
  sbIsWelcome :: "bool option"
  sbIsCommit :: "bool option"
  sbSilent :: "bool option"
  sbDurable :: "bool option"
  sbExclude :: "string list option"
  sbRecipients :: "(json option \<times> json option) list option"
  sbContent :: "json option"
  sbType :: "json option"

type_synonym 'a outcome = "(http_error, 'a) result \<times> delivery \<times> delivery_effect list"

definition truthy :: "string option \<Rightarrow> bool" where
  "truthy s = (case s of None \<Rightarrow> False | Some x \<Rightarrow> x \<noteq> [])"

definition orEmpty :: "string option \<Rightarrow> string" where
  "orEmpty s = (case s of None \<Rightarrow> [] | Some x \<Rightarrow> x)"

definition isTrue :: "bool option \<Rightarrow> bool" where
  "isTrue b = (b = Some True)"

definition assertRequesterMatchesCaller :: "json option \<Rightarrow> string \<Rightarrow> (http_error, unit) result" where
  "assertRequesterMatchesCaller authUserIdRaw requester =
     bind_r (sanitizeOptionalQueryValue authUserIdRaw) (\<lambda>auth.
       case auth of
         None \<Rightarrow> Inr ()
       | Some a \<Rightarrow> if toLowerCase a \<noteq> toLowerCase requester then Inl (Forbidden ''requester'') else Inr ())"

text \<open>Saving rows: the database draws an id for each.\<close>

definition withIds :: "(nat \<Rightarrow> string) \<Rightarrow> queued_row list \<Rightarrow> queued_row list" where
  "withIds ids rows = map (\<lambda>i. (rows ! i)\<lparr>qId := ids i\<rparr>) [0..<length rows]"

definition enqueueForLiveGroup ::
  "(nat \<Rightarrow> string) \<Rightarrow> queued_row list \<Rightarrow> string option \<Rightarrow> delivery
     \<Rightarrow> (http_error, queued_row list) result \<times> delivery" where
  "enqueueForLiveGroup ids rows grp st =
     (let saved = withIds ids rows; st' = st\<lparr>queue := queue st @ saved\<rparr> in
      if \<not> truthy grp then (Inr saved, st')
      else (case findGroup (orEmpty grp) st of
              None \<Rightarrow> (Inl (Gone ''group_deleted''), st)
            | Some g \<Rightarrow> if gDeletedAt g \<noteq> None then (Inl (Gone ''group_deleted''), st) else (Inr saved, st')))"

definition isHandshake :: "send_body \<Rightarrow> bool" where
  "isHandshake body \<longleftrightarrow> isTrue (sbIsCommit body) \<or> isTrue (sbIsWelcome body)"

text \<open>The refusal of a sender that holds no leaf.\<close>

definition senderGate :: "send_body \<Rightarrow> string \<Rightarrow> delivery \<Rightarrow> (http_error, unit) result" where
  "senderGate body g st =
     (if \<not> isHandshake body \<and> truthy (sbSender body) \<and> truthy (sbSenderDevice body)
      then (case findDevice (orEmpty (sbSenderDevice body)) g st of
              None \<Rightarrow> Inr ()
            | Some m \<Rightarrow> if dStatus m \<noteq> Active then Inl (Forbidden ''sender_not_active'') else Inr ())
      else Inr ())"

definition activeMemberships :: "string \<Rightarrow> delivery \<Rightarrow> device_row list" where
  "activeMemberships g st = filter (\<lambda>m. dGroup m = g \<and> dStatus m = Active) (devices st)"

definition deviceKey :: "device_row \<Rightarrow> string" where
  "deviceKey m = memberKey (dUser m) (dDevice m)"

definition liveDeviceIds :: "string \<Rightarrow> delivery \<Rightarrow> string list" where
  "liveDeviceIds g st =
     map (\<lambda>k. memberKey (kUser k) (kDevice k))
       (filter (\<lambda>k. kDevice k \<in> set (map dDevice (activeMemberships g st))) (keyPackages st))"

definition isSender :: "send_body \<Rightarrow> device_row \<Rightarrow> bool" where
  "isSender body m \<longleftrightarrow> Some (dUser m) = sbSender body \<and> Some (dDevice m) = sbSenderDevice body"

definition protoTargets :: "send_body \<Rightarrow> string \<Rightarrow> delivery \<Rightarrow> device_row list" where
  "protoTargets body g st =
     filter (\<lambda>m. \<not> isSender body m
        \<and> deviceKey m \<notin> set (case sbExclude body of None \<Rightarrow> [] | Some ks \<Rightarrow> ks)
        \<and> deviceKey m \<in> set (liveDeviceIds g st)) (activeMemberships g st)"

definition protoRow :: "env \<Rightarrow> send_body \<Rightarrow> string \<Rightarrow> device_row \<Rightarrow> queued_row" where
  "protoRow e body g m =
     \<lparr>qId = [], qRecipient = dUser m, qDevice = dDevice m, qProto = sbProto body,
      qIsWelcome = sbIsWelcome body, qIsCommit = sbIsCommit body, qSender = sbSender body,
      qSenderDevice = sbSenderDevice body, qGroup = Some g, qType = None, qContent = None,
      qRatchetTree = None, qCreatedAt = eNow e\<rparr>"

text \<open>The reconciliation of the routing set with every live member.\<close>

definition reconcileRouting :: "string \<Rightarrow> delivery \<Rightarrow> delivery" where
  "reconcileRouting g st =
     (let routable = map deviceKey (filter (\<lambda>m. deviceKey m \<in> set (liveDeviceIds g st)) (activeMemberships g st))
      in if routable = [] then st else sadd g routable st)"

definition protoOps ::
  "env \<Rightarrow> send_body \<Rightarrow> delivery \<Rightarrow> (http_error, queued_row list) result \<times> delivery" where
  "protoOps e body st =
     (if \<not> truthy (sbGroup body) then (Inr [], st)
      else let g = orEmpty (sbGroup body) in
        (case senderGate body g st of
           Inl err \<Rightarrow> (Inl err, st)
         | Inr _ \<Rightarrow> (Inr (map (protoRow e body g) (protoTargets body g st)), reconcileRouting g st)))"

definition recipientTarget :: "json option \<times> json option \<Rightarrow> (http_error, (string \<times> string) list) result" where
  "recipientTarget r =
     (case r of (u, d) \<Rightarrow>
        bind_r (sanitizeQueryValue u) (\<lambda>user.
          if d = None \<or> d = Some JNull \<or> d = Some (JStr []) then Inr []
          else bind_r (sanitizeQueryValue d) (\<lambda>dev. Inr [(user, dev)])))"

definition legacyOps ::
  "env \<Rightarrow> send_body \<Rightarrow> delivery \<Rightarrow> (http_error, queued_row list) result" where
  "legacyOps e body st =
     bind_r (sanitizeQueryValue (map_option JStr (sbSender body))) (\<lambda>sender.
     bind_r (sanitizeOptionalQueryValue (map_option JStr (sbSenderDevice body))) (\<lambda>senderDevice.
     bind_r (sanitizeQueryValue (map_option JStr (sbGroup body))) (\<lambda>g.
     let content = strOrEmpty (sbContent body); typ = strOrEmpty (sbType body) in
     if content = [] then Inl (BadRequest ''content is required'')
     else bind_r
       (case sbRecipients body of
          Some (r # rs) \<Rightarrow> bind_r (mapM_r recipientTarget (r # rs)) (\<lambda>ts. Inr (concat ts))
        | _ \<Rightarrow>
            let users = filter (\<lambda>u. u \<noteq> sender) (map mUser (filter (\<lambda>m. mGroup m = g) (members st)))
            in Inr (map (\<lambda>k. (kUser k, kDevice k)) (filter (\<lambda>k. kUser k \<in> set users) (keyPackages st))))
       (\<lambda>targets. Inr (map (\<lambda>(u, d).
          \<lparr>qId = [], qRecipient = u, qDevice = d, qProto = None, qIsWelcome = None, qIsCommit = None,
           qSender = Some sender, qSenderDevice = senderDevice, qGroup = Some g,
           qType = Some (if typ = [] then ''message'' else typ), qContent = Some content,
           qRatchetTree = None, qCreatedAt = eNow e\<rparr>) targets)))))"

definition isDurable :: "send_body \<Rightarrow> bool" where
  "isDurable body = (case sbDurable body of Some d \<Rightarrow> d | None \<Rightarrow> \<not> isTrue (sbSilent body))"

definition queuedKey :: "queued_row \<Rightarrow> string" where
  "queuedKey q = memberKey (qRecipient q) (qDevice q)"

definition writesHistory :: "send_body \<Rightarrow> bool" where
  "writesHistory body \<longleftrightarrow> truthy (sbProto body) \<and> \<not> isTrue (sbIsWelcome body) \<and> \<not> isTrue (sbIsCommit body)
     \<and> isDurable body \<and> truthy (sbGroup body) \<and> truthy (sbSender body)"

definition appendHistory :: "env \<Rightarrow> send_body \<Rightarrow> delivery \<Rightarrow> delivery" where
  "appendHistory e body st =
     (if writesHistory body
      then let g = orEmpty (sbGroup body);
               entry = \<lparr>hMs = eNow e, hSender = orEmpty (sbSender body),
                        hSenderDevice = orEmpty (sbSenderDevice body),
                        hContent = orEmpty (sbProto body), hSilent = isTrue (sbSilent body)\<rparr>
           in st\<lparr>history := (history st)(g :=
                filter (\<lambda>h. eNow e - RETENTION_WINDOW_MS \<le> hMs h) (eTrim e (history st g @ [entry])))\<rparr>
      else st)"

definition silentPush :: "send_body \<Rightarrow> bool" where
  "silentPush body = (if isHandshake body then True else isTrue (sbSilent body))"

definition deliverEffects :: "env \<Rightarrow> send_body \<Rightarrow> queued_row list \<Rightarrow> delivery_effect list" where
  "deliverEffects e body saved =
     concat (map (\<lambda>q.
       if eOnline e (queuedKey q)
       then Publish q # (if isDurable body then [DeferredPush q (silentPush body)] else [])
       else if isDurable body then [Push q (silentPush body)] else []) saved)"

record send_result =
  srQueued :: nat
  srSent :: nat

definition sendMessage :: "env \<Rightarrow> json option \<Rightarrow> send_body \<Rightarrow> delivery \<Rightarrow> send_result outcome" where
  "sendMessage e authUserIdRaw body st =
     (case (if truthy (sbSender body)
            then assertRequesterMatchesCaller authUserIdRaw (orEmpty (sbSender body)) else Inr ()) of
        Inl err \<Rightarrow> (Inl err, st, [])
      | Inr _ \<Rightarrow>
          (case (if truthy (sbProto body) then protoOps e body st else (legacyOps e body st, st)) of
             (Inl err, st1) \<Rightarrow> (Inl err, st1, [])
           | (Inr ops, st1) \<Rightarrow>
               (let toDeliver = (if isDurable body then ops else filter (\<lambda>q. eOnline e (queuedKey q)) ops) in
                case (if toDeliver = [] then (Inr [], st1)
                      else enqueueForLiveGroup (eIds e) toDeliver (sbGroup body) st1) of
                  (Inl err, st2) \<Rightarrow> (Inl err, st2, [])
                | (Inr saved, st2) \<Rightarrow>
                    (Inr \<lparr>srQueued = length saved,
                         srSent = length (filter (\<lambda>q. eOnline e (queuedKey q)) saved)\<rparr>,
                     appendHistory e body st2, deliverEffects e body saved))))"

section \<open>Activation of a membership\<close>

definition ACTIVATION_REDELIVER_WINDOW_MS :: int where
  "ACTIVATION_REDELIVER_WINDOW_MS = 5 * 60 * 1000"

definition redeliverMissedDuringActivationWindow ::
  "env \<Rightarrow> string \<Rightarrow> string \<Rightarrow> string \<Rightarrow> int option \<Rightarrow> delivery \<Rightarrow> unit outcome" where
  "redeliverMissedDuringActivationWindow e user device g pendingSinceMs st =
     (let windowStart = max (case pendingSinceMs of None \<Rightarrow> 0 | Some t \<Rightarrow> t)
                            (eNow e - ACTIVATION_REDELIVER_WINDOW_MS);
          entries = take 50 (filter (\<lambda>h. windowStart \<le> hMs h) (history st g));
          owed = filter (\<lambda>h. hContent h \<noteq> [] \<and> hSender h \<noteq> user \<and> \<not> hSilent h) entries;
          rows = map (\<lambda>h. \<lparr>qId = [], qRecipient = user, qDevice = device, qProto = Some (hContent h),
                    qIsWelcome = Some False, qIsCommit = Some False, qSender = Some (hSender h),
                    qSenderDevice = None, qGroup = Some g, qType = None, qContent = None,
                    qRatchetTree = None, qCreatedAt = eNow e\<rparr>) owed
      in if rows = [] then (Inr (), st, [])
         else (case enqueueForLiveGroup (eIds e) rows (Some g) st of
                 (Inl err, st') \<Rightarrow> (Inl err, st', [])
               | (Inr saved, st') \<Rightarrow> (Inr (), st', map (\<lambda>q. Push q False) saved)))"

definition deviceIndex :: "device_row \<Rightarrow> string \<times> string" where
  "deviceIndex r = (dDevice r, dGroup r)"

definition upsertDevice :: "device_row \<Rightarrow> delivery \<Rightarrow> delivery" where
  "upsertDevice row st =
     st\<lparr>devices := upsert_row deviceIndex row
          (\<lambda>r. r\<lparr>dUser := dUser row, dStatus := dStatus row, dKickedAt := dKickedAt row\<rparr>) (devices st)\<rparr>"

definition activateDeviceMembership ::
  "env \<Rightarrow> string \<Rightarrow> string \<Rightarrow> string \<Rightarrow> bool \<Rightarrow> delivery \<Rightarrow> delivery \<times> delivery_effect list" where
  "activateDeviceMembership e user device g redeliverMissed st =
     (if deviceAddressability (eNow e) user device st \<noteq> Addressable then (st, [])
      else
        let existing = findDevice device g st;
            wasAlreadyActive = (case existing of None \<Rightarrow> False | Some r \<Rightarrow> dStatus r = Active);
            st1 = upsertDevice \<lparr>dUser = user, dDevice = device, dGroup = g, dStatus = Active,
                                dKickedAt = None, dCreatedAt = eNow e\<rparr> st;
            st2 = sadd g [memberKey user device] st1
        in if \<not> wasAlreadyActive \<and> redeliverMissed
           then (case redeliverMissedDuringActivationWindow e user device g (map_option dCreatedAt existing) st2 of
                   (_, st3, eff) \<Rightarrow> (st3, eff))
           else (st2, []))"

section \<open>Welcomes\<close>

record welcome_body =
  wbTargetDevice :: "json option"
  wbTargetUser :: "json option"
  wbSenderUser :: "json option"
  wbPayload :: string
  wbRatchetTree :: "string option"
  wbGroup :: "json option"

definition sendWelcome :: "env \<Rightarrow> json option \<Rightarrow> welcome_body \<Rightarrow> delivery \<Rightarrow> unit outcome" where
  "sendWelcome e authUserIdRaw body st =
     (case bind_r (sanitizeQueryValue (wbTargetDevice body)) (\<lambda>device.
           bind_r (sanitizeOptionalQueryValue (wbTargetUser body)) (\<lambda>user.
           bind_r (sanitizeOptionalQueryValue (wbSenderUser body)) (\<lambda>sender.
           bind_r (sanitizeQueryValue (wbGroup body)) (\<lambda>g.
           bind_r (sanitizeOptionalQueryValue authUserIdRaw) (\<lambda>auth.
           if (case auth of None \<Rightarrow> False | Some a \<Rightarrow> findMember g a st = None)
           then Inl (Forbidden ''not a member'')
           else (case find (\<lambda>k. kDevice k = device
                       \<and> (case user of None \<Rightarrow> True | Some u \<Rightarrow> kUser k = u)) (keyPackages st) of
                   None \<Rightarrow> Inl (ServerError ''device not found'')
                 | Some k \<Rightarrow> Inr (device, (case sender of None \<Rightarrow> ''system'' | Some s \<Rightarrow> s), g, kUser k))))))) of
        Inl err \<Rightarrow> (Inl err, st, [])
      | Inr (device, sender, g, target) \<Rightarrow>
          (let row = \<lparr>qId = [], qRecipient = target, qDevice = device, qProto = Some (wbPayload body),
                      qIsWelcome = Some True, qIsCommit = None, qSender = Some sender, qSenderDevice = None,
                      qGroup = Some g, qType = None, qContent = None, qRatchetTree = wbRatchetTree body,
                      qCreatedAt = eNow e\<rparr>
           in case enqueueForLiveGroup (eIds e) [row] (Some g) st of
                (Inl err, st1) \<Rightarrow> (Inl err, st1, [])
              | (Inr saved, st1) \<Rightarrow>
                  (let eff = map (\<lambda>q. if eOnline e (memberKey target device) then Publish q else Push q True) saved;
                       st2 = upsertDevice \<lparr>dUser = target, dDevice = device, dGroup = g, dStatus = Pending,
                                           dKickedAt = None, dCreatedAt = eNow e\<rparr> st1;
                       st3 = sadd g [memberKey target device] st2
                   in (Inr (), st3, eff))))"

section \<open>What each operation touches\<close>

lemma enqueue_cases:
  assumes "enqueueForLiveGroup ids rows g st = (r, st')"
  obtains err where "r = Inl err" and "st' = st"
  | "r = Inr (withIds ids rows)" and "st' = st\<lparr>queue := queue st @ withIds ids rows\<rparr>"
    and "truthy g \<Longrightarrow> \<exists>row. findGroup (orEmpty g) st = Some row \<and> gDeletedAt row = None"
  using assms
  by (auto simp: enqueueForLiveGroup_def Let_def split: if_splits option.splits)

lemma withIds_map:
  assumes "\<And>r i. f (r\<lparr>qId := i\<rparr>) = f r"
  shows "map f (withIds ids rows) = map f rows"
  by (rule nth_equalityI) (simp_all add: withIds_def assms)

lemma withIds_length [simp]: "length (withIds ids rows) = length rows"
  by (simp add: withIds_def)

lemma withIds_mem:
  assumes "q \<in> set (withIds ids rows)"
  obtains r i where "r \<in> set rows" and "q = r\<lparr>qId := ids i\<rparr>"
proof -
  from assms obtain i where "i < length rows" and "q = (rows ! i)\<lparr>qId := ids i\<rparr>"
    by (auto simp: withIds_def)
  then show thesis using that [of "rows ! i" i] by simp
qed

lemma reconcileRouting_sel [simp]:
  "groups (reconcileRouting g st) = groups st" "members (reconcileRouting g st) = members st"
  "devices (reconcileRouting g st) = devices st" "queue (reconcileRouting g st) = queue st"
  "commitLog (reconcileRouting g st) = commitLog st" "groupInfos (reconcileRouting g st) = groupInfos st"
  "keyPackages (reconcileRouting g st) = keyPackages st" "history (reconcileRouting g st) = history st"
  "commitLock (reconcileRouting g st) = commitLock st"
  "revokedDevices (reconcileRouting g st) = revokedDevices st" "dismissed (reconcileRouting g st) = dismissed st"
  "pushTokens (reconcileRouting g st) = pushTokens st" "pinVerifiers (reconcileRouting g st) = pinVerifiers st"
  by (simp_all add: reconcileRouting_def Let_def)

lemma appendHistory_sel [simp]:
  "groups (appendHistory e body st) = groups st" "members (appendHistory e body st) = members st"
  "devices (appendHistory e body st) = devices st" "queue (appendHistory e body st) = queue st"
  "commitLog (appendHistory e body st) = commitLog st" "groupInfos (appendHistory e body st) = groupInfos st"
  "keyPackages (appendHistory e body st) = keyPackages st" "routing (appendHistory e body st) = routing st"
  "commitLock (appendHistory e body st) = commitLock st"
  "revokedDevices (appendHistory e body st) = revokedDevices st" "dismissed (appendHistory e body st) = dismissed st"
  "pushTokens (appendHistory e body st) = pushTokens st" "pinVerifiers (appendHistory e body st) = pinVerifiers st"
  by (simp_all add: appendHistory_def Let_def)

text \<open>
  The frame of a send: rows are only ever added to the queue, all for the group of the message, which
  is then alive; the other tables are untouched.
\<close>

definition queue_grows :: "delivery \<Rightarrow> delivery \<Rightarrow> queued_row list \<Rightarrow> bool" where
  "queue_grows st st' new \<longleftrightarrow>
     queue st' = queue st @ new \<and> groups st' = groups st \<and> members st' = members st
     \<and> devices st' = devices st \<and> commitLog st' = commitLog st \<and> groupInfos st' = groupInfos st
     \<and> keyPackages st' = keyPackages st \<and> revokedDevices st' = revokedDevices st
     \<and> commitLock st' = commitLock st
     \<and> (\<forall>q \<in> set new. \<exists>h row. qGroup q = Some h \<and> findGroup h st = Some row \<and> gDeletedAt row = None)"

lemma findGroup_cong: "groups st = groups st' \<Longrightarrow> findGroup g st = findGroup g st'"
  by (simp add: findGroup_def)

definition trimmedIds :: "delivery \<Rightarrow> bool" where
  "trimmedIds st \<longleftrightarrow> (\<forall>r \<in> set (groups st). trim (gId r) = gId r)"

lemma enqueue_grows:
  assumes enq: "enqueueForLiveGroup ids rows g st = (r, st')" and g: "truthy g"
    and rows: "\<And>q. q \<in> set rows \<Longrightarrow> qGroup q = Some (orEmpty g) \<or> qGroup q = Some (trim (orEmpty g)) \<and> trimmedIds st"
  shows "\<exists>new. queue_grows st st' new \<and> (\<forall>s. r = Inr s \<longrightarrow> new = s \<and> s = withIds ids rows)"
  using enq
proof (cases rule: enqueue_cases)
  case (1 err)
  then have "queue_grows st st' []" by (simp add: queue_grows_def)
  with 1 show ?thesis by blast
next
  case 2
  then obtain row where row: "findGroup (orEmpty g) st = Some row" "gDeletedAt row = None"
    using g by blast
  then have "gId row = orEmpty g" and "row \<in> set (groups st)" by (auto dest: findGroup_Some)
  moreover have "qGroup q = Some (orEmpty g) \<or> qGroup q = Some (trim (orEmpty g)) \<and> trimmedIds st"
    if "q \<in> set (withIds ids rows)" for q
    using that rows by (elim withIds_mem) simp
  ultimately have "qGroup q = Some (orEmpty g)" if "q \<in> set (withIds ids rows)" for q
    using that unfolding trimmedIds_def by metis
  with row have "queue_grows st st' (withIds ids rows)"
    unfolding queue_grows_def 2(2) by simp
  with 2 show ?thesis by blast
qed

lemma queue_grows_trans: "queue_grows st st1 [] \<Longrightarrow> queue_grows st1 st2 new \<Longrightarrow> queue_grows st st2 new"
  by (auto simp: queue_grows_def findGroup_def)

lemma queue_grows_refl: "queue_grows st st []"
  by (simp add: queue_grows_def)

lemma protoOps_Inr:
  assumes "protoOps e body st = (Inr ops, st1)"
  shows "queue_grows st st1 []"
    and "ops = (if truthy (sbGroup body)
      then map (protoRow e body (orEmpty (sbGroup body))) (protoTargets body (orEmpty (sbGroup body)) st) else [])"
  using assms by (auto simp: protoOps_def Let_def queue_grows_def split: if_splits sum.splits)

lemma protoOps_Inl: "protoOps e body st = (Inl err, st1) \<Longrightarrow> st1 = st"
  by (auto simp: protoOps_def Let_def split: if_splits sum.splits)

lemma protoOps_grows: "protoOps e body st = (r, st1) \<Longrightarrow> queue_grows st st1 []"
  by (cases r) (auto simp: queue_grows_refl dest: protoOps_Inl protoOps_Inr(1))

lemma sanitize_Some_str: "sanitizeQueryValue (map_option JStr x) = Inr g \<Longrightarrow> \<exists>s. x = Some s \<and> g = trim s \<and> s \<noteq> []"
  by (cases x) (auto simp: sanitizeQueryValue_def Let_def split: if_splits)

lemma legacyOps_group:
  assumes "legacyOps e body st = Inr ops" and "q \<in> set ops"
  shows "truthy (sbGroup body) \<and> qGroup q = Some (trim (orEmpty (sbGroup body)))"
proof -
  from assms obtain g where "sanitizeQueryValue (map_option JStr (sbGroup body)) = Inr g"
    and "qGroup q = Some g"
    by (auto simp: legacyOps_def result_simps Let_def split: if_splits)
  then show ?thesis using sanitize_Some_str by (force simp: truthy_def orEmpty_def)
qed

lemma sendMessage_grows:
  assumes send: "sendMessage e auth body st = (r, st', eff)" and ids: "trimmedIds st"
  shows "\<exists>new. queue_grows st st' new"
proof (cases "case (if truthy (sbSender body)
    then assertRequesterMatchesCaller auth (orEmpty (sbSender body)) else Inr ()) of
      Inl _ \<Rightarrow> True | Inr _ \<Rightarrow> False")
  case True
  with send have "st' = st" by (auto simp: sendMessage_def split: sum.splits)
  then show ?thesis using queue_grows_refl by blast
next
  case False
  obtain r1 st1 where ops: "(if truthy (sbProto body) then protoOps e body st else (legacyOps e body st, st)) = (r1, st1)"
    by fastforce
  have st1: "queue_grows st st1 []"
    using ops by (auto simp: queue_grows_refl dest: protoOps_grows split: if_splits)
  show ?thesis
  proof (cases r1)
    case (Inl err)
    with False ops send have "st' = st1" by (auto simp: sendMessage_def split: sum.splits)
    with st1 show ?thesis by blast
  next
    case (Inr rows)
    let ?td = "if isDurable body then rows else filter (\<lambda>q. eOnline e (queuedKey q)) rows"
    have grp: "truthy (sbGroup body) \<and> (qGroup q = Some (orEmpty (sbGroup body))
        \<or> qGroup q = Some (trim (orEmpty (sbGroup body))) \<and> trimmedIds st1)" if "q \<in> set ?td" for q
    proof -
      have q: "q \<in> set rows" using that by (auto split: if_splits)
      have "trimmedIds st1" using ids st1 by (simp add: trimmedIds_def queue_grows_def)
      show ?thesis
      proof (cases "truthy (sbProto body)")
        case True
        with ops Inr have "protoOps e body st = (Inr rows, st1)" by simp
        from protoOps_Inr(2) [OF this] q show ?thesis by (auto simp: protoRow_def split: if_splits)
      next
        case False
        with ops Inr have "legacyOps e body st = Inr rows" by (metis Pair_inject)
        from legacyOps_group [OF this q] \<open>trimmedIds st1\<close> show ?thesis by blast
      qed
    qed
    obtain r2 st2 where enq: "(if ?td = [] then (Inr [], st1)
        else enqueueForLiveGroup (eIds e) ?td (sbGroup body) st1) = (r2, st2)" by fastforce
    have "\<exists>new. queue_grows st1 st2 new"
    proof (cases "?td = []")
      case True
      with enq show ?thesis using queue_grows_refl by (metis Pair_inject)
    next
      case False
      then have "hd ?td \<in> set ?td" by (rule hd_in_set)
      from grp [OF this] have g: "truthy (sbGroup body)" by blast
      from False enq have "enqueueForLiveGroup (eIds e) ?td (sbGroup body) st1 = (r2, st2)"
        by (simp only: if_False)
      from enqueue_grows [OF this g] grp show ?thesis by blast
    qed
    then obtain new where new: "queue_grows st st2 new" using queue_grows_trans [OF st1] by blast
    have "st' = st2 \<or> st' = appendHistory e body st2"
      using False send by (simp add: sendMessage_def ops Inr enq split: sum.splits)
    moreover have "queue_grows st2 (appendHistory e body st2) []" by (simp add: queue_grows_def)
    ultimately show ?thesis using new by (auto simp: queue_grows_def)
  qed
qed

section \<open>The recipients of a message\<close>

lemma sendMessage_proto_Inr:
  assumes send: "sendMessage e auth body st = (Inr res, st', eff)"
    and proto: "truthy (sbProto body)" and g: "sbGroup body = Some g" "g \<noteq> []"
  defines "ops \<equiv> map (protoRow e body g) (protoTargets body g st)"
  defines "td \<equiv> (if isDurable body then ops else filter (\<lambda>q. eOnline e (queuedKey q)) ops)"
  shows "queue st' = queue st @ withIds (eIds e) td" and "srQueued res = length td"
    and "eff = deliverEffects e body (withIds (eIds e) td)"
    and "history st' = history (appendHistory e body st)"
    and "td \<noteq> [] \<Longrightarrow> \<exists>row. findGroup g st = Some row \<and> gDeletedAt row = None"
proof -
  have truthy: "truthy (sbGroup body)" "orEmpty (sbGroup body) = g" using g by (simp_all add: truthy_def orEmpty_def)
  have auth: "\<exists>u. (if truthy (sbSender body)
      then assertRequesterMatchesCaller auth (orEmpty (sbSender body)) else Inr ()) = Inr u"
    using send by (auto simp: sendMessage_def split: sum.splits)
  have gate: "senderGate body g st = Inr ()"
    using send auth by (auto simp: sendMessage_def proto protoOps_def truthy Let_def split: sum.splits)
  have ops: "protoOps e body st = (Inr ops, reconcileRouting g st)"
    using gate by (simp add: protoOps_def truthy ops_def)
  let ?st1 = "reconcileRouting g st"
  obtain r2 st2 where enq: "(if td = [] then (Inr [], ?st1) else enqueueForLiveGroup (eIds e) td (sbGroup body) ?st1) = (r2, st2)"
    by fastforce
  from send auth have "\<exists>saved. r2 = Inr saved \<and> res = \<lparr>srQueued = length saved,
       srSent = length (filter (\<lambda>q. eOnline e (queuedKey q)) saved)\<rparr>
     \<and> st' = appendHistory e body st2 \<and> eff = deliverEffects e body saved"
    by (cases r2) (auto simp: sendMessage_def proto ops enq td_def [symmetric] split: sum.splits)
  then obtain saved where r2: "r2 = Inr saved" and res: "res = \<lparr>srQueued = length saved,
       srSent = length (filter (\<lambda>q. eOnline e (queuedKey q)) saved)\<rparr>"
    and st': "st' = appendHistory e body st2" and eff: "eff = deliverEffects e body saved" by blast
  have "saved = withIds (eIds e) td \<and> st2 = ?st1\<lparr>queue := queue st @ withIds (eIds e) td\<rparr>
      \<and> (td \<noteq> [] \<longrightarrow> (\<exists>row. findGroup g st = Some row \<and> gDeletedAt row = None))"
  proof (cases "td = []")
    case True
    with enq r2 have "saved = []" and "st2 = ?st1" by auto
    moreover have "?st1\<lparr>queue := queue st\<rparr> = ?st1" by (simp add: reconcileRouting_def sadd_def Let_def)
    ultimately show ?thesis using True by (simp add: withIds_def)
  next
    case False
    with enq r2 have "enqueueForLiveGroup (eIds e) td (sbGroup body) ?st1 = (Inr saved, st2)" by simp
    then show ?thesis
      by (cases rule: enqueue_cases) (use truthy False in \<open>auto simp: findGroup_def\<close>)
  qed
  then show "queue st' = queue st @ withIds (eIds e) td" and "srQueued res = length td"
    and "eff = deliverEffects e body (withIds (eIds e) td)"
    and "history st' = history (appendHistory e body st)"
    and "td \<noteq> [] \<Longrightarrow> \<exists>row. findGroup g st = Some row \<and> gDeletedAt row = None"
    by (auto simp: st' res eff appendHistory_def Let_def)
qed

definition colonFreeUsers :: "delivery \<Rightarrow> bool" where
  "colonFreeUsers st \<longleftrightarrow> (\<forall>m \<in> set (devices st). CHR '':'' \<notin> set (dUser m))
     \<and> (\<forall>k \<in> set (keyPackages st). CHR '':'' \<notin> set (kUser k))"

lemma live_iff:
  assumes "colonFreeUsers st" and "m \<in> set (activeMemberships g st)"
  shows "deviceKey m \<in> set (liveDeviceIds g st) \<longleftrightarrow>
    (\<exists>k \<in> set (keyPackages st). kUser k = dUser m \<and> kDevice k = dDevice m)"
proof
  assume "deviceKey m \<in> set (liveDeviceIds g st)"
  then obtain k where k: "k \<in> set (keyPackages st)"
    and eq: "memberKey (dUser m) (dDevice m) = memberKey (kUser k) (kDevice k)"
    by (auto simp: liveDeviceIds_def deviceKey_def)
  have "CHR '':'' \<notin> set (dUser m)" and "CHR '':'' \<notin> set (kUser k)"
    using assms k by (auto simp: colonFreeUsers_def activeMemberships_def)
  from memberKey_inject [OF this eq] k
  show "\<exists>k \<in> set (keyPackages st). kUser k = dUser m \<and> kDevice k = dDevice m" by auto
next
  assume "\<exists>k \<in> set (keyPackages st). kUser k = dUser m \<and> kDevice k = dDevice m"
  then obtain k where "k \<in> set (keyPackages st)" "kUser k = dUser m" "kDevice k = dDevice m" by blast
  with assms(2) show "deviceKey m \<in> set (liveDeviceIds g st)"
    by (force simp: liveDeviceIds_def deviceKey_def)
qed

lemma protoTargets_iff:
  assumes "colonFreeUsers st"
  shows "(u, d) \<in> (\<lambda>m. (dUser m, dDevice m)) ` set (protoTargets body g st) \<longleftrightarrow>
      (\<exists>m \<in> set (devices st). dUser m = u \<and> dDevice m = d \<and> dGroup m = g \<and> dStatus m = Active)
      \<and> (\<exists>k \<in> set (keyPackages st). kUser k = u \<and> kDevice k = d)
      \<and> \<not> (sbSender body = Some u \<and> sbSenderDevice body = Some d)
      \<and> memberKey u d \<notin> set (case sbExclude body of None \<Rightarrow> [] | Some ks \<Rightarrow> ks)"
proof -
  define ok where "ok u d \<longleftrightarrow> (\<exists>k \<in> set (keyPackages st). kUser k = u \<and> kDevice k = d)
      \<and> \<not> (sbSender body = Some u \<and> sbSenderDevice body = Some d)
      \<and> memberKey u d \<notin> set (case sbExclude body of None \<Rightarrow> [] | Some ks \<Rightarrow> ks)" for u d
  have "m \<in> set (protoTargets body g st) \<longleftrightarrow>
      m \<in> set (devices st) \<and> dGroup m = g \<and> dStatus m = Active \<and> ok (dUser m) (dDevice m)" for m
    using live_iff [OF assms, of m g]
    by (auto simp: ok_def protoTargets_def activeMemberships_def isSender_def deviceKey_def)
  then have "(u, d) \<in> (\<lambda>m. (dUser m, dDevice m)) ` set (protoTargets body g st) \<longleftrightarrow>
      (\<exists>m \<in> set (devices st). dUser m = u \<and> dDevice m = d \<and> dGroup m = g \<and> dStatus m = Active) \<and> ok u d"
    by blast
  then show ?thesis unfolding ok_def .
qed

definition recipientOf :: "queued_row \<Rightarrow> string \<times> string" where
  "recipientOf q = (qRecipient q, qDevice q)"

lemma recipients_withIds: "map recipientOf (withIds ids rows) = map recipientOf rows"
  by (rule withIds_map) (simp add: recipientOf_def)


definition emptyStore :: delivery where
  "emptyStore = \<lparr>groups = [], members = [], devices = [], queue = [], commitLog = [], groupInfos = [],
     invites = [], dismissed = [], keyPackages = [], oneTimeKeyPackages = [], pushTokens = [], pinVerifiers = [],
     revokedDevices = [], routing = (\<lambda>_. []), history = (\<lambda>_. []), pendingWelcome = (\<lambda>_. []), pendingNotify = (\<lambda>_. []),
     commitLock = (\<lambda>_. None), addLock = (\<lambda>_. None)\<rparr>"

definition demo_group :: "string \<Rightarrow> group_row" where
  "demo_group g = \<lparr>gId = g, gName = None, gImageMediaId = None, gIsGroup = True,
     gDistributionWorkspaceId = None, gDistributionChannelId = None, gActiveEpoch = 0,
     gDeletedAt = None, gUpdatedAt = 0\<rparr>"

definition demo_device :: "string \<Rightarrow> string \<Rightarrow> string \<Rightarrow> device_status \<Rightarrow> device_row" where
  "demo_device u d g s = \<lparr>dUser = u, dDevice = d, dGroup = g, dStatus = s, dKickedAt = None, dCreatedAt = 0\<rparr>"

definition demo_kp :: "string \<Rightarrow> string \<Rightarrow> kp_row" where
  "demo_kp u d = \<lparr>kUser = u, kDevice = d, kPayload = ''kp'', kName = None, kOs = None, kVersion = None, kCreatedAt = 0\<rparr>"

definition demo_member :: "string \<Rightarrow> string \<Rightarrow> member_row" where
  "demo_member g u = \<lparr>mGroup = g, mUser = u, mRole = Member, mJoinedAt = 0\<rparr>"

definition demo_store :: delivery where
  "demo_store = emptyStore\<lparr>groups := [demo_group ''g''],
     members := [demo_member ''g'' ''ann'', demo_member ''g'' ''bob'', demo_member ''g'' ''cat''],
     devices := [demo_device ''ann'' ''d1'' ''g'' Active, demo_device ''bob'' ''d2'' ''g'' Active,
                 demo_device ''cat'' ''d3'' ''g'' Pending],
     keyPackages := [demo_kp ''ann'' ''d1'', demo_kp ''bob'' ''d2'', demo_kp ''cat'' ''d3'']\<rparr>"

definition demo_env :: env where
  "demo_env = \<lparr>eNow = 1000, eOnline = (\<lambda>_. False), eIds = (\<lambda>n. replicate n CHR ''i''), eTrim = id\<rparr>"

definition demo_body :: "string \<Rightarrow> string \<Rightarrow> send_body" where
  "demo_body u d = \<lparr>sbGroup = Some ''g'', sbSender = Some u, sbSenderDevice = Some d,
     sbProto = Some ''AAAA'', sbIsWelcome = None, sbIsCommit = None, sbSilent = None, sbDurable = None,
     sbExclude = None, sbRecipients = None, sbContent = None, sbType = None\<rparr>"

lemmas demo_defs = demo_store_def emptyStore_def demo_group_def demo_device_def demo_kp_def demo_env_def
  demo_body_def demo_member_def

lemmas send_defs = sendMessage_def truthy_def orEmpty_def isTrue_def assertRequesterMatchesCaller_def
  sanitizeOptionalQueryValue_def protoOps_def senderGate_def isHandshake_def findDevice_def
  protoTargets_def activeMemberships_def liveDeviceIds_def deviceKey_def isSender_def
  reconcileRouting_def isDurable_def enqueueForLiveGroup_def findGroup_def withIds_def
  appendHistory_def writesHistory_def memberKey_def Let_def

lemma demo_send: "\<exists>res st' eff. sendMessage demo_env None (demo_body ''ann'' ''d1'') demo_store = (Inr res, st', eff)"
  by (simp add: send_defs demo_defs)


text \<open>
  A device that holds no leaf of the group sends nothing. A message that is not part of a
  handshake, from a device whose membership of the group is not active, is refused before anything is
  queued, recorded, published or pushed.
\<close>

theorem send_refused_without_leaf:
  assumes "assertRequesterMatchesCaller auth (orEmpty (sbSender body)) = Inr ()"
    and "truthy (sbProto body)" and "truthy (sbGroup body)" and "\<not> isHandshake body"
    and "truthy (sbSender body)" and "truthy (sbSenderDevice body)"
    and "findDevice (orEmpty (sbSenderDevice body)) (orEmpty (sbGroup body)) st = Some m"
    and "dStatus m \<noteq> Active"
  shows "sendMessage e auth body st = (Inl (Forbidden ''sender_not_active''), st, [])"
  using assms by (simp add: sendMessage_def protoOps_def senderGate_def)

theorem send_refused_without_leaf_witness:
  "sendMessage demo_env None (demo_body ''cat'' ''d3'') demo_store
     = (Inl (Forbidden ''sender_not_active''), demo_store, [])"
  by (rule send_refused_without_leaf [where m = "demo_device ''cat'' ''d3'' ''g'' Pending"])
    (simp_all add: send_defs demo_defs)

text \<open>
  A transport frame lives only now. A message declared not durable is queued only for recipients
  that are online, wakes nobody by push, and leaves the shared history as it was.
\<close>

theorem transport_frame_only_online:
  assumes "sendMessage e auth body st = (Inr res, st', eff)"
    and "truthy (sbProto body)" and "sbGroup body = Some g" and "g \<noteq> []" and "\<not> isDurable body"
  shows "\<exists>new. queue st' = queue st @ new
     \<and> (\<forall>q \<in> set new. eOnline e (queuedKey q))
     \<and> eff = map Publish new \<and> history st' = history st"
proof -
  let ?rows = "map (protoRow e body g) (protoTargets body g st)"
  let ?td = "filter (\<lambda>q. eOnline e (queuedKey q)) ?rows"
  let ?new = "withIds (eIds e) ?td"
  note inv = sendMessage_proto_Inr [OF assms(1-4), unfolded if_not_P [OF assms(5)]]
  have online: "eOnline e (queuedKey q)" if "q \<in> set ?new" for q
    using that by (elim withIds_mem) (auto simp: queuedKey_def)
  have "\<forall>q \<in> set rows. eOnline e (queuedKey q) \<Longrightarrow> deliverEffects e body rows = map Publish rows" for rows
    using assms(5) by (induction rows) (simp_all add: deliverEffects_def)
  from this [of ?new] online have "eff = map Publish ?new" unfolding inv(3) by blast
  moreover have "history st' = history st"
    using inv(4) assms(5) by (simp add: appendHistory_def writesHistory_def)
  ultimately show ?thesis using inv(1) online by (intro exI [of _ ?new] conjI ballI)
qed

theorem transport_frame_only_online_witness:
  "\<exists>res st' eff. sendMessage demo_env None ((demo_body ''ann'' ''d1'')\<lparr>sbDurable := Some False\<rparr>) demo_store
       = (Inr res, st', eff) \<and> eff = [] \<and> history st' = history demo_store"
proof -
  let ?body = "(demo_body ''ann'' ''d1'')\<lparr>sbDurable := Some False\<rparr>"
  have "\<exists>res st' eff. sendMessage demo_env None ?body demo_store = (Inr res, st', eff)"
    by (simp add: send_defs demo_defs)
  then obtain res st' eff where send: "sendMessage demo_env None ?body demo_store = (Inr res, st', eff)" by blast
  have "\<exists>new. queue st' = queue demo_store @ new
     \<and> (\<forall>q \<in> set new. eOnline demo_env (queuedKey q))
     \<and> eff = map Publish new \<and> history st' = history demo_store"
    by (rule transport_frame_only_online [OF send, where g = "''g''"]) (simp_all add: truthy_def isDurable_def demo_body_def)
  then obtain new where "\<forall>q \<in> set new. eOnline demo_env (queuedKey q)" "eff = map Publish new"
    "history st' = history demo_store" by blast
  moreover from this have "new = []" by (cases new) (auto simp: demo_env_def)
  ultimately show ?thesis using send by simp
qed

section \<open>Frames of activation and Welcome\<close>

interpretation device_table: unique_index deviceIndex
  "\<lambda>r. r\<lparr>dUser := u, dStatus := s, dKickedAt := k\<rparr>" for u s k
  by unfold_locales (simp add: deviceIndex_def)

lemma upsertDevice_sel [simp]:
  "groups (upsertDevice row st) = groups st" "members (upsertDevice row st) = members st"
  "queue (upsertDevice row st) = queue st" "commitLog (upsertDevice row st) = commitLog st"
  "groupInfos (upsertDevice row st) = groupInfos st" "keyPackages (upsertDevice row st) = keyPackages st"
  "routing (upsertDevice row st) = routing st" "history (upsertDevice row st) = history st"
  "commitLock (upsertDevice row st) = commitLock st" "revokedDevices (upsertDevice row st) = revokedDevices st"
  "dismissed (upsertDevice row st) = dismissed st" "pushTokens (upsertDevice row st) = pushTokens st"
  "pinVerifiers (upsertDevice row st) = pinVerifiers st"
  by (simp_all add: upsertDevice_def)

lemma upsertDevice_distinct:
  "distinct (map deviceIndex (devices st)) \<Longrightarrow> distinct (map deviceIndex (devices (upsertDevice row st)))"
  by (simp add: upsertDevice_def device_table.distinct_upsert_row)

lemma redeliver_grows:
  assumes "redeliverMissedDuringActivationWindow e u d g since st = (r, st', eff)" and "g \<noteq> []"
  shows "\<exists>new. queue_grows st st' new"
proof -
  define owed where "owed = filter (\<lambda>h. hContent h \<noteq> [] \<and> hSender h \<noteq> u \<and> \<not> hSilent h)
    (take 50 (filter (\<lambda>h. max (case since of None \<Rightarrow> 0 | Some t \<Rightarrow> t)
       (eNow e - ACTIVATION_REDELIVER_WINDOW_MS) \<le> hMs h) (history st g)))"
  define rows where "rows = map (\<lambda>h. \<lparr>qId = [], qRecipient = u, qDevice = d, qProto = Some (hContent h),
                    qIsWelcome = Some False, qIsCommit = Some False, qSender = Some (hSender h),
                    qSenderDevice = None, qGroup = Some g, qType = None, qContent = None,
                    qRatchetTree = None, qCreatedAt = eNow e\<rparr>) owed"
  have eq: "redeliverMissedDuringActivationWindow e u d g since st =
      (if rows = [] then (Inr (), st, [])
       else (case enqueueForLiveGroup (eIds e) rows (Some g) st of
                 (Inl err, st') \<Rightarrow> (Inl err, st', [])
               | (Inr saved, st') \<Rightarrow> (Inr (), st', map (\<lambda>q. Push q False) saved)))"
    unfolding redeliverMissedDuringActivationWindow_def Let_def rows_def owed_def ..
  show ?thesis
  proof (cases "rows = []")
    case True
    with assms(1) show ?thesis unfolding eq using queue_grows_refl by auto
  next
    case False
    obtain r2 st2 where enq: "enqueueForLiveGroup (eIds e) rows (Some g) st = (r2, st2)" by fastforce
    have "st' = st2" using assms(1) False unfolding eq enq by (cases r2) auto
    moreover have "\<exists>new. queue_grows st st2 new \<and> (\<forall>s. r2 = Inr s \<longrightarrow> new = s \<and> s = withIds (eIds e) rows)"
      by (rule enqueue_grows [OF enq]) (use assms(2) in \<open>auto simp: truthy_def orEmpty_def rows_def\<close>)
    ultimately show ?thesis by blast
  qed
qed

text \<open>What no fan-out, activation or Welcome writes.\<close>

definition stable :: "delivery \<Rightarrow> group_row list \<times> member_row list \<times> commit_row list \<times> ginfo_row list \<times> kp_row list
    \<times> revoked_row list \<times> dismissed_row list \<times> push_row list \<times> pin_row list \<times> (string \<Rightarrow> lock)" where
  "stable st = (groups st, members st, commitLog st, groupInfos st, keyPackages st, revokedDevices st, dismissed st,
     pushTokens st, pinVerifiers st, commitLock st)"

lemma stable_queue [simp]: "stable (st\<lparr>queue := q\<rparr>) = stable st"
  by (simp add: stable_def)

lemma stable_steps [simp]:
  "stable (sadd g ks st) = stable st" "stable (upsertDevice row st) = stable st"
  "stable (reconcileRouting g st) = stable st" "stable (appendHistory e body st) = stable st"
  by (simp_all add: stable_def)

lemma enqueue_stable: "enqueueForLiveGroup ids rows g st = (r, st') \<Longrightarrow> stable st' = stable st"
  by (erule enqueue_cases) simp_all

lemma protoOps_stable: "protoOps e body st = (r, st') \<Longrightarrow> stable st' = stable st"
  by (auto simp: protoOps_def Let_def split: if_splits sum.splits)

lemma sendMessage_stable:
  assumes "sendMessage e auth body st = (r, st', eff)"
  shows "stable st' = stable st" and "devices st' = devices st"
proof -
  obtain r1 st1 where ops: "(if truthy (sbProto body) then protoOps e body st else (legacyOps e body st, st)) = (r1, st1)"
    by fastforce
  have 1: "stable st1 = stable st \<and> devices st1 = devices st"
    using ops by (auto simp: protoOps_def Let_def split: if_splits sum.splits)
  have 2: "stable st2 = stable st \<and> devices st2 = devices st"
    if "(if td = [] then (Inr [], st1) else enqueueForLiveGroup (eIds e) td g st1) = (r2, st2)" for td g r2 st2
    using that 1 by (auto elim!: enqueue_cases split: if_splits)
  have "stable st' = stable st \<and> devices st' = devices st"
  proof (cases r1)
    case (Inl err)
    with assms 1 show ?thesis unfolding sendMessage_def ops by (auto split: sum.splits)
  next
    case (Inr rows)
    let ?td = "if isDurable body then rows else filter (\<lambda>q. eOnline e (queuedKey q)) rows"
    obtain r2 st2 where enq: "(if ?td = [] then (Inr [], st1)
        else enqueueForLiveGroup (eIds e) ?td (sbGroup body) st1) = (r2, st2)" by fastforce
    have "st' \<in> {st, st2, appendHistory e body st2}"
      using assms by (simp add: sendMessage_def ops Inr enq split: sum.splits)
    with 2 [OF enq] show ?thesis by auto
  qed
  then show "stable st' = stable st" and "devices st' = devices st" by auto
qed

lemma redeliver_stable:
  assumes "redeliverMissedDuringActivationWindow e u d g since st = (r, st', eff)"
  shows "stable st' = stable st" and "devices st' = devices st"
proof -
  have "st' = st \<or> (\<exists>rows r2. enqueueForLiveGroup (eIds e) rows (Some g) st = (r2, st'))"
    using assms unfolding redeliverMissedDuringActivationWindow_def Let_def
    by (auto split: if_splits prod.splits sum.splits)
  then show "stable st' = stable st" and "devices st' = devices st"
    by (auto elim!: enqueue_cases)
qed

lemma activate_stable:
  assumes "activateDeviceMembership e u d g rm st = (st', eff)"
  shows "stable st' = stable st"
  using assms unfolding activateDeviceMembership_def Let_def
  by (auto split: if_splits prod.splits dest!: redeliver_stable(1))

end
