(* ===== verification/Commit_Log.thy ===== *)
theory Commit_Log
  imports Send_Message
begin

text \<open>
  The epoch gate and the commit log (\<open>services/messaging.service.ts\<close>: validateCommit,
  getCommitsSince, putGroupInfo, storeGroupInfo, getGroupInfo, readGroupInfo, pruneExpiredCommitLog).
  Here every request runs alone; the requests that overlap are the subject of \<open>Commit_Race\<close>.
\<close>

section \<open>The published base\<close>

definition findInfo :: "string \<Rightarrow> delivery \<Rightarrow> ginfo_row option" where
  "findInfo g st = find (\<lambda>r. iGroup r = g) (groupInfos st)"

definition putGroupInfo :: "string \<Rightarrow> string \<Rightarrow> int \<Rightarrow> delivery \<Rightarrow> bool \<times> delivery" where
  "putGroupInfo g info base st =
     (case findInfo g st of
        None \<Rightarrow> (iGroup \<lparr>iGroup = g, iInfo = info, iBase = base\<rparr> \<notin> iGroup ` set (groupInfos st),
                 st\<lparr>groupInfos := insert_or_ignore iGroup \<lparr>iGroup = g, iInfo = info, iBase = base\<rparr> (groupInfos st)\<rparr>)
      | Some existing \<Rightarrow>
          if iBase existing \<ge> base then (False, st)
          else (list_ex (\<lambda>r. iGroup r = g \<and> iBase r < base) (groupInfos st),
                st\<lparr>groupInfos := update_where (\<lambda>r. iGroup r = g \<and> iBase r < base)
                     (\<lambda>r. r\<lparr>iInfo := info, iBase := base\<rparr>) (groupInfos st)\<rparr>))"

definition storeGroupInfo ::
  "string \<Rightarrow> string \<Rightarrow> string \<Rightarrow> int \<Rightarrow> delivery \<Rightarrow> (http_error, bool) result \<times> delivery" where
  "storeGroupInfo g requester info base st =
     (if findMember g requester st = None then (Inl (Forbidden ''not a member''), st)
      else (case putGroupInfo g info base st of (stored, st') \<Rightarrow> (Inr stored, st')))"

definition readGroupInfo :: "string \<Rightarrow> delivery \<Rightarrow> (string \<times> int \<times> int) option" where
  "readGroupInfo g st =
     (case findInfo g st of
        None \<Rightarrow> None
      | Some row \<Rightarrow> Some (iInfo row, iBase row,
          (case findGroup g st of None \<Rightarrow> iBase row | Some gr \<Rightarrow> int (gActiveEpoch gr))))"

definition getGroupInfo ::
  "string \<Rightarrow> string \<Rightarrow> delivery \<Rightarrow> (http_error, (string \<times> int \<times> int) option) result" where
  "getGroupInfo g requester st =
     (if findMember g requester st = None then Inl (Forbidden ''not a member'')
      else Inr (readGroupInfo g st))"

section \<open>The epoch gate\<close>

record commit_body =
  cbGroup :: "json option"
  cbDevice :: "json option"
  cbBaseEpoch :: "json option"
  cbProto :: "string option"
  cbSender :: "string option"
  cbExclude :: "string list option"
  cbGroupInfo :: "json option"

datatype commit_result =
    Accepted nat
  | Rejected nat string

definition baseEpochOf :: "json option \<Rightarrow> int" where
  "baseEpochOf v = (case v of Some (JNum r) \<Rightarrow> \<lfloor>r\<rfloor> | _ \<Rightarrow> - 1)"

definition commitIndex :: "commit_row \<Rightarrow> string \<times> nat" where
  "commitIndex r = (cGroup r, cBase r)"

definition setActiveEpoch :: "int \<Rightarrow> string \<Rightarrow> nat \<Rightarrow> delivery \<Rightarrow> delivery" where
  "setActiveEpoch t g ep st =
     st\<lparr>groups := update_where (\<lambda>r. gId r = g) (\<lambda>r. r\<lparr>gActiveEpoch := ep, gUpdatedAt := t\<rparr>) (groups st)\<rparr>"

text \<open>The transaction: the advance, the base and the replayable commit.\<close>

definition commitTransaction ::
  "int \<Rightarrow> string \<Rightarrow> nat \<Rightarrow> string \<Rightarrow> string \<Rightarrow> string option \<Rightarrow> delivery \<Rightarrow> delivery" where
  "commitTransaction t g base commit device newBase st =
     (let st1 = setActiveEpoch t g (base + 1) st;
          st2 = (case newBase of None \<Rightarrow> st1 | Some info \<Rightarrow> snd (putGroupInfo g info (int base + 1) st1))
      in st2\<lparr>commitLog := insert_or_ignore commitIndex
           \<lparr>cGroup = g, cBase = base, cCommit = commit, cSenderDevice = Some device, cCreatedAt = t\<rparr>
           (commitLog st2)\<rparr>)"

definition commitFanOutBody :: "string \<Rightarrow> string \<Rightarrow> commit_body \<Rightarrow> send_body" where
  "commitFanOutBody g device body =
     \<lparr>sbGroup = Some g, sbSender = cbSender body, sbSenderDevice = Some device, sbProto = cbProto body,
      sbIsWelcome = None, sbIsCommit = Some True, sbSilent = None, sbDurable = None,
      sbExclude = cbExclude body, sbRecipients = None, sbContent = None, sbType = None\<rparr>"

text \<open>What follows an accepted advance, under the lock: promotion of the sender, then fan-out.\<close>

definition commitFollowUp ::
  "env \<Rightarrow> string \<Rightarrow> string \<Rightarrow> commit_body \<Rightarrow> delivery \<Rightarrow> delivery \<times> delivery_effect list" where
  "commitFollowUp e g device body st =
     (let (st1, eff1) =
        (if truthy (cbSender body)
            \<and> (case findDevice device g st of None \<Rightarrow> True | Some m \<Rightarrow> dStatus m \<noteq> Active)
         then activateDeviceMembership e (orEmpty (cbSender body)) device g False st else (st, []))
      in case sendMessage e None (commitFanOutBody g device body) st1 of
           (_, st2, eff2) \<Rightarrow> (st2, eff1 @ eff2))"

text \<open>The checks on the request itself.\<close>

definition commitRequest :: "commit_body \<Rightarrow> (http_error, string \<times> string) result" where
  "commitRequest body =
     bind_r (sanitizeQueryValue (cbGroup body)) (\<lambda>g.
     bind_r (sanitizeQueryValue (cbDevice body)) (\<lambda>device.
       if baseEpochOf (cbBaseEpoch body) < 0 then Inl (BadRequest ''baseEpoch'')
       else if \<not> truthy (cbProto body) then Inl (BadRequest ''proto is required'')
       else Inr (g, device)))"

definition COMMIT_LOCK_TTL_MS :: int where
  "COMMIT_LOCK_TTL_MS = 5000"

definition validateCommit :: "env \<Rightarrow> commit_body \<Rightarrow> delivery \<Rightarrow> commit_result outcome" where
  "validateCommit e body st =
     (case commitRequest body of
        Inl err \<Rightarrow> (Inl err, st, [])
      | Inr (g, device) \<Rightarrow>
          (let base = nat (baseEpochOf (cbBaseEpoch body));
               current = (case findGroup g st of None \<Rightarrow> 0 | Some gr \<Rightarrow> gActiveEpoch gr);
               (acquired, l) = set_nx_ex (eNow e) COMMIT_LOCK_TTL_MS device (commitLock st g);
               release = (\<lambda>s. s\<lparr>commitLock := (commitLock s)(g := release_if (eNow e) device (commitLock s g))\<rparr>);
               st1 = st\<lparr>commitLock := (commitLock st)(g := l)\<rparr>
           in if \<not> acquired then (Inr (Rejected current ''concurrent_commit''), st, [])
              else (case findGroup g st of
                      None \<Rightarrow> (Inl (BadRequest ''group not found''), release st1, [])
                    | Some gr \<Rightarrow>
                        if base \<noteq> gActiveEpoch gr
                        then (Inr (Rejected (gActiveEpoch gr) ''epoch_mismatch''), release st1, [])
                        else
                          let newBase = (let s = strOrEmpty (cbGroupInfo body) in if s = [] then None else Some s);
                              st2 = commitTransaction (eNow e) g base (orEmpty (cbProto body)) device newBase st1;
                              (st3, eff) = commitFollowUp e g device body st2
                          in (Inr (Accepted (base + 1)), release st3, eff))))"

section \<open>Replay and pruning\<close>

record commits_since =
  csCommits :: "(nat \<times> string) list"
  csActiveEpoch :: nat
  csBelowFloor :: bool
  csGapAt :: "nat option"

text \<open>The walk up from \<open>expected\<close> over ascending rows: the applicable prefix, the first epoch missing
  before a later row, and where the walk stopped.\<close>

fun walkCommits :: "nat \<Rightarrow> commit_row list \<Rightarrow> (nat \<times> string) list \<times> nat option \<times> nat" where
  "walkCommits expected [] = ([], None, expected)"
| "walkCommits expected (r # rs) =
     (if cBase r > expected then ([], Some expected, expected)
      else (case walkCommits (cBase r + 1) rs of (cs, gap, fin) \<Rightarrow> ((cBase r, cCommit r) # cs, gap, fin)))"

definition getCommitsSince ::
  "string \<Rightarrow> nat \<Rightarrow> string \<Rightarrow> delivery \<Rightarrow> (http_error, commits_since) result" where
  "getCommitsSince g since requester st =
     (if findMember g requester st = None then Inl (Forbidden ''not a member'')
      else
        let active = (case findGroup g st of None \<Rightarrow> 0 | Some gr \<Rightarrow> gActiveEpoch gr);
            own = sort_key cBase (filter (\<lambda>r. cGroup r = g) (commitLog st));
            rows = filter (\<lambda>r. cBase r \<ge> since) own;
            belowFloor = (since < active \<and> own \<noteq> [] \<and> cBase (hd own) > since);
            (applicable, gap, expected) = walkCommits since rows;
            gap1 = (if gap = None \<and> expected < active then Some expected else gap);
            gap2 = (if belowFloor then None else gap1)
        in Inr \<lparr>csCommits = applicable, csActiveEpoch = active, csBelowFloor = belowFloor, csGapAt = gap2\<rparr>)"

definition pruneExpiredCommitLog :: "int \<Rightarrow> delivery \<Rightarrow> nat \<times> delivery" where
  "pruneExpiredCommitLog t st =
     (let old = (\<lambda>r. cCreatedAt r < t - COMMIT_LOG_RETENTION_MS);
          over = (\<lambda>r. list_ex (\<lambda>gr. gId gr = cGroup r
                    \<and> int (cBase r) < int (gActiveEpoch gr) - int COMMIT_LOG_MAX_PER_GROUP) (groups st))
      in (countIn old (commitLog st),
          st\<lparr>commitLog := delete_where over (delete_where old (commitLog st))\<rparr>))"

section \<open>The published base has one owner per epoch\<close>

interpretation info_table: unique_index iGroup "\<lambda>r. r\<lparr>iInfo := info, iBase := base\<rparr>" for info base
  by unfold_locales simp

lemma putGroupInfo_sel [simp]:
  "groups (snd (putGroupInfo g info b st)) = groups st" "members (snd (putGroupInfo g info b st)) = members st"
  "devices (snd (putGroupInfo g info b st)) = devices st" "queue (snd (putGroupInfo g info b st)) = queue st"
  "commitLog (snd (putGroupInfo g info b st)) = commitLog st"
  "keyPackages (snd (putGroupInfo g info b st)) = keyPackages st"
  "revokedDevices (snd (putGroupInfo g info b st)) = revokedDevices st"
  "commitLock (snd (putGroupInfo g info b st)) = commitLock st"
  by (simp_all add: putGroupInfo_def split: option.splits)

lemma find_update_where:
  assumes "\<And>r. p (f r) = p r"
  shows "find p (update_where q f rs) = map_option (\<lambda>r. if q r then f r else r) (find p rs)"
  by (induction rs) (simp_all add: update_where_def assms)

lemma findInfo_None: "findInfo g st = None \<longleftrightarrow> g \<notin> iGroup ` set (groupInfos st)"
  by (simp add: findInfo_def find_None_iff image_iff) metis

lemma findInfo_Some: "findInfo g st = Some r \<Longrightarrow> r \<in> set (groupInfos st) \<and> iGroup r = g"
  unfolding findInfo_def by (rule find_Some_iff_mem)

lemma putGroupInfo_None:
  assumes "findInfo g st = None"
  shows "fst (putGroupInfo g info b st)"
    and "findInfo h (snd (putGroupInfo g info b st)) =
      (if h = g then Some \<lparr>iGroup = g, iInfo = info, iBase = b\<rparr> else findInfo h st)"
proof -
  have g: "g \<notin> iGroup ` set (groupInfos st)" using assms unfolding findInfo_None .
  then show "fst (putGroupInfo g info b st)" by (simp add: putGroupInfo_def assms)
  have "groupInfos (snd (putGroupInfo g info b st)) = groupInfos st @ [\<lparr>iGroup = g, iInfo = info, iBase = b\<rparr>]"
    using g by (simp add: putGroupInfo_def assms insert_or_ignore_def)
  then have "findInfo h (snd (putGroupInfo g info b st)) =
      (case findInfo h st of None \<Rightarrow> if g = h then Some \<lparr>iGroup = g, iInfo = info, iBase = b\<rparr> else None | Some y \<Rightarrow> Some y)"
    by (simp add: findInfo_def find_append_new)
  with assms show "findInfo h (snd (putGroupInfo g info b st)) =
      (if h = g then Some \<lparr>iGroup = g, iInfo = info, iBase = b\<rparr> else findInfo h st)"
    by (cases "h = g") (simp_all split: option.splits)
qed

lemma putGroupInfo_Some:
  assumes "findInfo g st = Some r"
  shows "fst (putGroupInfo g info b st) \<longleftrightarrow> iBase r < b"
    and "findInfo h (snd (putGroupInfo g info b st)) =
      (if h = g \<and> iBase r < b then Some \<lparr>iGroup = g, iInfo = info, iBase = b\<rparr> else findInfo h st)"
proof -
  note r = findInfo_Some [OF assms]
  have "list_ex (\<lambda>r. iGroup r = g \<and> iBase r < b) (groupInfos st)" if "iBase r < b"
    using r that unfolding list_ex_iff by blast
  then show "fst (putGroupInfo g info b st) \<longleftrightarrow> iBase r < b"
    by (simp add: putGroupInfo_def assms)
  show "findInfo h (snd (putGroupInfo g info b st)) =
      (if h = g \<and> iBase r < b then Some \<lparr>iGroup = g, iInfo = info, iBase = b\<rparr> else findInfo h st)"
  proof (cases "iBase r < b")
    case True
    then have eq: "findInfo h (snd (putGroupInfo g info b st)) =
        map_option (\<lambda>r. if iGroup r = g \<and> iBase r < b then r\<lparr>iInfo := info, iBase := b\<rparr> else r) (findInfo h st)"
      by (simp add: putGroupInfo_def assms findInfo_def [of h] find_update_where)
    show ?thesis
    proof (cases "h = g")
      case hg: True
      with eq assms r True show ?thesis by simp
    next
      case False
      have "iGroup r' \<noteq> g" if "findInfo h st = Some r'" for r'
        using findInfo_Some [OF that] False by simp
      with eq False show ?thesis by (cases "findInfo h st") simp_all
    qed
  next
    case False
    with assms show ?thesis by (simp add: putGroupInfo_def)
  qed
qed

text \<open>A sequence of publications for one group, and the answers they get.\<close>

fun publications :: "string \<Rightarrow> (string \<times> int) list \<Rightarrow> delivery \<Rightarrow> bool list" where
  "publications g [] st = []"
| "publications g ((info, b) # ps) st =
     (case putGroupInfo g info b st of (stored, st') \<Rightarrow> stored # publications g ps st')"

definition storedEpochs :: "string \<Rightarrow> (string \<times> int) list \<Rightarrow> delivery \<Rightarrow> int list" where
  "storedEpochs g ps st = map (\<lambda>(s, i, b). b) (filter fst (zip (publications g ps st) ps))"

lemma storedEpochs_Cons:
  "storedEpochs g ((info, b) # ps) st =
     (if fst (putGroupInfo g info b st) then [b] else []) @ storedEpochs g ps (snd (putGroupInfo g info b st))"
  by (simp add: storedEpochs_def split: prod.splits)

lemma storedEpochs_above:
  "findInfo g st = Some r \<Longrightarrow> \<forall>b \<in> set (storedEpochs g ps st). iBase r < b"
proof (induction ps arbitrary: st r)
  case Nil
  then show ?case by (simp add: storedEpochs_def)
next
  case (Cons p ps)
  obtain info b where p: "p = (info, b)" by fastforce
  note put = putGroupInfo_Some [OF Cons.prems, where info = info and b = b]
  show ?case
  proof (cases "iBase r < b")
    case True
    then have "findInfo g (snd (putGroupInfo g info b st)) = Some \<lparr>iGroup = g, iInfo = info, iBase = b\<rparr>"
      using put by simp
    from Cons.IH [OF this] True put(1) show ?thesis by (auto simp: p storedEpochs_Cons)
  next
    case False
    then have "findInfo g (snd (putGroupInfo g info b st)) = Some r" using put Cons.prems by simp
    from Cons.IH [OF this] False put(1) show ?thesis by (simp add: p storedEpochs_Cons)
  qed
qed

text \<open>
  C24: Publishing the base of a group is an election. Whatever publications follow one another, the
  epochs of those that were told they were stored increase strictly, so two devices that create a tree
  for the same epoch are never both told that they own it.
\<close>

theorem one_owner_per_epoch: "sorted_wrt (<) (storedEpochs g ps st)"
proof (induction ps arbitrary: st)
  case Nil
  show ?case by (simp add: storedEpochs_def)
next
  case (Cons p ps)
  obtain info b where p: "p = (info, b)" by fastforce
  let ?st' = "snd (putGroupInfo g info b st)"
  have "\<forall>c \<in> set (storedEpochs g ps ?st'). b < c" if "fst (putGroupInfo g info b st)"
  proof -
    have "findInfo g ?st' = Some \<lparr>iGroup = g, iInfo = info, iBase = b\<rparr>"
    proof (cases "findInfo g st")
      case None
      then show ?thesis by (simp add: putGroupInfo_None(2))
    next
      case (Some r)
      with that show ?thesis by (simp add: putGroupInfo_Some)
    qed
    from storedEpochs_above [OF this] show ?thesis by simp
  qed
  then show ?case using Cons.IH by (simp add: p storedEpochs_Cons)
qed

section \<open>The epoch gate lets one commit through per epoch\<close>

lemma commitTransaction_sel [simp]:
  "groups (commitTransaction t g b c d nb st) = update_where (\<lambda>r. gId r = g) (\<lambda>r. r\<lparr>gActiveEpoch := b + 1, gUpdatedAt := t\<rparr>) (groups st)"
  "commitLog (commitTransaction t g b c d nb st) = insert_or_ignore commitIndex
     \<lparr>cGroup = g, cBase = b, cCommit = c, cSenderDevice = Some d, cCreatedAt = t\<rparr> (commitLog st)"
  "queue (commitTransaction t g b c d nb st) = queue st" "members (commitTransaction t g b c d nb st) = members st"
  "devices (commitTransaction t g b c d nb st) = devices st"
  "keyPackages (commitTransaction t g b c d nb st) = keyPackages st"
  "revokedDevices (commitTransaction t g b c d nb st) = revokedDevices st"
  "commitLock (commitTransaction t g b c d nb st) = commitLock st"
  "groupInfos (commitTransaction t g b c d nb st) =
     (case nb of None \<Rightarrow> groupInfos st | Some info \<Rightarrow> groupInfos (snd (putGroupInfo g info (int b + 1) st)))"
proof -
  have "groupInfos (snd (putGroupInfo g info x (setActiveEpoch z g y st))) = groupInfos (snd (putGroupInfo g info x st))"
    for info x y z by (simp add: putGroupInfo_def setActiveEpoch_def findInfo_def split: option.splits)
  then show "groupInfos (commitTransaction t g b c d nb st) =
     (case nb of None \<Rightarrow> groupInfos st | Some info \<Rightarrow> groupInfos (snd (putGroupInfo g info (int b + 1) st)))"
    by (simp add: commitTransaction_def Let_def setActiveEpoch_def split: option.splits)
qed (simp_all add: commitTransaction_def Let_def setActiveEpoch_def split: option.splits)

lemma commitFollowUp_stable:
  assumes "commitFollowUp e g d body st = (st', eff)"
  shows "stable st' = stable st"
proof -
  define promote where "promote \<longleftrightarrow> truthy (cbSender body)
      \<and> (case findDevice d g st of None \<Rightarrow> True | Some m \<Rightarrow> dStatus m \<noteq> Active)"
  obtain st1 eff1 where 1: "(if promote
         then activateDeviceMembership e (orEmpty (cbSender body)) d g False st else (st, [])) = (st1, eff1)"
    by fastforce
  obtain r st2 eff2 where 2: "sendMessage e None (commitFanOutBody g d body) st1 = (r, st2, eff2)" by (metis prod_cases3)
  have "stable st1 = stable st" using 1 activate_stable by (auto split: if_splits)
  moreover have "st' = st2" using assms by (simp add: commitFollowUp_def promote_def [symmetric] 1 2)
  ultimately show ?thesis using sendMessage_stable(1) [OF 2] by simp
qed

text \<open>The state an accepted commit leaves, and the answer for each request.\<close>

definition commitEpoch :: "commit_body \<Rightarrow> nat" where
  "commitEpoch body = nat (baseEpochOf (cbBaseEpoch body))"

definition publishedBase :: "commit_body \<Rightarrow> string option" where
  "publishedBase body = (let s = strOrEmpty (cbGroupInfo body) in if s = [] then None else Some s)"

lemma validateCommit_cases:
  assumes "commitRequest body = Inr (g, d)"
  shows "validateCommit e body st =
    (let st1 = st\<lparr>commitLock := (commitLock st)(g := Some (d, eNow e + COMMIT_LOCK_TTL_MS))\<rparr>;
         free = (\<lambda>s. s\<lparr>commitLock := (commitLock s)(g := release_if (eNow e) d (commitLock s g))\<rparr>)
     in if \<not> lock_free (eNow e) (commitLock st g)
        then (Inr (Rejected (case findGroup g st of None \<Rightarrow> 0 | Some gr \<Rightarrow> gActiveEpoch gr) ''concurrent_commit''), st, [])
        else case findGroup g st of
          None \<Rightarrow> (Inl (BadRequest ''group not found''), free st1, [])
        | Some gr \<Rightarrow> if commitEpoch body \<noteq> gActiveEpoch gr
            then (Inr (Rejected (gActiveEpoch gr) ''epoch_mismatch''), free st1, [])
            else (case commitFollowUp e g d body (commitTransaction (eNow e) g (commitEpoch body)
                      (orEmpty (cbProto body)) d (publishedBase body) st1) of
                    (st3, eff) \<Rightarrow> (Inr (Accepted (commitEpoch body + 1)), free st3, eff)))"
  by (simp add: validateCommit_def assms set_nx_ex_def commitEpoch_def publishedBase_def Let_def
      split: option.splits prod.splits)

lemma release_own: "release_if t d (Some (d, t + COMMIT_LOCK_TTL_MS)) = None"
  by (simp add: release_if_def COMMIT_LOCK_TTL_MS_def)

lemma findGroup_advance:
  "find (\<lambda>r. gId r = h) (update_where (\<lambda>r. gId r = g) (\<lambda>r. r\<lparr>gActiveEpoch := n, gUpdatedAt := t\<rparr>) rs) =
     map_option (\<lambda>r. if h = g then r\<lparr>gActiveEpoch := n, gUpdatedAt := t\<rparr> else r) (find (\<lambda>r. gId r = h) rs)"
  by (induction rs) (auto simp: update_where_def)

lemma validateCommit_accept:
  assumes req: "commitRequest body = Inr (g, d)" and free: "lock_free (eNow e) (commitLock st g)"
    and gr: "findGroup g st = Some gr" and base: "commitEpoch body = gActiveEpoch gr"
  shows "\<exists>st' eff. validateCommit e body st = (Inr (Accepted (gActiveEpoch gr + 1)), st', eff)
    \<and> groups st' = update_where (\<lambda>r. gId r = g) (\<lambda>r. r\<lparr>gActiveEpoch := gActiveEpoch gr + 1, gUpdatedAt := eNow e\<rparr>) (groups st)
    \<and> commitLog st' = insert_or_ignore commitIndex
         \<lparr>cGroup = g, cBase = gActiveEpoch gr, cCommit = orEmpty (cbProto body), cSenderDevice = Some d,
          cCreatedAt = eNow e\<rparr> (commitLog st)
    \<and> groupInfos st' = (case publishedBase body of None \<Rightarrow> groupInfos st
         | Some info \<Rightarrow> groupInfos (snd (putGroupInfo g info (int (gActiveEpoch gr) + 1) st)))
    \<and> members st' = members st \<and> keyPackages st' = keyPackages st
    \<and> commitLock st' = (commitLock st)(g := None)"
proof -
  define st1 where "st1 = st\<lparr>commitLock := (commitLock st)(g := Some (d, eNow e + COMMIT_LOCK_TTL_MS))\<rparr>"
  define st2 where "st2 = commitTransaction (eNow e) g (gActiveEpoch gr) (orEmpty (cbProto body)) d (publishedBase body) st1"
  obtain st3 eff where follow: "commitFollowUp e g d body st2 = (st3, eff)" by fastforce
  let ?st' = "st3\<lparr>commitLock := (commitLock st3)(g := release_if (eNow e) d (commitLock st3 g))\<rparr>"
  have run: "validateCommit e body st = (Inr (Accepted (gActiveEpoch gr + 1)), ?st', eff)"
    using free gr base follow by (simp add: validateCommit_cases [OF req] st1_def st2_def Let_def)
  have "stable st3 = stable st2" by (rule commitFollowUp_stable [OF follow])
  then have st3: "groups st3 = groups st2" "commitLog st3 = commitLog st2" "groupInfos st3 = groupInfos st2"
    "members st3 = members st2" "keyPackages st3 = keyPackages st2" "commitLock st3 = commitLock st2"
    by (simp_all add: stable_def)
  have info: "groupInfos (snd (putGroupInfo g i b st1)) = groupInfos (snd (putGroupInfo g i b st))" for i b
    by (simp add: st1_def putGroupInfo_def findInfo_def split: option.splits)
  have info': "(case publishedBase body of None \<Rightarrow> groupInfos st1 | Some i \<Rightarrow> groupInfos (snd (putGroupInfo g i b st1)))
      = (case publishedBase body of None \<Rightarrow> groupInfos st | Some i \<Rightarrow> groupInfos (snd (putGroupInfo g i b st)))" for b
    by (cases "publishedBase body") (simp_all add: info, simp add: st1_def)
  have st1': "groups st1 = groups st" "commitLog st1 = commitLog st" "members st1 = members st"
    "keyPackages st1 = keyPackages st" by (simp_all add: st1_def)
  have lock: "commitLock ?st' = (commitLock st)(g := None)"
    by (simp add: st3 st2_def) (simp add: st1_def release_own)
  show ?thesis
    by (rule exI [of _ ?st'], rule exI [of _ eff])
      (simp only: run lock, simp add: st3 st2_def info' st1')
qed

lemma published_base:
  assumes "groupInfos st' = (case nb of None \<Rightarrow> groupInfos st
      | Some info \<Rightarrow> groupInfos (snd (putGroupInfo g info (int k + 1) st)))" and "n = Suc k"
  shows "findInfo h st' =
    (case nb of
       Some info \<Rightarrow>
         if h = g \<and> (\<nexists>i. findInfo g st = Some i \<and> int n \<le> iBase i)
         then Some \<lparr>iGroup = g, iInfo = info, iBase = int n\<rparr> else findInfo h st
     | None \<Rightarrow> findInfo h st)"
proof (cases nb)
  case None
  with assms show ?thesis by (simp add: findInfo_def)
next
  case (Some info)
  with assms have "findInfo h st' = findInfo h (snd (putGroupInfo g info (int n) st))"
    by (simp add: findInfo_def add.commute)
  with Some show ?thesis
    by (cases "findInfo g st") (simp_all add: putGroupInfo_None(2) putGroupInfo_Some(2) not_le)
qed

lemma validateCommit_refuse:
  assumes "\<nexists>g d gr. commitRequest body = Inr (g, d) \<and> lock_free (eNow e) (commitLock st g)
      \<and> findGroup g st = Some gr \<and> commitEpoch body = gActiveEpoch gr"
  shows "\<exists>r l. validateCommit e body st = (r, st\<lparr>commitLock := l\<rparr>, []) \<and> (\<forall>n. r \<noteq> Inr (Accepted n))
    \<and> (\<forall>h. l h = commitLock st h \<or> lock_free (eNow e) (commitLock st h) \<and> l h = None)"
proof (cases "commitRequest body")
  case (Inl err)
  then have "validateCommit e body st = (Inl err, st\<lparr>commitLock := commitLock st\<rparr>, [])" by (simp add: validateCommit_def)
  then show ?thesis by blast
next
  case (Inr gd)
  obtain g d where gd: "commitRequest body = Inr (g, d)" using Inr by (cases gd) simp
  let ?l = "(commitLock st)(g := None)"
  consider "\<not> lock_free (eNow e) (commitLock st g)"
    | "lock_free (eNow e) (commitLock st g)" "findGroup g st = None"
    | gr where "lock_free (eNow e) (commitLock st g)" "findGroup g st = Some gr" "commitEpoch body \<noteq> gActiveEpoch gr"
    using assms gd by (cases "findGroup g st") auto
  then show ?thesis
  proof cases
    case 1
    then have "validateCommit e body st = (Inr (Rejected (case findGroup g st of None \<Rightarrow> 0 | Some gr \<Rightarrow> gActiveEpoch gr)
        ''concurrent_commit''), st\<lparr>commitLock := commitLock st\<rparr>, [])"
      by (simp add: validateCommit_cases [OF gd])
    then show ?thesis by blast
  next
    case 2
    then have l: "\<forall>h. ?l h = commitLock st h \<or> lock_free (eNow e) (commitLock st h) \<and> ?l h = None" by simp
    from 2 have "validateCommit e body st = (Inl (BadRequest ''group not found''), st\<lparr>commitLock := ?l\<rparr>, [])"
      by (simp add: validateCommit_cases [OF gd] release_own)
    with l show ?thesis by blast
  next
    case 3
    then have l: "\<forall>h. ?l h = commitLock st h \<or> lock_free (eNow e) (commitLock st h) \<and> ?l h = None" by simp
    from 3 have "validateCommit e body st = (Inr (Rejected (gActiveEpoch gr) ''epoch_mismatch''), st\<lparr>commitLock := ?l\<rparr>, [])"
      by (simp add: validateCommit_cases [OF gd] release_own)
    with l show ?thesis by blast
  qed
qed

text \<open>
  C3: The epoch gate. A commit is accepted exactly when it is well formed, the lock of its group is
  free, the group exists and the commit builds on the epoch the group is at. The group then is one
  epoch further and the commit is in the log under the epoch it builds on, the only row the log gains
  (none if the log already held that epoch). A base that travels with it becomes the published base of
  the next epoch, unless one as recent is published already; without one the published base stays. The
  row and the base of every other group are as before, and the lock of the group alone is released. A
  commit that is refused changes no table, queues nothing, sends nothing and leaves every lock as it
  was, but for a lock that had expired, which may be gone.
\<close>

theorem commit_gate:
  assumes "validateCommit e body st = (r, st', eff)"
  shows "((\<exists>n. r = Inr (Accepted n)) \<longleftrightarrow>
      (\<exists>g d gr. commitRequest body = Inr (g, d) \<and> lock_free (eNow e) (commitLock st g)
         \<and> findGroup g st = Some gr \<and> commitEpoch body = gActiveEpoch gr))
    \<and> (\<forall>n g d. r = Inr (Accepted n) \<and> commitRequest body = Inr (g, d) \<longrightarrow>
         n = commitEpoch body + 1
         \<and> map_option gActiveEpoch (findGroup g st') = Some n
         \<and> (\<forall>h. h \<noteq> g \<longrightarrow> findGroup h st' = findGroup h st)
         \<and> (\<exists>row \<in> set (commitLog st'). cGroup row = g \<and> cBase row = commitEpoch body)
         \<and> (\<forall>row \<in> set (commitLog st') - set (commitLog st). cGroup row = g \<and> cBase row = commitEpoch body
              \<and> Some (cCommit row) = cbProto body \<and> cSenderDevice row = Some d \<and> cCreatedAt row = eNow e)
         \<and> set (commitLog st) \<subseteq> set (commitLog st')
         \<and> (\<forall>h. findInfo h st' =
              (case publishedBase body of
                 Some info \<Rightarrow>
                   if h = g \<and> (\<nexists>i. findInfo g st = Some i \<and> int n \<le> iBase i)
                   then Some \<lparr>iGroup = g, iInfo = info, iBase = int n\<rparr> else findInfo h st
               | None \<Rightarrow> findInfo h st))
         \<and> commitLock st' = (commitLock st)(g := None))
    \<and> ((\<nexists>n. r = Inr (Accepted n)) \<longrightarrow> eff = [] \<and>
         (\<exists>l. st' = st\<lparr>commitLock := l\<rparr>
            \<and> (\<forall>h. l h = commitLock st h \<or> lock_free (eNow e) (commitLock st h) \<and> l h = None)))"
proof (cases "\<exists>g d gr. commitRequest body = Inr (g, d) \<and> lock_free (eNow e) (commitLock st g)
         \<and> findGroup g st = Some gr \<and> commitEpoch body = gActiveEpoch gr")
  case True
  then obtain g d gr where ok: "commitRequest body = Inr (g, d)" "lock_free (eNow e) (commitLock st g)"
    "findGroup g st = Some gr" "commitEpoch body = gActiveEpoch gr" by blast
  from validateCommit_accept [OF ok] assms
  have r: "r = Inr (Accepted (gActiveEpoch gr + 1))"
    and groups': "groups st' = update_where (\<lambda>r. gId r = g) (\<lambda>r. r\<lparr>gActiveEpoch := gActiveEpoch gr + 1, gUpdatedAt := eNow e\<rparr>) (groups st)"
    and log': "commitLog st' = insert_or_ignore commitIndex
         \<lparr>cGroup = g, cBase = gActiveEpoch gr, cCommit = orEmpty (cbProto body), cSenderDevice = Some d,
          cCreatedAt = eNow e\<rparr> (commitLog st)"
    and infos': "groupInfos st' = (case publishedBase body of None \<Rightarrow> groupInfos st
         | Some info \<Rightarrow> groupInfos (snd (putGroupInfo g info (int (gActiveEpoch gr) + 1) st)))"
    and lock': "commitLock st' = (commitLock st)(g := None)"
    by (metis Pair_inject)+
  have proto: "cbProto body = Some (orEmpty (cbProto body))"
    using ok(1) by (auto simp: commitRequest_def result_simps truthy_def orEmpty_def split: if_splits option.splits)
  have found: "findGroup h st' = (if h = g then Some (gr\<lparr>gActiveEpoch := gActiveEpoch gr + 1, gUpdatedAt := eNow e\<rparr>) else findGroup h st)" for h
    using ok(3) by (cases "h = g") (simp_all add: findGroup_def groups' findGroup_advance option.map_ident)
  have "\<exists>row \<in> set (commitLog st'). cGroup row = g \<and> cBase row = gActiveEpoch gr"
    unfolding log' by (auto simp: insert_or_ignore_def commitIndex_def)
  moreover have "cGroup row = g \<and> cBase row = gActiveEpoch gr \<and> Some (cCommit row) = cbProto body \<and> cSenderDevice row = Some d \<and> cCreatedAt row = eNow e"
    if "row \<in> set (commitLog st') - set (commitLog st)" for row
    using that proto unfolding log' by (auto simp: insert_or_ignore_def split: if_splits)
  moreover have "set (commitLog st) \<subseteq> set (commitLog st')" unfolding log' by (auto simp: insert_or_ignore_def)
  moreover have "map_option gActiveEpoch (findGroup g st') = Some (gActiveEpoch gr + 1)" by (simp add: found)
  moreover have "\<forall>h. h \<noteq> g \<longrightarrow> findGroup h st' = findGroup h st" by (simp add: found)
  moreover note published_base [OF infos' refl]
  ultimately show ?thesis using True ok(1) lock' unfolding r ok(4) by auto
next
  case False
  from validateCommit_refuse [OF False] assms
  have "\<exists>l. st' = st\<lparr>commitLock := l\<rparr>
      \<and> (\<forall>h. l h = commitLock st h \<or> lock_free (eNow e) (commitLock st h) \<and> l h = None)"
    "eff = []" "\<forall>n. r \<noteq> Inr (Accepted n)" by auto
  with False show ?thesis by blast
qed

definition demo_commit :: commit_body where
  "demo_commit = \<lparr>cbGroup = Some (JStr ''g''), cbDevice = Some (JStr ''d1''), cbBaseEpoch = Some (JNum 0),
     cbProto = Some ''AAAA'', cbSender = Some ''ann'', cbExclude = None, cbGroupInfo = None\<rparr>"

lemma demo_commit_request: "commitRequest demo_commit = Inr (''g'', ''d1'')"
  by (simp add: commitRequest_def demo_commit_def sanitizeQueryValue_def SAFE_QUERY_VALUE_REGEX_def
      safe_char_def alnum_def trim_def js_ws_def baseEpochOf_def truthy_def result_simps)

theorem commit_gate_witness:
  "\<exists>st' eff. validateCommit demo_env demo_commit demo_store = (Inr (Accepted 1), st', eff)
     \<and> map_option gActiveEpoch (findGroup ''g'' st') = Some 1"
proof -
  obtain r st' eff where run: "validateCommit demo_env demo_commit demo_store = (r, st', eff)"
    by (metis prod_cases3)
  have base: "commitEpoch demo_commit = 0" by (simp add: commitEpoch_def baseEpochOf_def demo_commit_def)
  have "lock_free (eNow demo_env) (commitLock demo_store ''g'')"
    "findGroup ''g'' demo_store = Some (demo_group ''g'')" "gActiveEpoch (demo_group ''g'') = 0"
    by (simp_all add: lock_free_def findGroup_def demo_defs)
  with base commit_gate [OF run] demo_commit_request obtain n where r: "r = Inr (Accepted n)" by fastforce
  with commit_gate [OF run] demo_commit_request base
  have "n = 1" "map_option gActiveEpoch (findGroup ''g'' st') = Some 1" by auto
  with run r show ?thesis by blast
qed

section \<open>What a replay hands back\<close>

lemma walkCommits_spec:
  assumes "sorted_wrt (<) (map cBase rows)" and "\<forall>r \<in> set rows. k \<le> cBase r"
    and "walkCommits k rows = (cs, gap, fin)"
  shows "k \<le> fin \<and> map fst cs = [k..<fin] \<and> set cs \<subseteq> (\<lambda>r. (cBase r, cCommit r)) ` set rows
    \<and> fin \<notin> cBase ` set rows \<and> gap = (if \<exists>r \<in> set rows. fin < cBase r then Some fin else None)"
  using assms
proof (induction rows arbitrary: k cs)
  case Nil
  then show ?case by simp
next
  case (Cons r rs)
  have above: "\<forall>r' \<in> set rs. cBase r < cBase r'" using Cons.prems(1) by simp
  show ?case
  proof (cases "cBase r > k")
    case True
    then have "cs = []" "gap = Some k" "fin = k" using Cons.prems(3) by auto
    then show ?thesis using True above by fastforce
  next
    case False
    then have r: "cBase r = k" using Cons.prems(2) by simp
    obtain cs' where rec: "walkCommits (k + 1) rs = (cs', gap, fin)" and cs: "cs = (k, cCommit r) # cs'"
      using Cons.prems(3) r by (auto split: prod.splits)
    have rs: "\<forall>r \<in> set rs. k + 1 \<le> cBase r" using above r by (simp add: Suc_leI)
    have IH: "k + 1 \<le> fin" "map fst cs' = [k + 1..<fin]" "set cs' \<subseteq> (\<lambda>r. (cBase r, cCommit r)) ` set rs"
      "fin \<notin> cBase ` set rs" "gap = (if \<exists>r \<in> set rs. fin < cBase r then Some fin else None)"
      using Cons.IH [OF _ rs rec] Cons.prems(1) by simp_all
    have "map fst cs = [k..<fin]" using IH(1,2) by (simp add: cs upt_conv_Cons)
    then show ?thesis using IH r by (auto simp: cs)
  qed
qed

lemma own_commits:
  fixes g :: string
  assumes "distinct (map commitIndex (commitLog st))"
  defines "own \<equiv> sort_key cBase (filter (\<lambda>r. cGroup r = g) (commitLog st))"
  shows "sorted_wrt (<) (map cBase own)" and "set own = {r \<in> set (commitLog st). cGroup r = g}"
proof -
  have "distinct (map commitIndex (filter (\<lambda>r. cGroup r = g) (commitLog st)))"
    using assms by (simp add: distinct_map_filter)
  then have "distinct (map cBase (filter (\<lambda>r. cGroup r = g) (commitLog st)))"
    by (auto simp: distinct_map inj_on_def commitIndex_def)
  then have "distinct (map cBase own)" unfolding own_def by (simp add: distinct_map)
  moreover have "sorted (map cBase own)" by (simp add: own_def)
  ultimately show "sorted_wrt (<) (map cBase own)" by (simp add: strict_sorted_iff)
  show "set own = {r \<in> set (commitLog st). cGroup r = g}" by (simp add: own_def)
qed

lemma getCommitsSince_Inr:
  assumes "getCommitsSince g since u st = Inr r" and "distinct (map commitIndex (commitLog st))"
  defines "E \<equiv> {cBase row |row. row \<in> set (commitLog st) \<and> cGroup row = g}"
  defines "active \<equiv> (case findGroup g st of None \<Rightarrow> 0 | Some gr \<Rightarrow> gActiveEpoch gr)"
  shows "\<exists>fin \<ge> since. map fst (csCommits r) = [since..<fin]
    \<and> (\<forall>(b, c) \<in> set (csCommits r). \<exists>row \<in> set (commitLog st). cGroup row = g \<and> cBase row = b \<and> cCommit row = c)
    \<and> fin \<notin> E \<and> csActiveEpoch r = active
    \<and> (csBelowFloor r \<longleftrightarrow> since < active \<and> E \<noteq> {} \<and> (\<forall>b \<in> E. since < b))
    \<and> csGapAt r = (if \<not> csBelowFloor r \<and> (fin < active \<or> (\<exists>b \<in> E. fin < b)) then Some fin else None)"
proof -
  define own where "own = sort_key cBase (filter (\<lambda>r. cGroup r = g) (commitLog st))"
  define rows where "rows = filter (\<lambda>r. since \<le> cBase r) own"
  define floor where "floor \<longleftrightarrow> since < active \<and> own \<noteq> [] \<and> since < cBase (hd own)"
  note own = own_commits [OF assms(2), of g, folded own_def]
  obtain cs gap fin where walk: "walkCommits since rows = (cs, gap, fin)" by (metis prod_cases3)
  have r: "r = \<lparr>csCommits = cs, csActiveEpoch = active, csBelowFloor = floor,
      csGapAt = (if floor then None else if gap = None \<and> fin < active then Some fin else gap)\<rparr>"
    using assms(1)
    by (auto simp: getCommitsSince_def Let_def own_def [symmetric] rows_def [symmetric]
        active_def [symmetric] floor_def [symmetric] walk split: if_splits)
  have "sorted_wrt (<) (map cBase rows)"
    using own(1) unfolding rows_def by (simp add: sorted_wrt_map sorted_wrt_filter)
  from walkCommits_spec [OF this _ walk]
  have spec: "since \<le> fin" "map fst cs = [since..<fin]" "set cs \<subseteq> (\<lambda>r. (cBase r, cCommit r)) ` set rows"
    "fin \<notin> cBase ` set rows" "gap = (if \<exists>r \<in> set rows. fin < cBase r then Some fin else None)"
    by (simp_all add: rows_def)
  have E: "E = cBase ` set own" unfolding E_def own(2) by auto
  have hd: "cBase (hd own) \<le> b" if "b \<in> E" for b
    using own(1) that unfolding E by (cases own) (auto simp: less_imp_le)
  have "floor \<longleftrightarrow> since < active \<and> E \<noteq> {} \<and> (\<forall>b \<in> E. since < b)"
    unfolding floor_def using hd by (cases own) (auto simp: E intro: less_le_trans)
  moreover have "(\<exists>r \<in> set rows. fin < cBase r) \<longleftrightarrow> (\<exists>b \<in> E. fin < b)"
    using spec(1) unfolding E rows_def by auto
  moreover have "fin \<notin> E" using spec(1,4) unfolding E rows_def by auto
  moreover have "\<forall>(b, c) \<in> set cs. \<exists>row \<in> set (commitLog st). cGroup row = g \<and> cBase row = b \<and> cCommit row = c"
    using spec(3) unfolding rows_def using own(2) by auto
  ultimately show ?thesis
    using spec(1,2,5) by (intro exI [of _ fin]) (auto simp: r)
qed

text \<open>
  What a replay hands back can be applied. The commits returned are consecutive from the epoch
  asked for and come from the log. A reported gap is the first epoch after them, and the log has
  nothing for it. When neither a gap nor a pruned floor is reported, the commits lead to the epoch the
  group is at; when the floor is reported no commit is returned.
\<close>

theorem replay_is_contiguous:
  assumes "getCommitsSince g since u st = Inr r" and "distinct (map commitIndex (commitLog st))"
  shows "map fst (csCommits r) = [since..<since + length (csCommits r)]
    \<and> (\<forall>(b, c) \<in> set (csCommits r). \<exists>row \<in> set (commitLog st). cGroup row = g \<and> cBase row = b \<and> cCommit row = c)
    \<and> (\<forall>k. csGapAt r = Some k \<longrightarrow> k = since + length (csCommits r)
         \<and> (\<forall>row \<in> set (commitLog st). cGroup row = g \<longrightarrow> cBase row \<noteq> k))
    \<and> (csGapAt r = None \<and> \<not> csBelowFloor r \<longrightarrow> csActiveEpoch r \<le> since + length (csCommits r))
    \<and> (csBelowFloor r \<longrightarrow> csCommits r = [])"
proof -
  define E where "E = {cBase row |row. row \<in> set (commitLog st) \<and> cGroup row = g}"
  define active where "active = (case findGroup g st of None \<Rightarrow> 0 | Some gr \<Rightarrow> gActiveEpoch gr)"
  from getCommitsSince_Inr [OF assms, folded E_def active_def] obtain fin where fin: "since \<le> fin"
    and cs: "map fst (csCommits r) = [since..<fin]"
    and rows: "\<forall>(b, c) \<in> set (csCommits r). \<exists>row \<in> set (commitLog st). cGroup row = g \<and> cBase row = b \<and> cCommit row = c"
    and miss: "fin \<notin> E" and act: "csActiveEpoch r = active"
    and floor: "csBelowFloor r \<longleftrightarrow> since < active \<and> E \<noteq> {} \<and> (\<forall>b \<in> E. since < b)"
    and gap: "csGapAt r = (if \<not> csBelowFloor r \<and> (fin < active \<or> (\<exists>b \<in> E. fin < b)) then Some fin else None)"
    by blast
  have "length (csCommits r) = fin - since" using arg_cong [OF cs, of length] by simp
  with fin have len: "since + length (csCommits r) = fin" by simp
  have "csCommits r = []" if "csBelowFloor r"
  proof (rule ccontr)
    assume "csCommits r \<noteq> []"
    then have "[since..<fin] \<noteq> []" unfolding cs [symmetric] by simp
    then have "since \<in> fst ` set (csCommits r)" using arg_cong [OF cs, of set] by simp
    then obtain b c where bc: "(b, c) \<in> set (csCommits r)" "since = b" by auto
    with rows have "since \<in> E" unfolding E_def by auto
    with that floor show False by auto
  qed
  moreover have "\<forall>row \<in> set (commitLog st). cGroup row = g \<longrightarrow> cBase row \<noteq> fin" using miss unfolding E_def by auto
  moreover have "csGapAt r = None \<and> \<not> csBelowFloor r \<longrightarrow> active \<le> fin" using gap by (auto split: if_splits)
  ultimately show ?thesis using cs rows gap unfolding len act by (auto split: if_splits)
qed

definition demo_log_store :: delivery where
  "demo_log_store = demo_store\<lparr>groups := [(demo_group ''g'')\<lparr>gActiveEpoch := 3\<rparr>],
     commitLog := [\<lparr>cGroup = ''g'', cBase = 0, cCommit = ''AA'', cSenderDevice = None, cCreatedAt = 0\<rparr>,
                   \<lparr>cGroup = ''g'', cBase = 2, cCommit = ''CC'', cSenderDevice = None, cCreatedAt = 2\<rparr>]\<rparr>"

lemmas replay_defs = getCommitsSince_def findMember_def findGroup_def Let_def

theorem replay_is_contiguous_witness:
  "\<exists>r. getCommitsSince ''g'' 0 ''ann'' demo_log_store = Inr r \<and> csGapAt r = Some 1
     \<and> map fst (csCommits r) = [0..<length (csCommits r)] \<and> length (csCommits r) = 1"
proof -
  let ?r = "\<lparr>csCommits = [(0, ''AA'')], csActiveEpoch = 3, csBelowFloor = False, csGapAt = Some 1\<rparr>"
  have run: "getCommitsSince ''g'' 0 ''ann'' demo_log_store = Inr ?r"
    by (simp add: replay_defs demo_log_store_def demo_defs)
  have "distinct (map commitIndex (commitLog demo_log_store))"
    by (simp add: commitIndex_def demo_log_store_def)
  from replay_is_contiguous [OF run this] run show ?thesis by auto
qed

text \<open>
  A log emptied by retention is reported as damaged. When every commit of a group has passed the
  retention window, the hourly pruning removes them all; a member that is behind is then told that the
  log has a hole at its epoch, never that the log was pruned below it.
\<close>

theorem pruned_log_reported_as_hole:
  assumes "findMember g u st = Some m" and "findGroup g st = Some gr" and "since < gActiveEpoch gr"
    and "\<forall>row \<in> set (commitLog st). cGroup row = g \<longrightarrow> cCreatedAt row < t - COMMIT_LOG_RETENTION_MS"
  shows "\<exists>r. getCommitsSince g since u (snd (pruneExpiredCommitLog t st)) = Inr r
     \<and> csGapAt r = Some since \<and> \<not> csBelowFloor r"
proof -
  let ?st = "snd (pruneExpiredCommitLog t st)"
  have none: "filter (\<lambda>r. cGroup r = g) (commitLog ?st) = []"
    using assms(4) by (auto simp: pruneExpiredCommitLog_def Let_def delete_where_def filter_empty_conv)
  have "findMember g u ?st = Some m" "findGroup g ?st = Some gr"
    using assms(1,2) by (simp_all add: pruneExpiredCommitLog_def Let_def findMember_def findGroup_def)
  with none assms(3) show ?thesis by (simp add: getCommitsSince_def)
qed

theorem pruned_log_reported_as_hole_witness:
  "\<exists>r. getCommitsSince ''g'' 0 ''ann'' (snd (pruneExpiredCommitLog (3 + COMMIT_LOG_RETENTION_MS) demo_log_store)) = Inr r
     \<and> csGapAt r = Some 0 \<and> \<not> csBelowFloor r"
  by (rule pruned_log_reported_as_hole [where m = "demo_member ''g'' ''ann''"
        and gr = "(demo_group ''g'')\<lparr>gActiveEpoch := 3\<rparr>"])
    (simp_all add: findMember_def findGroup_def demo_log_store_def demo_defs)

end
