(* ===== verification/Commit_Race.thy ===== *)
theory Commit_Race
  imports Commit_Log
begin

text \<open>
  Commits that overlap. validateCommit (\<open>services/messaging.service.ts\<close>) awaits between taking the
  lock, reading the epoch, the transaction, the fan-out and the release, so requests interleave there.
  Each of these is one step of \<open>commit_step\<close>; time passes between steps, and any other operation that
  leaves the groups and the locks alone may run in between. The lock is a Redis key that expires five
  seconds after it was taken, whether or not its holder has finished.
\<close>

section \<open>Model\<close>

datatype commit_pc =
    Idle
  | Arriving
  | Holding
  | Gated
  | Committed
  | Finished bool

record commit_req =
  rqGroup :: string
  rqDevice :: string
  rqBody :: commit_body
  rqExpiry :: int
  rqPc :: commit_pc

record commit_world =
  wStore :: delivery
  wNow :: int
  wReqs :: "nat \<Rightarrow> commit_req"

definition setPc :: "nat \<Rightarrow> commit_pc \<Rightarrow> commit_world \<Rightarrow> commit_world" where
  "setPc i p w = w\<lparr>wReqs := (wReqs w)(i := (wReqs w i)\<lparr>rqPc := p\<rparr>)\<rparr>"

text \<open>The lock: \<open>SET lockKey deviceId EX 5 NX\<close>.\<close>

definition acquire_step :: "nat \<Rightarrow> commit_world \<Rightarrow> commit_world" where
  "acquire_step i w =
     (let g = rqGroup (wReqs w i);
          (ok, l) = set_nx_ex (wNow w) COMMIT_LOCK_TTL_MS (rqDevice (wReqs w i)) (commitLock (wStore w) g)
      in if ok
         then w\<lparr>wStore := (wStore w)\<lparr>commitLock := (commitLock (wStore w))(g := l)\<rparr>,
                wReqs := (wReqs w)(i := (wReqs w i)\<lparr>rqExpiry := wNow w + COMMIT_LOCK_TTL_MS, rqPc := Holding\<rparr>)\<rparr>
         else setPc i (Finished False) w)"

text \<open>The release in the \<open>finally\<close> block, with the answer already decided.\<close>

definition release_step :: "nat \<Rightarrow> bool \<Rightarrow> commit_world \<Rightarrow> commit_world" where
  "release_step i accepted w =
     (let g = rqGroup (wReqs w i);
          l = release_if (wNow w) (rqDevice (wReqs w i)) (commitLock (wStore w) g)
      in setPc i (Finished accepted) (w\<lparr>wStore := (wStore w)\<lparr>commitLock := (commitLock (wStore w))(g := l)\<rparr>\<rparr>))"

text \<open>The read of the epoch: a commit on another epoch goes straight to the release.\<close>

definition gate_step :: "nat \<Rightarrow> commit_world \<Rightarrow> commit_world" where
  "gate_step i w =
     (case findGroup (rqGroup (wReqs w i)) (wStore w) of
        None \<Rightarrow> release_step i False w
      | Some gr \<Rightarrow> if commitEpoch (rqBody (wReqs w i)) \<noteq> gActiveEpoch gr then release_step i False w
                   else setPc i Gated w)"

definition write_step :: "nat \<Rightarrow> commit_world \<Rightarrow> commit_world" where
  "write_step i w =
     (let q = wReqs w i in
      setPc i Committed (w\<lparr>wStore := commitTransaction (wNow w) (rqGroup q) (commitEpoch (rqBody q))
        (orEmpty (cbProto (rqBody q))) (rqDevice q) (publishedBase (rqBody q)) (wStore w)\<rparr>))"

text \<open>The promotion of the sender and the fan-out, then the release.\<close>

definition finish_step :: "nat \<Rightarrow> env \<Rightarrow> commit_world \<Rightarrow> commit_world" where
  "finish_step i e w =
     (let q = wReqs w i in
      release_step i True
        (w\<lparr>wStore := fst (commitFollowUp (e\<lparr>eNow := wNow w\<rparr>) (rqGroup q) (rqDevice q) (rqBody q) (wStore w))\<rparr>))"

inductive commit_step :: "commit_world \<Rightarrow> commit_world \<Rightarrow> bool" where
  tick: "0 \<le> d \<Longrightarrow> commit_step w (w\<lparr>wNow := wNow w + d\<rparr>)"
| arrive: "rqPc (wReqs w i) = Idle \<Longrightarrow> commitRequest body = Inr (g, d) \<Longrightarrow>
    commit_step w (w\<lparr>wReqs := (wReqs w)(i := \<lparr>rqGroup = g, rqDevice = d, rqBody = body, rqExpiry = 0, rqPc = Arriving\<rparr>)\<rparr>)"
| acquire: "rqPc (wReqs w i) = Arriving \<Longrightarrow> commit_step w (acquire_step i w)"
| gate: "rqPc (wReqs w i) = Holding \<Longrightarrow> commit_step w (gate_step i w)"
| commit: "rqPc (wReqs w i) = Gated \<Longrightarrow> commit_step w (write_step i w)"
| finish: "rqPc (wReqs w i) = Committed \<Longrightarrow> commit_step w (finish_step i e w)"
| elsewhere: "groups st' = groups (wStore w) \<Longrightarrow> commitLock st' = commitLock (wStore w) \<Longrightarrow>
    commit_step w (w\<lparr>wStore := st'\<rparr>)"

text \<open>The requests that have taken the lock and not released it; a world is timely when none of them
  has outlived the expiry of its lock.\<close>

definition inside :: "commit_req \<Rightarrow> bool" where
  "inside q \<longleftrightarrow> rqPc q \<in> {Holding, Gated, Committed}"

definition timely :: "commit_world \<Rightarrow> bool" where
  "timely w \<longleftrightarrow> (\<forall>i. inside (wReqs w i) \<longrightarrow> wNow w < rqExpiry (wReqs w i))"

definition accepted :: "commit_req \<Rightarrow> bool" where
  "accepted q \<longleftrightarrow> rqPc q \<in> {Committed, Finished True}"

definition race_init :: "commit_world \<Rightarrow> bool" where
  "race_init w \<longleftrightarrow> (\<forall>i. rqPc (wReqs w i) = Idle)"

text \<open>Runs all of whose worlds satisfy \<open>P\<close>.\<close>

inductive commit_run :: "(commit_world \<Rightarrow> bool) \<Rightarrow> commit_world \<Rightarrow> commit_world \<Rightarrow> bool" for P where
  start: "commit_run P w w"
| step: "commit_run P w v \<Longrightarrow> commit_step v v' \<Longrightarrow> P v' \<Longrightarrow> commit_run P w v'"

section \<open>One winner per epoch while locks last\<close>

definition epochOf :: "string \<Rightarrow> delivery \<Rightarrow> nat option" where
  "epochOf g st = map_option gActiveEpoch (findGroup g st)"

text \<open>What the invariant says of one request, and of two.\<close>

definition req_ok :: "delivery \<Rightarrow> commit_req \<Rightarrow> bool" where
  "req_ok st q \<longleftrightarrow>
     (inside q \<longrightarrow> commitLock st (rqGroup q) = Some (rqDevice q, rqExpiry q))
     \<and> (rqPc q = Gated \<longrightarrow> epochOf (rqGroup q) st = Some (commitEpoch (rqBody q)))
     \<and> (accepted q \<longrightarrow> (\<exists>n. epochOf (rqGroup q) st = Some n \<and> commitEpoch (rqBody q) < n))"

definition exclusive :: "commit_req \<Rightarrow> commit_req \<Rightarrow> bool" where
  "exclusive p q \<longleftrightarrow> rqGroup p = rqGroup q \<longrightarrow>
     \<not> (inside p \<and> inside q)
     \<and> \<not> (accepted p \<and> accepted q \<and> commitEpoch (rqBody p) = commitEpoch (rqBody q))"

definition race_inv :: "commit_world \<Rightarrow> bool" where
  "race_inv w \<longleftrightarrow> (\<forall>i. req_ok (wStore w) (wReqs w i)) \<and> (\<forall>i j. i \<noteq> j \<longrightarrow> exclusive (wReqs w i) (wReqs w j))"

lemma exclusive_sym: "exclusive p q \<longleftrightarrow> exclusive q p"
  by (auto simp: exclusive_def)

lemma race_invD: "race_inv w \<Longrightarrow> req_ok (wStore w) (wReqs w i)"
  "race_inv w \<Longrightarrow> i \<noteq> j \<Longrightarrow> exclusive (wReqs w i) (wReqs w j)"
  by (simp_all add: race_inv_def)

text \<open>One request moves: the invariant is left to check for it and for how the others see the store.\<close>

lemma race_inv_move:
  assumes "race_inv w" and "req_ok st' q" and "\<And>j. j \<noteq> i \<Longrightarrow> req_ok st' (wReqs w j)"
    and "\<And>j. j \<noteq> i \<Longrightarrow> exclusive q (wReqs w j)"
    and "wStore w' = st'" and "wReqs w' = (wReqs w)(i := q)"
  shows "race_inv w'"
  using assms exclusive_sym unfolding race_inv_def by (auto simp: fun_upd_apply)

lemma req_ok_same:
  assumes "req_ok st q" and "groups st' = groups st"
    and "inside q \<Longrightarrow> commitLock st' (rqGroup q) = commitLock st (rqGroup q)"
  shows "req_ok st' q"
  using assms by (auto simp: req_ok_def epochOf_def findGroup_def)

lemma not_inside:
  "rqPc q = Idle \<Longrightarrow> \<not> inside q" "rqPc q = Arriving \<Longrightarrow> \<not> inside q" "rqPc q = Finished b \<Longrightarrow> \<not> inside q"
  by (simp_all add: inside_def)

lemma release_step_inv:
  assumes inv: "race_inv w" and i: "inside (wReqs w i)" and acc: "b \<Longrightarrow> accepted (wReqs w i)"
  shows "race_inv (release_step i b w)"
proof -
  let ?q = "wReqs w i"
  let ?q' = "?q\<lparr>rqPc := Finished b\<rparr>"
  define st' where "st' = (wStore w)\<lparr>commitLock := (commitLock (wStore w))(rqGroup ?q :=
      release_if (wNow w) (rqDevice ?q) (commitLock (wStore w) (rqGroup ?q)))\<rparr>"
  have others: "\<not> (inside (wReqs w j) \<and> rqGroup (wReqs w j) = rqGroup ?q)" if "j \<noteq> i" for j
    using race_invD(2) [OF inv that] i by (auto simp: exclusive_def)
  show ?thesis
  proof (rule race_inv_move [OF inv])
    have "epochOf (rqGroup ?q) st' = epochOf (rqGroup ?q) (wStore w)" by (simp add: st'_def epochOf_def findGroup_def)
    then show "req_ok st' ?q'"
      using race_invD(1) [OF inv, of i] acc by (auto simp: req_ok_def inside_def accepted_def)
    show "req_ok st' (wReqs w j)" if "j \<noteq> i" for j
      by (rule req_ok_same [OF race_invD(1) [OF inv]]) (use others [OF that] in \<open>auto simp: st'_def\<close>)
    show "exclusive ?q' (wReqs w j)" if "j \<noteq> i" for j
      using race_invD(2) [OF inv that [symmetric]] acc by (auto simp: exclusive_def inside_def accepted_def)
    show "wStore (release_step i b w) = st'" "wReqs (release_step i b w) = (wReqs w)(i := ?q')"
      by (simp_all add: release_step_def setPc_def st'_def Let_def)
  qed
qed

lemma race_inv_store:
  assumes "race_inv w" and "groups st' = groups (wStore w)" and "commitLock st' = commitLock (wStore w)"
  shows "race_inv (w\<lparr>wStore := st'\<rparr>)"
proof -
  have "req_ok st' (wReqs w j)" for j
    by (rule req_ok_same [OF race_invD(1) [OF assms(1)]]) (simp_all add: assms)
  with assms(1) show ?thesis by (simp add: race_inv_def)
qed

lemma acquire_step_inv:
  assumes inv: "race_inv w" and t: "timely w" and i: "rqPc (wReqs w i) = Arriving"
  shows "race_inv (acquire_step i w)"
proof (cases "lock_free (wNow w) (commitLock (wStore w) (rqGroup (wReqs w i)))")
  case True
  let ?q = "wReqs w i"
  let ?q' = "?q\<lparr>rqExpiry := wNow w + COMMIT_LOCK_TTL_MS, rqPc := Holding\<rparr>"
  define st' where "st' = (wStore w)\<lparr>commitLock := (commitLock (wStore w))(rqGroup ?q :=
      Some (rqDevice ?q, wNow w + COMMIT_LOCK_TTL_MS))\<rparr>"
  have others: "\<not> (inside (wReqs w j) \<and> rqGroup (wReqs w j) = rqGroup ?q)" for j
  proof
    assume j: "inside (wReqs w j) \<and> rqGroup (wReqs w j) = rqGroup ?q"
    then have "commitLock (wStore w) (rqGroup ?q) = Some (rqDevice (wReqs w j), rqExpiry (wReqs w j))"
      using race_invD(1) [OF inv, of j] by (simp add: req_ok_def)
    with True j t show False by (auto simp: lock_free_def timely_def)
  qed
  show ?thesis
  proof (rule race_inv_move [OF inv])
    show "req_ok st' ?q'" by (simp add: req_ok_def st'_def accepted_def)
    show "req_ok st' (wReqs w j)" if "j \<noteq> i" for j
      by (rule req_ok_same [OF race_invD(1) [OF inv]]) (use others in \<open>auto simp: st'_def\<close>)
    show "exclusive ?q' (wReqs w j)" if "j \<noteq> i" for j
      using others [of j] by (auto simp: exclusive_def accepted_def)
    show "wStore (acquire_step i w) = st'" "wReqs (acquire_step i w) = (wReqs w)(i := ?q')"
      using True by (simp_all add: acquire_step_def set_nx_ex_def st'_def Let_def)
  qed
next
  case False
  let ?q' = "(wReqs w i)\<lparr>rqPc := Finished False\<rparr>"
  show ?thesis
  proof (rule race_inv_move [OF inv])
    show "req_ok (wStore w) ?q'" by (simp add: req_ok_def inside_def accepted_def)
    show "req_ok (wStore w) (wReqs w j)" for j by (rule race_invD(1) [OF inv])
    show "exclusive ?q' (wReqs w j)" for j by (simp add: exclusive_def inside_def accepted_def)
    show "wStore (acquire_step i w) = wStore w" "wReqs (acquire_step i w) = (wReqs w)(i := ?q')"
      using False by (simp_all add: acquire_step_def set_nx_ex_def setPc_def Let_def)
  qed
qed

lemma gate_step_inv:
  assumes inv: "race_inv w" and i: "rqPc (wReqs w i) = Holding"
  shows "race_inv (gate_step i w)"
proof -
  let ?q = "wReqs w i"
  have inside: "inside ?q" using i by (simp add: inside_def)
  show ?thesis
  proof (cases "\<exists>gr. findGroup (rqGroup ?q) (wStore w) = Some gr \<and> commitEpoch (rqBody ?q) = gActiveEpoch gr")
    case False
    then have "gate_step i w = release_step i False w" by (auto simp: gate_step_def split: option.splits)
    with release_step_inv [OF inv inside, of False] show ?thesis by simp
  next
    case True
    then have step: "gate_step i w = setPc i Gated w" and
      ep: "epochOf (rqGroup ?q) (wStore w) = Some (commitEpoch (rqBody ?q))"
      by (auto simp: gate_step_def epochOf_def)
    let ?q' = "?q\<lparr>rqPc := Gated\<rparr>"
    show ?thesis unfolding step
    proof (rule race_inv_move [OF inv])
      show "req_ok (wStore w) ?q'"
        using race_invD(1) [OF inv, of i] inside ep by (auto simp: req_ok_def inside_def accepted_def)
      show "req_ok (wStore w) (wReqs w j)" for j by (rule race_invD(1) [OF inv])
      show "exclusive ?q' (wReqs w j)" if "j \<noteq> i" for j
        using race_invD(2) [OF inv that [symmetric]] inside by (auto simp: exclusive_def inside_def accepted_def)
      show "wStore (setPc i Gated w) = wStore w" "wReqs (setPc i Gated w) = (wReqs w)(i := ?q')"
        by (simp_all add: setPc_def)
    qed
  qed
qed

lemma epochOf_transaction:
  "epochOf h (commitTransaction t g b c d nb st) = (if h = g \<and> epochOf g st \<noteq> None then Some (b + 1) else epochOf h st)"
  by (cases "h = g") (auto simp: epochOf_def findGroup_def findGroup_advance option.map_ident split: option.splits)

lemma write_step_inv:
  assumes inv: "race_inv w" and i: "rqPc (wReqs w i) = Gated"
  shows "race_inv (write_step i w)"
proof -
  let ?q = "wReqs w i"
  let ?q' = "?q\<lparr>rqPc := Committed\<rparr>"
  define st' where "st' = commitTransaction (wNow w) (rqGroup ?q) (commitEpoch (rqBody ?q))
        (orEmpty (cbProto (rqBody ?q))) (rqDevice ?q) (publishedBase (rqBody ?q)) (wStore w)"
  have q: "inside ?q" "\<not> accepted ?q" using i by (simp_all add: inside_def accepted_def)
  have ep: "epochOf (rqGroup ?q) (wStore w) = Some (commitEpoch (rqBody ?q))"
    using race_invD(1) [OF inv, of i] i by (simp add: req_ok_def)
  have ep': "epochOf h st' = (if h = rqGroup ?q then Some (commitEpoch (rqBody ?q) + 1) else epochOf h (wStore w))" for h
    using ep by (simp add: st'_def epochOf_transaction)
  have lock: "commitLock st' = commitLock (wStore w)" by (simp add: st'_def)
  have others: "\<not> inside (wReqs w j)" if "j \<noteq> i" "rqGroup (wReqs w j) = rqGroup ?q" for j
    using race_invD(2) [OF inv that(1)] that q by (auto simp: exclusive_def)
  have below: "commitEpoch (rqBody (wReqs w j)) < commitEpoch (rqBody ?q)"
    if "accepted (wReqs w j)" "rqGroup (wReqs w j) = rqGroup ?q" for j
    using race_invD(1) [OF inv, of j] that ep by (auto simp: req_ok_def)
  show ?thesis
  proof (rule race_inv_move [OF inv])
    show "req_ok st' ?q'"
      using race_invD(1) [OF inv, of i] q(1) by (auto simp: req_ok_def inside_def ep' lock)
    show "req_ok st' (wReqs w j)" if "j \<noteq> i" for j
      using race_invD(1) [OF inv, of j] others [OF that] below [of j]
      by (auto simp: req_ok_def ep' lock inside_def)
    show "exclusive ?q' (wReqs w j)" if "j \<noteq> i" for j
      using others [OF that] below [of j] by (auto simp: exclusive_def)
    show "wStore (write_step i w) = st'" "wReqs (write_step i w) = (wReqs w)(i := ?q')"
      by (simp_all add: write_step_def setPc_def st'_def Let_def)
  qed
qed

lemma finish_step_inv:
  assumes inv: "race_inv w" and i: "rqPc (wReqs w i) = Committed"
  shows "race_inv (finish_step i e w)"
proof -
  let ?q = "wReqs w i"
  let ?st = "fst (commitFollowUp (e\<lparr>eNow := wNow w\<rparr>) (rqGroup ?q) (rqDevice ?q) (rqBody ?q) (wStore w))"
  have "stable ?st = stable (wStore w)" by (rule commitFollowUp_stable) (rule surjective_pairing)
  then have "race_inv (w\<lparr>wStore := ?st\<rparr>)" by (intro race_inv_store [OF inv]) (simp_all add: stable_def)
  moreover have "finish_step i e w = release_step i True (w\<lparr>wStore := ?st\<rparr>)"
    by (simp add: finish_step_def Let_def)
  ultimately show ?thesis using i by (simp add: release_step_inv inside_def accepted_def)
qed

lemma commit_step_inv:
  assumes "commit_step w v" and "race_inv w" and "timely w"
  shows "race_inv v"
  using assms
proof (induction rule: commit_step.induct)
  case (tick d w)
  then show ?case by (simp add: race_inv_def)
next
  case (arrive w i body g d)
  show ?case
  proof (rule race_inv_move [OF arrive.prems(1)])
    let ?q = "\<lparr>rqGroup = g, rqDevice = d, rqBody = body, rqExpiry = 0, rqPc = Arriving\<rparr>"
    show "req_ok (wStore w) ?q" by (simp add: req_ok_def inside_def accepted_def)
    show "req_ok (wStore w) (wReqs w j)" for j by (rule race_invD(1) [OF arrive.prems(1)])
    show "exclusive ?q (wReqs w j)" for j by (simp add: exclusive_def inside_def accepted_def)
  qed simp_all
next
  case (elsewhere st' w)
  then show ?case by (simp add: race_inv_store)
qed (simp_all add: acquire_step_inv gate_step_inv write_step_inv finish_step_inv)

lemma commit_run_inv: "commit_run timely w v \<Longrightarrow> race_init w \<Longrightarrow> race_inv v \<and> timely v"
proof (induction rule: commit_run.induct)
  case start
  then show ?case by (simp add: race_init_def race_inv_def req_ok_def exclusive_def inside_def accepted_def timely_def)
next
  case (step v v')
  then show ?case using commit_step_inv by blast
qed

text \<open>
  C5: While no request outlives its lock, overlapping commits never fork a group. In every
  interleaving of any number of commit requests, with other operations in between, at most one request
  is accepted for each epoch of each group, and no two requests for a group hold its lock together.
\<close>

theorem one_commit_per_epoch:
  assumes "race_init w" and "commit_run timely w v" and "i \<noteq> j"
    and "rqGroup (wReqs v i) = rqGroup (wReqs v j)"
  shows "\<not> (accepted (wReqs v i) \<and> accepted (wReqs v j)
        \<and> commitEpoch (rqBody (wReqs v i)) = commitEpoch (rqBody (wReqs v j)))
    \<and> \<not> (inside (wReqs v i) \<and> inside (wReqs v j))"
proof -
  have "race_inv v" using commit_run_inv [OF assms(2,1)] by blast
  from race_invD(2) [OF this assms(3)] assms(4) show ?thesis by (simp add: exclusive_def)
qed

section \<open>What a lock that expires allows\<close>

definition other_commit :: commit_body where
  "other_commit = demo_commit\<lparr>cbDevice := Some (JStr ''d2''), cbProto := Some ''BBBB''\<rparr>"

lemma other_commit_request: "commitRequest other_commit = Inr (''g'', ''d2'')"
  by (simp add: commitRequest_def other_commit_def demo_commit_def sanitizeQueryValue_def SAFE_QUERY_VALUE_REGEX_def
      safe_char_def alnum_def trim_def js_ws_def baseEpochOf_def truthy_def result_simps)

definition arrived :: "string \<Rightarrow> commit_body \<Rightarrow> commit_req" where
  "arrived d body = \<lparr>rqGroup = ''g'', rqDevice = d, rqBody = body, rqExpiry = 0, rqPc = Arriving\<rparr>"

definition race_start :: commit_world where
  "race_start = \<lparr>wStore = demo_store, wNow = 0, wReqs = (\<lambda>_. (arrived [] demo_commit)\<lparr>rqPc := Idle\<rparr>)\<rparr>"

definition race_arrived :: commit_world where
  "race_arrived = race_start\<lparr>wReqs := (wReqs race_start)(0 := arrived ''d1'' demo_commit, 1 := arrived ''d2'' other_commit)\<rparr>"

lemma race_arrived_run:
  assumes "\<And>w. (\<forall>i. rqPc (wReqs w i) \<in> {Idle, Arriving}) \<Longrightarrow> P w"
  shows "commit_run P race_start race_arrived"
proof -
  let ?w = "race_start\<lparr>wReqs := (wReqs race_start)(0 := arrived ''d1'' demo_commit)\<rparr>"
  have "commit_step race_start ?w"
    unfolding arrived_def by (rule commit_step.arrive [OF _ demo_commit_request]) (simp add: race_start_def)
  moreover have "commit_step ?w (?w\<lparr>wReqs := (wReqs ?w)(1 := arrived ''d2'' other_commit)\<rparr>)"
    unfolding arrived_def by (rule commit_step.arrive [OF _ other_commit_request]) (simp add: race_start_def)
  moreover have "?w\<lparr>wReqs := (wReqs ?w)(1 := arrived ''d2'' other_commit)\<rparr> = race_arrived"
    by (simp add: race_arrived_def)
  moreover have "P ?w" "P race_arrived"
    by (rule assms, simp add: race_start_def arrived_def race_arrived_def)+
  ultimately show ?thesis by (metis commit_run.start commit_run.step)
qed

lemma race_start_init: "race_init race_start"
  by (simp add: race_init_def race_start_def)

lemmas race_defs = acquire_step_def gate_step_def write_step_def release_step_def setPc_def set_nx_ex_def
  lock_free_def findGroup_def race_arrived_def race_start_def arrived_def Let_def

lemma race_bodies: "commitEpoch demo_commit = 0" "commitEpoch other_commit = 0"
  by (simp_all add: commitEpoch_def baseEpochOf_def demo_commit_def other_commit_def)

lemma waiting_timely:
  assumes "\<forall>i. rqPc (wReqs w i) \<in> {Idle, Arriving}"
  shows "timely w"
  unfolding timely_def
proof (intro allI impI)
  fix i
  assume "inside (wReqs w i)"
  moreover have "rqPc (wReqs w i) \<in> {Idle, Arriving}" using assms by (rule spec)
  ultimately show "wNow w < rqExpiry (wReqs w i)" by (auto simp: inside_def)
qed

text \<open>The first request alone with the lock, at the program point given.\<close>

definition race_alone :: "commit_pc \<Rightarrow> commit_world" where
  "race_alone p = \<lparr>wStore = demo_store\<lparr>commitLock := (\<lambda>_. None)(''g'' := Some (''d1'', COMMIT_LOCK_TTL_MS))\<rparr>, wNow = 0,
      wReqs = (wReqs race_arrived)(0 := (arrived ''d1'' demo_commit)\<lparr>rqExpiry := COMMIT_LOCK_TTL_MS, rqPc := p\<rparr>)\<rparr>"

lemma race_alone_steps:
  "acquire_step 0 race_arrived = race_alone Holding" "gate_step 0 (race_alone Holding) = race_alone Gated"
  by (simp_all add: race_alone_def race_defs demo_defs race_bodies)

lemma race_alone_sel:
  "rqPc (wReqs (race_alone p) 0) = p" "rqPc (wReqs (race_alone p) 1) = Arriving" "rqPc (wReqs race_arrived 0) = Arriving"
  by (simp_all add: race_alone_def race_arrived_def arrived_def)

lemma race_alone_timely: "timely (race_alone p)" "timely (write_step 0 (race_alone p))"
  by (auto simp: timely_def race_alone_def race_arrived_def race_start_def arrived_def inside_def
      COMMIT_LOCK_TTL_MS_def write_step_def setPc_def Let_def)

lemma race_alone_run:
  assumes "P race_arrived" and "\<And>p. P (race_alone p)" and "commit_run P race_start race_arrived"
  shows "commit_run P race_start (race_alone Gated)"
proof -
  have "commit_step race_arrived (race_alone Holding)"
    using commit_step.acquire [of race_arrived 0] by (simp add: race_alone_steps race_alone_sel)
  moreover have "commit_step (race_alone Holding) (race_alone Gated)"
    using commit_step.gate [of "race_alone Holding" 0] by (simp add: race_alone_steps race_alone_sel)
  ultimately show ?thesis using assms by (blast intro: commit_run.step)
qed

theorem one_commit_per_epoch_witness:
  "\<exists>v. commit_run timely race_start v \<and> accepted (wReqs v 0) \<and> rqPc (wReqs v 1) = Arriving
     \<and> \<not> (accepted (wReqs v 0) \<and> accepted (wReqs v 1)
        \<and> commitEpoch (rqBody (wReqs v 0)) = commitEpoch (rqBody (wReqs v 1)))"
proof -
  let ?c = "write_step 0 (race_alone Gated)"
  have run: "commit_run timely race_start ?c"
  proof (rule commit_run.step [OF race_alone_run commit_step.commit])
    show "timely race_arrived"
      by (rule waiting_timely) (simp add: race_arrived_def race_start_def arrived_def)
    show "commit_run timely race_start race_arrived" by (rule race_arrived_run) (rule waiting_timely)
  qed (simp_all add: race_alone_timely race_alone_sel)
  have grp: "rqGroup (wReqs ?c 0) = rqGroup (wReqs ?c 1)"
    by (simp add: write_step_def setPc_def Let_def race_alone_def race_arrived_def arrived_def)
  have pcs: "accepted (wReqs ?c 0)" "rqPc (wReqs ?c 1) = Arriving"
    by (simp_all add: write_step_def setPc_def Let_def race_alone_def race_arrived_def arrived_def accepted_def)
  note conj = one_commit_per_epoch [OF race_start_init run _ grp, OF zero_neq_one]
  show ?thesis by (rule exI [of _ ?c], intro conjI run pcs conjunct1 [OF conj])
qed

text \<open>
  C25: The lock on a group expires after five seconds and nothing checks it again before the epoch is
  written. A request that takes longer than that to reach its transaction can find itself beside a
  second one: both are accepted for the same epoch of the same group, and the log keeps only one of
  the two commits.
\<close>

theorem expired_lock_forks_group:
  "\<exists>w v. race_init w \<and> commit_run (\<lambda>_. True) w v
     \<and> accepted (wReqs v 0) \<and> accepted (wReqs v 1)
     \<and> rqGroup (wReqs v 0) = rqGroup (wReqs v 1)
     \<and> commitEpoch (rqBody (wReqs v 0)) = commitEpoch (rqBody (wReqs v 1))
     \<and> cbProto (rqBody (wReqs v 0)) \<noteq> cbProto (rqBody (wReqs v 1))
     \<and> map (\<lambda>r. Some (cCommit r)) (commitLog (wStore v)) = [cbProto (rqBody (wReqs v 1))]"
proof -
  let ?T = COMMIT_LOCK_TTL_MS
  define a where "a = race_alone Gated"
  define b where "b = a\<lparr>wNow := wNow a + ?T\<rparr>"
  define c where "c = gate_step 1 (acquire_step 1 b)"
  define d where "d = write_step 0 (write_step 1 c)"
  note a = a_def race_alone_def
  have c: "c = \<lparr>wStore = demo_store\<lparr>commitLock := (\<lambda>_. None)(''g'' := Some (''d2'', ?T + ?T))\<rparr>, wNow = ?T,
      wReqs = (wReqs a)(1 := (arrived ''d2'' other_commit)\<lparr>rqExpiry := ?T + ?T, rqPc := Gated\<rparr>)\<rparr>"
    by (simp add: c_def b_def a race_defs demo_defs race_bodies)
  have pcs': "rqPc (wReqs b 1) = Arriving" "rqPc (wReqs (acquire_step 1 b) 1) = Holding"
    by (simp_all add: b_def a race_defs demo_defs)
  have pcs'': "rqPc (wReqs c 1) = Gated" "rqPc (wReqs (write_step 1 c) 0) = Gated"
    by (simp_all add: c a write_step_def setPc_def Let_def)
  let ?run = "commit_run (\<lambda>_. True) race_start"
  have 0: "?run race_arrived" by (rule race_arrived_run) simp
  have 1: "?run a" unfolding a_def by (rule race_alone_run) (simp_all add: 0)
  have 2: "?run b" unfolding b_def
    by (rule commit_run.step [OF 1 commit_step.tick]) (simp_all add: COMMIT_LOCK_TTL_MS_def)
  have 3: "?run c" unfolding c_def
    by (rule commit_run.step [OF commit_run.step [OF 2 commit_step.acquire] commit_step.gate]) (fact pcs' | simp)+
  have 4: "?run d" unfolding d_def
    by (rule commit_run.step [OF commit_run.step [OF 3 commit_step.commit] commit_step.commit]) (fact pcs'' | simp)+
  have bodies: "cbProto demo_commit = Some ''AAAA''" "cbProto other_commit = Some ''BBBB''"
    by (simp_all add: demo_commit_def other_commit_def)
  have log: "map (\<lambda>r. Some (cCommit r)) (commitLog (wStore d)) = [Some ''BBBB'']"
    by (simp add: d_def c a write_step_def setPc_def Let_def arrived_def race_bodies insert_or_ignore_def
        commitIndex_def demo_store_def emptyStore_def bodies orEmpty_def)
  have "wReqs d 0 = (arrived ''d1'' demo_commit)\<lparr>rqExpiry := ?T, rqPc := Committed\<rparr>"
    "wReqs d 1 = (arrived ''d2'' other_commit)\<lparr>rqExpiry := ?T + ?T, rqPc := Committed\<rparr>"
    by (simp_all add: d_def c a write_step_def setPc_def Let_def)
  with race_start_init 4 log race_bodies bodies show ?thesis
    by (intro exI [of _ race_start] exI [of _ d]) (simp add: accepted_def arrived_def)
qed

end
