(* ===== verification/Peer_Requests.thy ===== *)
theory Peer_Requests
  imports Send_Message
begin

text \<open>
  Requests relayed to one member of a group (\<open>services/messaging.service.ts\<close>: notifyWelcomeRequest,
  notifyHistoryRequest, notifyBaseRefreshRequest). The member is picked among the routing set of the
  group, refilled from the table of memberships when it is empty. The two elections that shuffle the
  members take the shuffled order as an argument \<open>shuffle\<close>; what is relied on is that a shuffle is a
  permutation. A request that finds nobody online is kept for 24 hours when it asks for a Welcome.
\<close>

section \<open>Model\<close>

datatype control_kind = WelcomeRequest | HistoryRequest | BaseRefreshRequest

record control_frame =
  cfRecipient :: string
  cfDevice :: string
  cfKind :: control_kind
  cfGroup :: string
  cfUser :: string
  cfUserDevice :: string

record peer_body =
  pbGroup :: "json option"
  pbUser :: "json option"
  pbDevice :: "json option"
  pbExclude :: "json option"

datatype peer_answer =
    Forwarded string
  | NoPeerOnline nat

type_synonym peer_outcome = "(http_error, peer_answer) result \<times> delivery \<times> control_frame list"

definition MAX_MEMBER_KEY_LENGTH :: nat where
  "MAX_MEMBER_KEY_LENGTH = 256"

definition MAX_HISTORY_EXCLUSIONS :: nat where
  "MAX_HISTORY_EXCLUSIONS = 128"

text \<open>\<open>const [user, device] = member.split(':')\<close>, both parts non-empty.\<close>

definition splitKey :: "string \<Rightarrow> (string \<times> string) option" where
  "splitKey m =
     (case split_on (CHR '':'') m of
        u # d # _ \<Rightarrow> if u \<noteq> [] \<and> d \<noteq> [] then Some (u, d) else None
      | _ \<Rightarrow> None)"

text \<open>The routing set of a group, refilled from the memberships when it is empty.\<close>

definition routedMembers :: "string \<Rightarrow> delivery \<Rightarrow> string list \<times> delivery" where
  "routedMembers g st =
     (if routing st g \<noteq> [] then (routing st g, st)
      else let ms = map deviceKey (activeMemberships g st)
           in if ms = [] then ([], st) else (ms, sadd g ms st))"

definition peerRequest :: "json option \<Rightarrow> peer_body \<Rightarrow> (http_error, string \<times> string \<times> string) result" where
  "peerRequest authUserIdRaw body =
     bind_r (sanitizeQueryValue (pbGroup body)) (\<lambda>g.
     bind_r (sanitizeQueryValue (pbUser body)) (\<lambda>u.
     bind_r (sanitizeQueryValue (pbDevice body)) (\<lambda>d.
     bind_r (assertRequesterMatchesCaller authUserIdRaw u) (\<lambda>_. Inr (g, u, d)))))"

text \<open>The walk over the members: the first that is online, is not the requester and is not
  excluded, and how many were online and excluded before it.\<close>

fun elect :: "(string \<Rightarrow> bool) \<Rightarrow> string \<Rightarrow> string list \<Rightarrow> nat \<Rightarrow> string list \<Rightarrow> (string \<times> string \<times> string) option \<times> nat" where
  "elect online senderKey excluded n [] = (None, n)"
| "elect online senderKey excluded n (m # ms) =
     (if m = senderKey then elect online senderKey excluded n ms
      else (case splitKey m of
              None \<Rightarrow> elect online senderKey excluded n ms
            | Some (u, d) \<Rightarrow>
                if online (memberKey u d) \<and> toLowerCase m \<in> set excluded
                then elect online senderKey excluded (n + 1) ms
                else if online (memberKey u d) then (Some (m, u, d), n)
                else elect online senderKey excluded n ms))"

definition excludedKeys :: "json option \<Rightarrow> string list" where
  "excludedKeys v =
     (let given = (case v of Some (JArr xs) \<Rightarrow> xs | _ \<Rightarrow> []);
          raw = map strOf (filter (\<lambda>k. isStr k \<and> CHR '':'' \<in> set (strOf k)
                  \<and> length (strOf k) \<le> MAX_MEMBER_KEY_LENGTH) given)
      in map toLowerCase (take MAX_HISTORY_EXCLUSIONS raw))"

definition controlFrame ::
  "control_kind \<Rightarrow> string \<Rightarrow> string \<times> string \<Rightarrow> string \<times> string \<Rightarrow> control_frame" where
  "controlFrame k g target requester =
     \<lparr>cfRecipient = fst target, cfDevice = snd target, cfKind = k, cfGroup = g,
      cfUser = fst requester, cfUserDevice = snd requester\<rparr>"

definition notifyHistoryRequest ::
  "env \<Rightarrow> (string list \<Rightarrow> string list) \<Rightarrow> json option \<Rightarrow> peer_body \<Rightarrow> delivery \<Rightarrow> peer_outcome" where
  "notifyHistoryRequest e shuffle authUserIdRaw body st =
     (case peerRequest authUserIdRaw body of
        Inl err \<Rightarrow> (Inl err, st, [])
      | Inr (g, u, d) \<Rightarrow>
          (let (ms, st') = routedMembers g st in
           case elect (eOnline e) (memberKey u d) (excludedKeys (pbExclude body)) 0 (shuffle ms) of
             (Some (m, mu, md), _) \<Rightarrow> (Inr (Forwarded m), st', [controlFrame HistoryRequest g (mu, md) (u, d)])
           | (None, n) \<Rightarrow> (Inr (NoPeerOnline n), st', [])))"

definition notifyBaseRefreshRequest ::
  "env \<Rightarrow> (string list \<Rightarrow> string list) \<Rightarrow> json option \<Rightarrow> peer_body \<Rightarrow> delivery \<Rightarrow> peer_outcome" where
  "notifyBaseRefreshRequest e shuffle authUserIdRaw body st =
     (case peerRequest authUserIdRaw body of
        Inl err \<Rightarrow> (Inl err, st, [])
      | Inr (g, u, d) \<Rightarrow>
          (let (ms, st') = routedMembers g st in
           case elect (eOnline e) (memberKey u d) [] 0 (shuffle ms) of
             (Some (m, mu, md), _) \<Rightarrow> (Inr (Forwarded m), st', [controlFrame BaseRefreshRequest g (mu, md) (u, d)])
           | (None, n) \<Rightarrow> (Inr (NoPeerOnline n), st', [])))"

text \<open>The stored requests handed to the member that was found.\<close>

definition drainFrames :: "string \<Rightarrow> string \<times> string \<Rightarrow> string \<Rightarrow> string list \<Rightarrow> control_frame list" where
  "drainFrames g target senderKey stored =
     concat (map (\<lambda>k. if k = senderKey then [] else
        (case splitKey k of None \<Rightarrow> [] | Some (su, sd) \<Rightarrow> [controlFrame WelcomeRequest g target (su, sd)])) stored)"

definition storeWelcomeRequest :: "string \<Rightarrow> string \<times> string \<Rightarrow> string list \<Rightarrow> delivery \<Rightarrow> delivery" where
  "storeWelcomeRequest g requester ms st =
     (let senderKey = memberKey (fst requester) (snd requester);
          users = uniq (filter (\<lambda>u. u \<noteq> []) (map (\<lambda>m. hd (split_on (CHR '':'') m)) (filter (\<lambda>m. m \<noteq> senderKey) ms)))
      in st\<lparr>pendingWelcome := (pendingWelcome st)(g :=
               (if senderKey \<in> set (pendingWelcome st g) then pendingWelcome st g
                else pendingWelcome st g @ [senderKey])),
            pendingNotify := (\<lambda>u. if u \<in> set users
               then pendingNotify st u @ [(g, fst requester, snd requester)] else pendingNotify st u)\<rparr>)"

definition notifyWelcomeRequest :: "env \<Rightarrow> json option \<Rightarrow> peer_body \<Rightarrow> delivery \<Rightarrow> peer_outcome" where
  "notifyWelcomeRequest e authUserIdRaw body st =
     (case peerRequest authUserIdRaw body of
        Inl err \<Rightarrow> (Inl err, st, [])
      | Inr (g, u, d) \<Rightarrow>
          (let (ms, st') = routedMembers g st in
           case elect (eOnline e) (memberKey u d) [] 0 ms of
             (Some (m, mu, md), _) \<Rightarrow>
               (Inr (Forwarded m), st'\<lparr>pendingWelcome := (pendingWelcome st')(g := [])\<rparr>,
                controlFrame WelcomeRequest g (mu, md) (u, d)
                  # drainFrames g (mu, md) (memberKey u d) (pendingWelcome st' g))
           | (None, n) \<Rightarrow> (Inr (NoPeerOnline n), storeWelcomeRequest g (u, d) ms st', [])))"

section \<open>The election\<close>

text \<open>A member that is online and is not the requester; one that the requester has not excluded.\<close>

definition reachablePeer :: "(string \<Rightarrow> bool) \<Rightarrow> string \<Rightarrow> string \<Rightarrow> bool" where
  "reachablePeer online senderKey m \<longleftrightarrow> m \<noteq> senderKey
     \<and> (case splitKey m of None \<Rightarrow> False | Some (u, d) \<Rightarrow> online (memberKey u d))"

definition eligible :: "(string \<Rightarrow> bool) \<Rightarrow> string \<Rightarrow> string list \<Rightarrow> string \<Rightarrow> bool" where
  "eligible online senderKey excluded m \<longleftrightarrow> reachablePeer online senderKey m \<and> toLowerCase m \<notin> set excluded"

lemma elect_Cons:
  "elect online k ex n (m # ms) =
     (if eligible online k ex m then (Some (m, the (splitKey m)), n)
      else elect online k ex (if reachablePeer online k m then n + 1 else n) ms)"
  by (simp add: eligible_def reachablePeer_def split: option.splits prod.splits)

lemma elect_Some:
  "elect online k ex n ms = (Some (m, ud), n') \<Longrightarrow> m \<in> set ms \<and> eligible online k ex m \<and> splitKey m = Some ud"
proof (induction ms arbitrary: n)
  case Nil
  then show ?case by simp
next
  case (Cons x xs)
  show ?case
  proof (cases "eligible online k ex x")
    case True
    with Cons.prems have "m = x" "ud = the (splitKey x)" unfolding elect_Cons by auto
    with True show ?thesis by (auto simp: eligible_def reachablePeer_def split: option.splits)
  next
    case False
    with Cons.prems have "elect online k ex (if reachablePeer online k x then n + 1 else n) xs = (Some (m, ud), n')"
      unfolding elect_Cons by simp
    from Cons.IH [OF this] show ?thesis by simp
  qed
qed

lemma elect_None:
  "elect online k ex n ms = (None, n') \<Longrightarrow>
     (\<forall>m \<in> set ms. \<not> eligible online k ex m) \<and> n' = n + length (filter (reachablePeer online k) ms)"
proof (induction ms arbitrary: n)
  case Nil
  then show ?case by simp
next
  case (Cons x xs)
  from Cons.prems have x: "\<not> eligible online k ex x"
    and rec: "elect online k ex (if reachablePeer online k x then n + 1 else n) xs = (None, n')"
    unfolding elect_Cons by (simp_all split: if_splits)
  from Cons.IH [OF rec] x show ?case by auto
qed

lemma elect_cases:
  obtains (found) m u d n' where "elect online k ex n ms = (Some (m, u, d), n')" "m \<in> set ms"
    "eligible online k ex m" "splitKey m = Some (u, d)"
  | (none) "elect online k ex n ms = (None, n + length (filter (reachablePeer online k) ms))"
    "\<forall>m \<in> set ms. \<not> eligible online k ex m"
proof (cases "elect online k ex n ms")
  case (Pair r n')
  show thesis
  proof (cases r)
    case None
    with Pair elect_None [of online k ex n ms n'] none show thesis by simp
  next
    case (Some x)
    obtain m u d where "x = (m, u, d)" by (metis prod_cases3)
    with Pair Some elect_Some [of online k ex n ms m "(u, d)" n'] found show thesis by simp
  qed
qed

text \<open>
  The election of a history request. Whatever order the members are drawn in, a request is
  forwarded exactly when some member of the group is online, is not the requester and is not excluded,
  and the frame goes to such a member; otherwise the answer counts the members that are online, all of
  them excluded, so that a positive count says every reachable member has been heard from.
\<close>

theorem history_election:
  assumes "peerRequest auth body = Inr (g, u, d)" and "\<And>xs. mset (shuffle xs) = mset xs"
    and "notifyHistoryRequest e shuffle auth body st = (r, st', frames)"
  defines "peers \<equiv> fst (routedMembers g st)"
    and "ok \<equiv> eligible (eOnline e) (memberKey u d) (excludedKeys (pbExclude body))"
  shows "(\<exists>m mu md. r = Inr (Forwarded m) \<and> m \<in> set peers \<and> ok m \<and> splitKey m = Some (mu, md)
            \<and> frames = [controlFrame HistoryRequest g (mu, md) (u, d)])
      \<or> (\<exists>n. r = Inr (NoPeerOnline n) \<and> frames = [] \<and> (\<forall>m \<in> set peers. \<not> ok m)
            \<and> n = length (filter (reachablePeer (eOnline e) (memberKey u d)) peers))"
proof -
  obtain ms s where route: "routedMembers g st = (ms, s)" by fastforce
  have mset: "mset (shuffle ms) = mset ms" by (rule assms(2))
  then have set: "set (shuffle ms) = set ms" by (rule mset_eq_setD)
  have len: "length (filter P (shuffle ms)) = length (filter P ms)" for P
    using mset by (metis mset_filter size_mset)
  show ?thesis
  proof (cases rule: elect_cases [of "eOnline e" "memberKey u d" "excludedKeys (pbExclude body)" 0 "shuffle ms"])
    case (found m mu md n')
    then have "r = Inr (Forwarded m)" "frames = [controlFrame HistoryRequest g (mu, md) (u, d)]"
      using assms(1,3) route by (simp_all add: notifyHistoryRequest_def)
    with found set show ?thesis by (auto simp: peers_def ok_def route)
  next
    case none
    then have "r = Inr (NoPeerOnline (length (filter (reachablePeer (eOnline e) (memberKey u d)) ms)))" "frames = []"
      using assms(1,3) route by (simp_all add: notifyHistoryRequest_def len)
    with none set show ?thesis by (auto simp: peers_def ok_def route)
  qed
qed

lemma routed_again:
  assumes "routedMembers g st = (ms, st')"
  shows "set (fst (routedMembers g st')) = set ms"
proof (cases "routing st g = []")
  case False
  with assms show ?thesis by (auto simp: routedMembers_def)
next
  case True
  define as where "as = map deviceKey (activeMemberships g st)"
  show ?thesis
  proof (cases "as = []")
    case True
    with assms \<open>routing st g = []\<close> show ?thesis by (simp add: routedMembers_def as_def)
  next
    case False
    then have ms: "ms = as" and st': "st' = sadd g as st"
      using assms True by (auto simp: routedMembers_def as_def Let_def)
    have "set (routing st' g) = set as" using True by (simp add: st' set_routing_sadd)
    moreover from this False have "routing st' g \<noteq> []" by auto
    ultimately show ?thesis by (simp add: routedMembers_def ms)
  qed
qed

text \<open>A requester that asks again and again, each time excluding the members it has heard from.\<close>

definition chaseBody :: "string \<Rightarrow> string \<Rightarrow> string \<Rightarrow> string list \<Rightarrow> peer_body" where
  "chaseBody g u d heard =
     \<lparr>pbGroup = Some (JStr g), pbUser = Some (JStr u), pbDevice = Some (JStr d),
      pbExclude = Some (JArr (map JStr heard))\<rparr>"

fun chase :: "nat \<Rightarrow> env \<Rightarrow> (string list \<Rightarrow> string list) \<Rightarrow> string \<Rightarrow> string \<Rightarrow> string \<Rightarrow> string list \<Rightarrow> delivery
    \<Rightarrow> (string list \<times> nat) option" where
  "chase 0 e shuffle g u d heard st = None"
| "chase (Suc n) e shuffle g u d heard st =
     (case notifyHistoryRequest e shuffle None (chaseBody g u d heard) st of
        (Inl err, _) \<Rightarrow> None
      | (Inr (Forwarded m), st', _) \<Rightarrow> chase n e shuffle g u d (heard @ [m]) st'
      | (Inr (NoPeerOnline k), _) \<Rightarrow> Some (heard, k))"

lemma splitKey_colon: "splitKey m = Some ud \<Longrightarrow> CHR '':'' \<in> set m"
proof (rule ccontr)
  assume "splitKey m = Some ud" and "CHR '':'' \<notin> set m"
  then show False by (simp add: splitKey_def split_on_single)
qed

lemma excludedKeys_heard:
  assumes "length heard \<le> MAX_HISTORY_EXCLUSIONS"
    and "\<forall>m \<in> set heard. CHR '':'' \<in> set m \<and> length m \<le> MAX_MEMBER_KEY_LENGTH"
  shows "excludedKeys (Some (JArr (map JStr heard))) = map toLowerCase heard"
proof -
  have "filter (\<lambda>k. isStr k \<and> CHR '':'' \<in> set (strOf k) \<and> length (strOf k) \<le> MAX_MEMBER_KEY_LENGTH) (map JStr heard)
      = map JStr heard"
    using assms(2) by (auto simp: filter_id_conv isStr_def strOf_def)
  then show ?thesis using assms(1) by (simp add: excludedKeys_def Let_def o_def strOf_def)
qed

definition safeId :: "string \<Rightarrow> bool" where
  "safeId s \<longleftrightarrow> sanitizeQueryValue (Some (JStr s)) = Inr s"

lemma chase_request: "safeId g \<Longrightarrow> safeId u \<Longrightarrow> safeId d \<Longrightarrow> peerRequest None (chaseBody g u d heard) = Inr (g, u, d)"
  by (simp add: peerRequest_def chaseBody_def safeId_def result_simps assertRequesterMatchesCaller_def
      sanitizeOptionalQueryValue_def)

definition online_env :: env where
  "online_env = demo_env\<lparr>eOnline := (\<lambda>_. True)\<rparr>"

lemma safe_demo: "safeId ''g''" "safeId ''cat''" "safeId ''d3''"
  by (simp_all add: safeId_def sanitizeQueryValue_def SAFE_QUERY_VALUE_REGEX_def safe_char_def alnum_def
      trim_def js_ws_def)

lemma demo_peers: "fst (routedMembers ''g'' demo_store) = [''ann:d1'', ''bob:d2'']"
  by (simp add: routedMembers_def activeMemberships_def deviceKey_def memberKey_def demo_defs Let_def)

lemma demo_split: "splitKey ''ann:d1'' = Some (''ann'', ''d1'')" "splitKey ''bob:d2'' = Some (''bob'', ''d2'')"
  by (simp_all add: splitKey_def)

lemma demo_reachable: "{m \<in> set (fst (routedMembers ''g'' demo_store)).
    reachablePeer (eOnline online_env) (memberKey ''cat'' ''d3'') m} = {''ann:d1'', ''bob:d2''}"
  unfolding demo_peers by (auto simp: reachablePeer_def demo_split online_env_def memberKey_def)

theorem history_election_witness:
  "\<exists>r st' frames. notifyHistoryRequest online_env rev None (chaseBody ''g'' ''cat'' ''d3'' []) demo_store = (r, st', frames)
     \<and> (\<exists>m. r = Inr (Forwarded m) \<and> m \<in> {''ann:d1'', ''bob:d2''})"
proof -
  let ?body = "chaseBody ''g'' ''cat'' ''d3'' []"
  obtain r st' frames where run: "notifyHistoryRequest online_env rev None ?body demo_store = (r, st', frames)"
    by (metis prod_cases3)
  have "eligible (eOnline online_env) (memberKey ''cat'' ''d3'') (excludedKeys (pbExclude ?body)) ''ann:d1''"
    by (simp add: eligible_def reachablePeer_def demo_split online_env_def memberKey_def chaseBody_def excludedKeys_def)
  with history_election [OF chase_request [OF safe_demo] _ run] demo_peers run show ?thesis by auto
qed

lemma chase_step:
  fixes e :: env
  assumes ids: "safeId g" "safeId u" "safeId d" and perm: "\<And>xs. mset (shuffle xs) = mset xs"
    and heard: "length heard \<le> MAX_HISTORY_EXCLUSIONS"
      "\<forall>m \<in> set heard. CHR '':'' \<in> set m \<and> length m \<le> MAX_MEMBER_KEY_LENGTH"
    and route: "routedMembers g st = (ms, st')"
  defines "reach \<equiv> {m \<in> set ms. reachablePeer (eOnline e) (memberKey u d) m}"
  shows "(\<exists>m \<in> reach. toLowerCase m \<notin> toLowerCase ` set heard
            \<and> chase (Suc k) e shuffle g u d heard st = chase k e shuffle g u d (heard @ [m]) st')
       \<or> (\<exists>n. (\<forall>m \<in> reach. toLowerCase m \<in> toLowerCase ` set heard)
            \<and> chase (Suc k) e shuffle g u d heard st = Some (heard, n))"
proof -
  let ?body = "chaseBody g u d heard"
  obtain r s frames where run: "notifyHistoryRequest e shuffle None ?body st = (r, s, frames)" by (metis prod_cases3)
  have ex: "excludedKeys (pbExclude ?body) = map toLowerCase heard"
    by (simp add: chaseBody_def excludedKeys_heard [OF heard])
  have s: "s = st'"
    using run chase_request [OF ids] route
    by (auto simp: notifyHistoryRequest_def split: prod.splits option.splits)
  have ok: "eligible (eOnline e) (memberKey u d) (map toLowerCase heard) m \<longleftrightarrow>
      reachablePeer (eOnline e) (memberKey u d) m \<and> toLowerCase m \<notin> toLowerCase ` set heard" for m
    by (simp add: eligible_def)
  from history_election [OF chase_request [OF ids] perm run] show ?thesis
    unfolding ex route fst_conv ok
    by (elim disjE exE conjE) (auto simp: run s reach_def)
qed

lemma chase_bound:
  assumes "finite R" "card R \<le> MAX_HISTORY_EXCLUSIONS"
      "\<forall>m \<in> R. reachablePeer online k m \<and> length m \<le> MAX_MEMBER_KEY_LENGTH"
    and "set heard \<subseteq> R" "distinct heard"
  shows "length heard \<le> MAX_HISTORY_EXCLUSIONS"
    "\<forall>m \<in> set heard. CHR '':'' \<in> set m \<and> length m \<le> MAX_MEMBER_KEY_LENGTH"
proof -
  have "length heard = card (set heard)" using assms(5) by (simp add: distinct_card)
  also have "\<dots> \<le> card R" by (rule card_mono [OF assms(1,4)])
  finally show "length heard \<le> MAX_HISTORY_EXCLUSIONS" using assms(2) by simp
  show "\<forall>m \<in> set heard. CHR '':'' \<in> set m \<and> length m \<le> MAX_MEMBER_KEY_LENGTH"
  proof
    fix m assume "m \<in> set heard"
    with assms(3,4) have "reachablePeer online k m" "length m \<le> MAX_MEMBER_KEY_LENGTH" by auto
    then show "CHR '':'' \<in> set m \<and> length m \<le> MAX_MEMBER_KEY_LENGTH"
      using splitKey_colon by (auto simp: reachablePeer_def split: option.splits)
  qed
qed

lemma chase_run:
  assumes ids: "safeId g" "safeId u" "safeId d" and perm: "\<And>xs. mset (shuffle xs) = mset xs"
    and R: "finite R" "card R \<le> MAX_HISTORY_EXCLUSIONS"
      "\<forall>m \<in> R. reachablePeer (eOnline e) (memberKey u d) m \<and> length m \<le> MAX_MEMBER_KEY_LENGTH"
  shows "R = {m \<in> set (fst (routedMembers g st)). reachablePeer (eOnline e) (memberKey u d) m} \<Longrightarrow>
    set heard \<subseteq> R \<Longrightarrow> distinct heard \<Longrightarrow>
    card {m \<in> R. toLowerCase m \<notin> toLowerCase ` set heard} \<le> k \<Longrightarrow>
    \<exists>heard' n. chase (Suc k) e shuffle g u d heard st = Some (heard', n)
      \<and> set heard' \<subseteq> R \<and> distinct heard' \<and> (\<forall>m \<in> R. toLowerCase m \<in> toLowerCase ` set heard')"
proof (induction k arbitrary: heard st)
  case (0 heard st)
  obtain ms st' where route: "routedMembers g st = (ms, st')" by fastforce
  have none: "\<not> (m \<in> R \<and> toLowerCase m \<notin> toLowerCase ` set heard)" for m
    using 0(4) R(1) by auto
  have R_eq: "R = {m \<in> set ms. reachablePeer (eOnline e) (memberKey u d) m}" using 0(1) route by simp
  from chase_step [OF ids perm chase_bound [OF R 0(2,3)] route, where k = 0 and e = e, folded R_eq] none 0(2,3)
  show ?case by blast
next
  case (Suc k heard st)
  obtain ms st' where route: "routedMembers g st = (ms, st')" by fastforce
  have R_eq: "R = {m \<in> set ms. reachablePeer (eOnline e) (memberKey u d) m}" using Suc.prems(1) route by simp
  have R_eq': "R = {m \<in> set (fst (routedMembers g st')). reachablePeer (eOnline e) (memberKey u d) m}"
    unfolding R_eq routed_again [OF route] ..
  from chase_step [OF ids perm chase_bound [OF R Suc.prems(2,3)] route, where k = "Suc k" and e = e, folded R_eq]
  show ?case
  proof (elim disjE bexE conjE)
    fix m
    assume m: "m \<in> R" "toLowerCase m \<notin> toLowerCase ` set heard"
      and run: "chase (Suc (Suc k)) e shuffle g u d heard st = chase (Suc k) e shuffle g u d (heard @ [m]) st'"
    let ?U = "\<lambda>h. {m \<in> R. toLowerCase m \<notin> toLowerCase ` set h}"
    have "?U (heard @ [m]) \<subset> ?U heard" using m by auto
    then have "card (?U (heard @ [m])) < card (?U heard)" using R(1) by (intro psubset_card_mono) simp_all
    then have "card (?U (heard @ [m])) \<le> k" using Suc.prems(4) by linarith
    moreover have "set (heard @ [m]) \<subseteq> R" "distinct (heard @ [m])" using m Suc.prems(2,3) by auto
    ultimately show ?thesis unfolding run using Suc.IH [OF R_eq'] by blast
  next
    assume "\<exists>n. (\<forall>m \<in> R. toLowerCase m \<in> toLowerCase ` set heard)
        \<and> chase (Suc (Suc k)) e shuffle g u d heard st = Some (heard, n)"
    then show ?thesis using Suc.prems(2,3) by blast
  qed
qed

text \<open>
  A chase for history ends. A requester that excludes, each time it asks, the members it has heard
  from runs out of members after at most as many elections as there are members online, whatever the
  draws, and then every one of them has been elected or shares a key, up to case, with one that was.
  This needs at most 128 members online, the length of the exclusion list the server keeps.
\<close>

theorem chase_ends:
  assumes "safeId g" "safeId u" "safeId d" and "\<And>xs. mset (shuffle xs) = mset xs"
    and "R = {m \<in> set (fst (routedMembers g st)). reachablePeer (eOnline e) (memberKey u d) m}"
    and "card R \<le> MAX_HISTORY_EXCLUSIONS" and "\<forall>m \<in> R. length m \<le> MAX_MEMBER_KEY_LENGTH"
  shows "\<exists>heard n. chase (Suc (card R)) e shuffle g u d [] st = Some (heard, n)
    \<and> set heard \<subseteq> R \<and> distinct heard \<and> (\<forall>m \<in> R. toLowerCase m \<in> toLowerCase ` set heard)"
proof -
  have R: "finite R" "\<forall>m \<in> R. reachablePeer (eOnline e) (memberKey u d) m \<and> length m \<le> MAX_MEMBER_KEY_LENGTH"
    using assms(5,7) by auto
  show ?thesis by (rule chase_run [OF assms(1-4) R(1) assms(6) R(2) assms(5)]) simp_all
qed

theorem chase_ends_witness:
  "\<exists>heard n. chase 3 online_env rev ''g'' ''cat'' ''d3'' [] demo_store = Some (heard, n)
     \<and> set heard \<subseteq> {''ann:d1'', ''bob:d2''} \<and> distinct heard"
proof -
  let ?R = "{''ann:d1'', ''bob:d2''}"
  have "\<exists>heard n. chase (Suc (card ?R)) online_env rev ''g'' ''cat'' ''d3'' [] demo_store = Some (heard, n)
      \<and> set heard \<subseteq> ?R \<and> distinct heard \<and> (\<forall>m \<in> ?R. toLowerCase m \<in> toLowerCase ` set heard)"
    by (rule chase_ends [OF safe_demo _ demo_reachable [symmetric]])
      (simp_all add: MAX_HISTORY_EXCLUSIONS_def MAX_MEMBER_KEY_LENGTH_def)
  moreover have "Suc (card ?R) = 3" by simp
  ultimately show ?thesis by metis
qed

section \<open>Welcome requests\<close>

text \<open>
  A request for a Welcome is not lost. Either it is forwarded to a member of the group that is
  online, together with every request kept so far, and nothing is kept any more; or nobody can be
  reached, and the request is kept beside the earlier ones and is put on the list of every other
  member's user, to be read when that user comes back.
\<close>

theorem welcome_request_kept:
  assumes "peerRequest auth body = Inr (g, u, d)" and "notifyWelcomeRequest e auth body st = (r, st', frames)"
  defines "peers \<equiv> fst (routedMembers g st)"
  shows "(\<exists>m mu md. r = Inr (Forwarded m) \<and> m \<in> set peers
            \<and> reachablePeer (eOnline e) (memberKey u d) m \<and> splitKey m = Some (mu, md)
            \<and> controlFrame WelcomeRequest g (mu, md) (u, d) \<in> set frames
            \<and> (\<forall>k \<in> set (pendingWelcome st g). \<forall>su sd. k \<noteq> memberKey u d \<and> splitKey k = Some (su, sd)
                 \<longrightarrow> controlFrame WelcomeRequest g (mu, md) (su, sd) \<in> set frames)
            \<and> pendingWelcome st' g = [])
      \<or> (\<exists>n. r = Inr (NoPeerOnline n) \<and> (\<forall>m \<in> set peers. \<not> reachablePeer (eOnline e) (memberKey u d) m)
            \<and> set (pendingWelcome st' g) = insert (memberKey u d) (set (pendingWelcome st g))
            \<and> (\<forall>m \<in> set peers. \<forall>mu md. m \<noteq> memberKey u d \<and> splitKey m = Some (mu, md)
                 \<longrightarrow> (g, u, d) \<in> set (pendingNotify st' mu)))"
proof -
  obtain ms s where route: "routedMembers g st = (ms, s)" by fastforce
  have kept: "pendingWelcome s = pendingWelcome st"
    using route by (auto simp: routedMembers_def sadd_def Let_def split: if_splits)
  have peers: "peers = ms" by (simp add: peers_def route)
  show ?thesis
  proof (cases rule: elect_cases [of "eOnline e" "memberKey u d" "[]" 0 ms])
    case (found m mu md n')
    have run: "r = Inr (Forwarded m)" "st' = s\<lparr>pendingWelcome := (pendingWelcome s)(g := [])\<rparr>"
      "frames = controlFrame WelcomeRequest g (mu, md) (u, d) # drainFrames g (mu, md) (memberKey u d) (pendingWelcome s g)"
      using assms(1,2) route found(1) by (simp_all add: notifyWelcomeRequest_def)
    have "controlFrame WelcomeRequest g (mu, md) (su, sd) \<in> set frames"
      if "k \<in> set (pendingWelcome st g)" "k \<noteq> memberKey u d" "splitKey k = Some (su, sd)" for k su sd
    proof -
      have "controlFrame WelcomeRequest g (mu, md) (su, sd)
          \<in> set (drainFrames g (mu, md) (memberKey u d) (pendingWelcome s g))"
        unfolding drainFrames_def set_concat set_map using that kept
        by (intro UnionI [of "{controlFrame WelcomeRequest g (mu, md) (su, sd)}"]) (force intro: image_eqI [of _ _ k])+
      then show ?thesis by (simp add: run(3))
    qed
    with found run show ?thesis unfolding peers by (auto simp: eligible_def)
  next
    case none
    have run: "r = Inr (NoPeerOnline (length (filter (reachablePeer (eOnline e) (memberKey u d)) ms)))"
      "st' = storeWelcomeRequest g (u, d) ms s"
      using assms(1,2) route none(1) by (simp_all add: notifyWelcomeRequest_def)
    have "set (pendingWelcome st' g) = insert (memberKey u d) (set (pendingWelcome st g))"
      by (auto simp: run(2) storeWelcomeRequest_def Let_def kept)
    moreover have "(g, u, d) \<in> set (pendingNotify st' mu)"
      if "m \<in> set ms" "m \<noteq> memberKey u d" "splitKey m = Some (mu, md)" for m mu md
    proof -
      have "hd (split_on (CHR '':'') m) = mu" "mu \<noteq> []"
        using that(3) by (auto simp: splitKey_def split: list.splits if_splits)
      with that(1,2) have "mu \<in> set (uniq (filter (\<lambda>u. u \<noteq> [])
          (map (\<lambda>m. hd (split_on (CHR '':'') m)) (filter (\<lambda>m. m \<noteq> memberKey u d) ms))))" by force
      then show ?thesis by (simp add: run(2) storeWelcomeRequest_def Let_def)
    qed
    ultimately show ?thesis using none run(1) unfolding peers by (auto simp: eligible_def)
  qed
qed

theorem welcome_request_kept_witness:
  "\<exists>r st' frames. notifyWelcomeRequest demo_env None (chaseBody ''g'' ''cat'' ''d3'' []) demo_store = (r, st', frames)
     \<and> set (pendingWelcome st' ''g'') = {memberKey ''cat'' ''d3''}"
proof -
  let ?body = "chaseBody ''g'' ''cat'' ''d3'' []"
  obtain r st' frames where run: "notifyWelcomeRequest demo_env None ?body demo_store = (r, st', frames)"
    by (metis prod_cases3)
  have "\<not> reachablePeer (eOnline demo_env) k m" for k m
    by (simp add: reachablePeer_def demo_env_def split: option.splits)
  moreover have "pendingWelcome demo_store ''g'' = []" by (simp add: demo_store_def emptyStore_def)
  ultimately show ?thesis
    using welcome_request_kept [OF chase_request [OF safe_demo] run] run by auto
qed

section \<open>Member keys\<close>

lemma hd_split_on: "hd (split_on c s) = takeWhile (\<lambda>x. x \<noteq> c) s"
  by (induction s) (auto split: list.splits simp: hd_conv_nth)

lemma no_sep_takeWhile: "c \<notin> set (takeWhile (\<lambda>x. x \<noteq> c) s)"
  by (induction s) auto

text \<open>
  C30: A member key is read back as the user and the device it was made of exactly when neither is
  empty and neither contains the separator. The validator of identifiers lets the separator through,
  so the second half of the condition is the caller's to ensure.
\<close>

theorem member_key_roundtrip:
  "splitKey (memberKey u d) = Some (u, d) \<longleftrightarrow>
     u \<noteq> [] \<and> d \<noteq> [] \<and> CHR '':'' \<notin> set u \<and> CHR '':'' \<notin> set d"
proof (cases "CHR '':'' \<in> set u")
  case True
  have "splitKey (memberKey u d) \<noteq> Some (u, d)"
  proof
    assume "splitKey (memberKey u d) = Some (u, d)"
    then have "hd (split_on (CHR '':'') (memberKey u d)) = u"
      by (auto simp: splitKey_def split: list.splits if_splits)
    then have "takeWhile (\<lambda>x. x \<noteq> CHR '':'') (memberKey u d) = u" unfolding hd_split_on .
    with True no_sep_takeWhile [of "CHR '':''" "memberKey u d"] show False by simp
  qed
  with True show ?thesis by simp
next
  case False
  then have split: "split_on (CHR '':'') (memberKey u d) = u # split_on (CHR '':'') d"
    by (simp add: memberKey_def split_on_append)
  obtain x xs where d: "split_on (CHR '':'') d = x # xs" by (cases "split_on (CHR '':'') d") auto
  have "x = takeWhile (\<lambda>c. c \<noteq> CHR '':'') d" using hd_split_on [of "CHR '':''" d] d by simp
  then have "x = d \<longleftrightarrow> CHR '':'' \<notin> set d" by (auto simp: takeWhile_eq_all_conv)
  with False show ?thesis by (auto simp: splitKey_def split d)
qed

end
