(* ===== verification/Membership.thy ===== *)
theory Membership
  imports Peer_Requests
begin

text \<open>
  Who belongs to a group and which devices are seated in it (\<open>controllers/members.controller.ts\<close>,
  \<open>controllers/invitations.controller.ts\<close>, \<open>utils/group-invite.ts\<close>, \<open>utils/user-blocks.ts\<close>). The header
  the proxy sets with the identity of the caller is a \<^typ>\<open>json option\<close>, the one that marks a global
  administrator a \<^typ>\<open>string option\<close>. Blocks between accounts belong to another service and are an
  argument: the pairs of blocker and blocked. Display names are an argument too.
\<close>

section \<open>Membership of people\<close>

definition isMemberOf :: "string \<Rightarrow> string \<Rightarrow> delivery \<Rightarrow> bool" where
  "isMemberOf g u st \<longleftrightarrow> list_ex (\<lambda>m. mGroup m = g \<and> mUser m = u) (members st)"

definition assertCallerMayMutateMembership ::
  "string \<Rightarrow> string \<Rightarrow> json option \<Rightarrow> string option \<Rightarrow> bool \<Rightarrow> delivery \<Rightarrow> (http_error, unit) result" where
  "assertCallerMayMutateMembership g target headerUserId headerGlobalAdmin allowCreationBootstrap st =
     (if headerGlobalAdmin = Some ''true'' then Inr ()
      else bind_r (sanitizeOptionalQueryValue headerUserId) (\<lambda>caller.
        case caller of
          None \<Rightarrow> Inr ()
        | Some c \<Rightarrow>
            if isMemberOf g c st then Inr ()
            else if allowCreationBootstrap \<and> c = target \<and> \<not> list_ex (\<lambda>m. mGroup m = g) (members st) then Inr ()
            else Inl (Forbidden ''not authorized'')))"

definition assertCallerReadsRoster ::
  "string \<Rightarrow> json option \<Rightarrow> string option \<Rightarrow> delivery \<Rightarrow> (http_error, unit) result" where
  "assertCallerReadsRoster g headerUserId headerGlobalAdmin st =
     (if headerGlobalAdmin = Some ''true'' then Inr ()
      else bind_r (sanitizeOptionalQueryValue headerUserId) (\<lambda>caller.
        case caller of
          None \<Rightarrow> Inr ()
        | Some c \<Rightarrow> if isMemberOf g c st then Inr () else Inl (Forbidden ''not a member'')))"

record user_group =
  ugGroup :: group_row
  ugBaseEpoch :: "int option"

definition isDistribution :: "group_row \<Rightarrow> bool" where
  "isDistribution g \<longleftrightarrow> truthy (gDistributionWorkspaceId g) \<or> truthy (gDistributionChannelId g)"

definition getUserGroups ::
  "json option \<Rightarrow> json option \<Rightarrow> string option \<Rightarrow> delivery \<Rightarrow> (http_error, user_group list) result" where
  "getUserGroups userId headerUserId headerGlobalAdmin st =
     bind_r (sanitizeQueryValue userId) (\<lambda>u.
     bind_r (assertCallerOwnsUserId headerUserId headerGlobalAdmin u) (\<lambda>_.
       let gids = uniq (map mGroup (filter (\<lambda>m. mUser m = u) (members st)));
           found = filter (\<lambda>g. gId g \<in> set gids) (groups st);
           active = sort_key (\<lambda>g. - gUpdatedAt g) (filter (\<lambda>g. \<not> isDistribution g \<and> gDeletedAt g = None) found)
       in Inr (map (\<lambda>g. \<lparr>ugGroup = g,
            ugBaseEpoch = map_option iBase (find (\<lambda>i. iGroup i = gId g) (rev (groupInfos st)))\<rparr>) active)))"

definition getDismissedGroups ::
  "json option \<Rightarrow> json option \<Rightarrow> string option \<Rightarrow> delivery \<Rightarrow> (http_error, string list) result" where
  "getDismissedGroups userId headerUserId headerGlobalAdmin st =
     bind_r (sanitizeQueryValue userId) (\<lambda>u.
     bind_r (assertCallerOwnsUserId headerUserId headerGlobalAdmin u) (\<lambda>_.
       Inr (map sGroup (filter (\<lambda>r. sUser r = u) (dismissed st)))))"

definition dismissIndex :: "dismissed_row \<Rightarrow> string \<times> string" where
  "dismissIndex r = (sUser r, sGroup r)"

text \<open>A request that may fail leaves the state alone when it does.\<close>

definition attempt :: "(http_error, 'a) result \<Rightarrow> ('a \<Rightarrow> (http_error, 'b) result \<times> delivery) \<Rightarrow> delivery
    \<Rightarrow> (http_error, 'b) result \<times> delivery" where
  "attempt r k st = (case r of Inl err \<Rightarrow> (Inl err, st) | Inr x \<Rightarrow> k x)"

definition dismissGroup ::
  "json option \<Rightarrow> json option \<Rightarrow> json option \<Rightarrow> string option \<Rightarrow> delivery \<Rightarrow> (http_error, unit) result \<times> delivery" where
  "dismissGroup userId groupId headerUserId headerGlobalAdmin st =
     attempt
       (bind_r (sanitizeQueryValue userId) (\<lambda>u.
        bind_r (assertCallerOwnsUserId headerUserId headerGlobalAdmin u) (\<lambda>_.
        bind_r (sanitizeQueryValue (orBlank groupId)) (\<lambda>g. Inr (u, g)))))
       (\<lambda>(u, g). (Inr (), st\<lparr>dismissed := insert_or_ignore dismissIndex \<lparr>sUser = u, sGroup = g\<rparr> (dismissed st)\<rparr>)) st"

definition undismissGroup ::
  "json option \<Rightarrow> json option \<Rightarrow> json option \<Rightarrow> string option \<Rightarrow> delivery \<Rightarrow> (http_error, unit) result \<times> delivery" where
  "undismissGroup userId groupId headerUserId headerGlobalAdmin st =
     attempt
       (bind_r (sanitizeQueryValue userId) (\<lambda>u.
        bind_r (assertCallerOwnsUserId headerUserId headerGlobalAdmin u) (\<lambda>_.
        bind_r (sanitizeQueryValue groupId) (\<lambda>g. Inr (u, g)))))
       (\<lambda>(u, g). (Inr (), st\<lparr>dismissed := delete_where (\<lambda>r. sUser r = u \<and> sGroup r = g) (dismissed st)\<rparr>)) st"

definition isBlockedBetween :: "(string \<times> string) list \<Rightarrow> string \<Rightarrow> string \<Rightarrow> bool" where
  "isBlockedBetween blocks a b \<longleftrightarrow>
     \<not> (a = [] \<or> b = [] \<or> a = b) \<and> ((a, b) \<in> set blocks \<or> (b, a) \<in> set blocks)"

definition memberIndex :: "member_row \<Rightarrow> string \<times> string" where
  "memberIndex m = (mGroup m, mUser m)"

definition pendingSeat :: "int \<Rightarrow> string \<Rightarrow> string \<Rightarrow> string \<Rightarrow> device_row" where
  "pendingSeat now u g d =
     \<lparr>dUser = u, dDevice = d, dGroup = g, dStatus = Pending, dKickedAt = None, dCreatedAt = now\<rparr>"

definition seatDevices :: "int \<Rightarrow> string \<Rightarrow> string \<Rightarrow> string list \<Rightarrow> device_row list \<Rightarrow> device_row list" where
  "seatDevices now u g ds rows = fold (\<lambda>d rs. insert_or_ignore deviceIndex (pendingSeat now u g d) rs) ds rows"

definition addGroupMember ::
  "env \<Rightarrow> (string \<times> string) list \<Rightarrow> json option \<Rightarrow> json option \<Rightarrow> json option \<Rightarrow> string option \<Rightarrow> delivery
     \<Rightarrow> (http_error, unit) result \<times> delivery" where
  "addGroupMember e blocks groupId userId headerUserId headerGlobalAdmin st =
     attempt
       (bind_r (sanitizeQueryValue groupId) (\<lambda>g.
        bind_r (sanitizeQueryValue userId) (\<lambda>u.
        bind_r (assertCallerMayMutateMembership g u headerUserId headerGlobalAdmin True st) (\<lambda>_.
        bind_r (sanitizeOptionalQueryValue headerUserId) (\<lambda>caller.
          if (case caller of None \<Rightarrow> False | Some c \<Rightarrow> isBlockedBetween blocks c u)
          then Inl (Forbidden ''USER_BLOCKED'') else Inr (g, u))))))
       (\<lambda>(g, u).
          let ds = map kDevice (filter (\<lambda>k. kUser k = u \<and> kCreatedAt k \<ge> eNow e - RETENTION_WINDOW_MS) (keyPackages st))
          in (Inr (),
              st\<lparr>members := upsert_row memberIndex \<lparr>mGroup = g, mUser = u, mRole = Member, mJoinedAt = eNow e\<rparr>
                              (\<lambda>m. m\<lparr>mJoinedAt := eNow e\<rparr>) (members st),
                 devices := seatDevices (eNow e) u g ds (devices st)\<rparr>)) st"

definition getGroupUserMembers ::
  "(string \<Rightarrow> string option) \<Rightarrow> json option \<Rightarrow> json option \<Rightarrow> string option \<Rightarrow> delivery
     \<Rightarrow> (http_error, (string \<times> string option) list) result" where
  "getGroupUserMembers names groupId headerUserId headerGlobalAdmin st =
     bind_r (sanitizeQueryValue groupId) (\<lambda>g.
     bind_r (assertCallerReadsRoster g headerUserId headerGlobalAdmin st) (\<lambda>_.
       Inr (map (\<lambda>m. (mUser m, names (mUser m))) (filter (\<lambda>m. mGroup m = g) (members st)))))"

definition getGroupMembers ::
  "(string \<Rightarrow> string option) \<Rightarrow> json option \<Rightarrow> json option \<Rightarrow> string option \<Rightarrow> delivery
     \<Rightarrow> (http_error, (string \<times> string \<times> string option) list) result" where
  "getGroupMembers names groupId headerUserId headerGlobalAdmin st =
     bind_r (sanitizeQueryValue groupId) (\<lambda>g.
     bind_r (assertCallerReadsRoster g headerUserId headerGlobalAdmin st) (\<lambda>_.
       Inr (map (\<lambda>m. (dUser m, dDevice m, names (dUser m))) (activeMemberships g st))))"

definition removeGroupMember ::
  "json option \<Rightarrow> json option \<Rightarrow> json option \<Rightarrow> string option \<Rightarrow> delivery \<Rightarrow> (http_error, unit) result \<times> delivery" where
  "removeGroupMember groupId userId headerUserId headerGlobalAdmin st =
     attempt
       (bind_r (sanitizeQueryValue groupId) (\<lambda>g.
        bind_r (sanitizeQueryValue userId) (\<lambda>u.
        bind_r (assertCallerMayMutateMembership g u headerUserId headerGlobalAdmin False st) (\<lambda>_. Inr (g, u)))))
       (\<lambda>(g, u).
          let toRemove = filter (\<lambda>k. take (length u + 1) k = u @ '':'') (routing st g)
          in (Inr (), srem g toRemove
                (st\<lparr>devices := delete_where (\<lambda>r. dGroup r = g \<and> dUser r = u) (devices st),
                    members := delete_where (\<lambda>m. mGroup m = g \<and> mUser m = u) (members st)\<rparr>))) st"

section \<open>Invitation links\<close>

definition groupInviteIsValid :: "int \<Rightarrow> invite_row \<Rightarrow> bool" where
  "groupInviteIsValid now v \<longleftrightarrow>
     \<not> vRevoked v
     \<and> (case vExpiresAt v of None \<Rightarrow> True | Some t \<Rightarrow> \<not> t < now)
     \<and> (case vMaxUses v of None \<Rightarrow> True | Some n \<Rightarrow> \<not> vUses v \<ge> n)"

definition liveGroup :: "string \<Rightarrow> delivery \<Rightarrow> group_row option" where
  "liveGroup g st = find (\<lambda>r. gId r = g \<and> gDeletedAt r = None) (groups st)"

definition assertCallerIsGroupMember ::
  "string \<Rightarrow> string \<Rightarrow> string option \<Rightarrow> delivery \<Rightarrow> (http_error, unit) result" where
  "assertCallerIsGroupMember caller g headerGlobalAdmin st =
     (if headerGlobalAdmin = Some ''true'' then Inr ()
      else if findMember g caller st = None then Inl (Forbidden ''Not a member'') else Inr ())"

definition createGroupInvite ::
  "string \<Rightarrow> string \<Rightarrow> json option \<Rightarrow> json option \<Rightarrow> string option \<Rightarrow> int option \<Rightarrow> int option \<Rightarrow> delivery
     \<Rightarrow> (http_error, string) result \<times> delivery" where
  "createGroupInvite inviteId token groupId headerUserId headerGlobalAdmin expiresAt maxUses st =
     attempt
       (bind_r (sanitizeQueryValue groupId) (\<lambda>g.
        bind_r (sanitizeQueryValue (orBlank headerUserId)) (\<lambda>caller.
        bind_r (assertCallerIsGroupMember caller g headerGlobalAdmin st) (\<lambda>_.
          case liveGroup g st of
            None \<Rightarrow> Inl (NotFound ''Group not found'')
          | Some gr \<Rightarrow> if \<not> gIsGroup gr then Inl (BadRequest ''not a group chat'') else Inr (g, caller)))))
       (\<lambda>(g, caller). (Inr token,
          st\<lparr>invites := invites st @ [\<lparr>vId = inviteId, vGroup = g, vToken = token, vCreatedBy = caller,
               vExpiresAt = expiresAt, vMaxUses = maxUses, vUses = 0, vRevoked = False\<rparr>]\<rparr>)) st"

record invite_preview =
  ipValid :: bool
  ipGroup :: "string option"
  ipName :: "string option"

definition resolveGroupInvitePreview :: "int \<Rightarrow> string \<Rightarrow> delivery \<Rightarrow> invite_preview" where
  "resolveGroupInvitePreview now token st =
     (let no = \<lparr>ipValid = False, ipGroup = None, ipName = None\<rparr> in
      case find (\<lambda>v. vToken v = token) (invites st) of
        None \<Rightarrow> no
      | Some v \<Rightarrow>
          if \<not> groupInviteIsValid now v then no
          else (case liveGroup (vGroup v) st of
                  None \<Rightarrow> no
                | Some gr \<Rightarrow> if \<not> gIsGroup gr then no
                              else \<lparr>ipValid = True, ipGroup = Some (gId gr), ipName = gName gr\<rparr>))"

definition inviteableDevices :: "int \<Rightarrow> string \<Rightarrow> delivery \<Rightarrow> string list" where
  "inviteableDevices now u st =
     (let revokedKeys = map (\<lambda>r. memberKey (rUser r) (rDevice r))
            (filter (\<lambda>r. rUser r = u \<and> activeRevocation now r) (revokedDevices st))
      in uniq (map kDevice (filter (\<lambda>k. kUser k = u \<and> memberKey (kUser k) (kDevice k) \<notin> set revokedKeys) (keyPackages st))))"

text \<open>The best-effort requests for a Welcome, one per device.\<close>

fun askForWelcomes :: "env \<Rightarrow> string \<Rightarrow> string \<Rightarrow> string list \<Rightarrow> delivery \<Rightarrow> delivery \<times> control_frame list" where
  "askForWelcomes e g u [] st = (st, [])"
| "askForWelcomes e g u (d # ds) st =
     (case notifyWelcomeRequest e (Some (JStr u))
             \<lparr>pbGroup = Some (JStr g), pbUser = Some (JStr u), pbDevice = Some (JStr d), pbExclude = None\<rparr> st of
        (_, st1, fs1) \<Rightarrow> (case askForWelcomes e g u ds st1 of (st2, fs2) \<Rightarrow> (st2, fs1 @ fs2)))"

definition acceptGroupInvite ::
  "env \<Rightarrow> string \<Rightarrow> json option \<Rightarrow> delivery \<Rightarrow> (http_error, string \<times> bool) result \<times> delivery \<times> control_frame list" where
  "acceptGroupInvite e token headerUserId st =
     (case bind_r (sanitizeQueryValue (orBlank headerUserId)) (\<lambda>caller.
           case find (\<lambda>v. vToken v = token) (invites st) of
             None \<Rightarrow> Inl (NotFound ''Invalid or expired invitation'')
           | Some v \<Rightarrow>
               if \<not> groupInviteIsValid (eNow e) v then Inl (NotFound ''Invalid or expired invitation'')
               else (case liveGroup (vGroup v) st of
                       None \<Rightarrow> Inl (NotFound ''Group not found'')
                     | Some gr \<Rightarrow> if \<not> gIsGroup gr then Inl (NotFound ''Group not found'')
                                   else Inr (caller, v, gId gr))) of
        Inl err \<Rightarrow> (Inl err, st, [])
      | Inr (caller, v, g) \<Rightarrow>
          if findMember g caller st \<noteq> None then (Inr (g, True), st, [])
          else (let ds = inviteableDevices (eNow e) caller st in
            if ds = [] then (Inl (BadRequest ''No active device''), st, [])
            else let st1 = st\<lparr>
                   members := insert_or_ignore memberIndex
                     \<lparr>mGroup = g, mUser = caller, mRole = Member, mJoinedAt = eNow e\<rparr> (members st),
                   devices := seatDevices (eNow e) caller g ds (devices st),
                   invites := update_where (\<lambda>x. vId x = vId v) (\<lambda>x. x\<lparr>vUses := vUses x + 1\<rparr>) (invites st)\<rparr>
                 in case askForWelcomes e g caller ds st1 of (st2, fs) \<Rightarrow> (Inr (g, False), st2, fs)))"

section \<open>Seats of devices\<close>

text \<open>The seats waiting for an addition, in the groups the device is seated in.\<close>

definition getPendingInvitations ::
  "int \<Rightarrow> json option \<Rightarrow> json option \<Rightarrow> json option \<Rightarrow> string option \<Rightarrow> delivery \<Rightarrow> (http_error, device_row list) result" where
  "getPendingInvitations now userId deviceId headerUserId headerGlobalAdmin st =
     bind_r (sanitizeQueryValue userId) (\<lambda>u.
     bind_r (sanitizeQueryValue deviceId) (\<lambda>d.
     bind_r (assertCallerOwnsUserId headerUserId headerGlobalAdmin u) (\<lambda>_.
       let mine = map dGroup (filter (\<lambda>m. dUser m = u \<and> dDevice m = d \<and> dStatus m = Active) (devices st));
           pending = filter (\<lambda>m. dGroup m \<in> set mine \<and> dStatus m = Pending) (devices st);
           revokedKeys = map (\<lambda>r. memberKey (rUser r) (rDevice r))
             (filter (\<lambda>r. rUser r \<in> set (map dUser pending) \<and> activeRevocation now r) (revokedDevices st));
           inviteable = map (\<lambda>k. memberKey (kUser k) (kDevice k))
             (filter (\<lambda>k. kUser k \<in> set (map dUser pending) \<and> memberKey (kUser k) (kDevice k) \<notin> set revokedKeys) (keyPackages st))
       in Inr (filter (\<lambda>m. deviceKey m \<in> set inviteable) pending))))"

record device_membership =
  dmRow :: device_row
  dmWelcomeQueued :: bool
  dmAddInFlight :: bool

definition getDeviceMemberships ::
  "int \<Rightarrow> json option \<Rightarrow> json option \<Rightarrow> json option \<Rightarrow> string option \<Rightarrow> delivery
     \<Rightarrow> (http_error, device_membership list) result" where
  "getDeviceMemberships now userId deviceId headerUserId headerGlobalAdmin st =
     bind_r (sanitizeQueryValue userId) (\<lambda>u.
     bind_r (sanitizeQueryValue deviceId) (\<lambda>d.
     bind_r (assertCallerOwnsUserId headerUserId headerGlobalAdmin u) (\<lambda>_.
       let mine = filter (\<lambda>m. dUser m = u \<and> dDevice m = d) (devices st);
           pendingGroups = map dGroup (filter (\<lambda>m. dStatus m = Pending) mine);
           welcomed = map (\<lambda>q. orEmpty (qGroup q)) (filter (\<lambda>q. qDevice q = d \<and> qIsWelcome q = Some True
             \<and> queuedIn pendingGroups q \<and> truthy (qGroup q)) (queue st));
           locked = filter (\<lambda>g. \<not> lock_free now (addLock st g)) pendingGroups
       in Inr (map (\<lambda>m. \<lparr>dmRow = m, dmWelcomeQueued = dGroup m \<in> set welcomed,
                         dmAddInFlight = dGroup m \<in> set locked\<rparr>) mine))))"

definition statusOf :: "json option \<Rightarrow> device_status option" where
  "statusOf v = (if v = Some (JStr ''pending'') then Some Pending
                 else if v = Some (JStr ''active'') then Some Active else None)"

definition updateInvitationStatus ::
  "env \<Rightarrow> json option \<Rightarrow> json option \<Rightarrow> json option \<Rightarrow> json option \<Rightarrow> json option \<Rightarrow> string option \<Rightarrow> delivery
     \<Rightarrow> (http_error, device_status) result \<times> delivery" where
  "updateInvitationStatus e deviceId userId groupId status headerUserId headerGlobalAdmin st =
     attempt
       (bind_r (sanitizeIdentityValue deviceId) (\<lambda>d.
        bind_r (sanitizeIdentityValue userId) (\<lambda>u.
        bind_r (sanitizeQueryValue groupId) (\<lambda>g.
        bind_r (sanitizeOptionalQueryValue headerUserId) (\<lambda>caller.
        bind_r (if headerGlobalAdmin \<noteq> Some ''true'' \<and> (case caller of None \<Rightarrow> False | Some c \<Rightarrow> c \<noteq> u)
                then assertCallerIsGroupMember (the caller) g headerGlobalAdmin st else Inr ()) (\<lambda>_.
          case statusOf status of
            None \<Rightarrow> Inl (BadRequest ''status'')
          | Some s \<Rightarrow>
              if s = Active \<and> deviceAddressability (eNow e) u d st \<noteq> Addressable
              then Inl (BadRequest ''not addressable'') else Inr (d, u, g, s)))))))
       (\<lambda>(d, u, g, s).
          (Inr s,
           case findDevice d g st of
             None \<Rightarrow> st\<lparr>devices := devices st @ [\<lparr>dUser = u, dDevice = d, dGroup = g, dStatus = s,
                          dKickedAt = None, dCreatedAt = eNow e\<rparr>]\<rparr>
           | Some _ \<Rightarrow> st\<lparr>devices := update_where (\<lambda>r. deviceIndex r = (d, g))
                 (\<lambda>r. r\<lparr>dStatus := s, dKickedAt := (if s = Active then None else dKickedAt r)\<rparr>) (devices st)\<rparr>)) st"

definition kickStaleUser ::
  "env \<Rightarrow> json option \<Rightarrow> json option \<Rightarrow> json option \<Rightarrow> string option \<Rightarrow> delivery
     \<Rightarrow> (http_error, nat) result \<times> delivery" where
  "kickStaleUser e userId groupId headerUserId headerGlobalAdmin st =
     attempt
       (if headerUserId = None \<or> headerUserId = Some (JStr []) then Inl (BadRequest ''Missing X-User-Id header'')
        else
        bind_r (sanitizeQueryValue headerUserId) (\<lambda>caller.
        bind_r (sanitizeQueryValue userId) (\<lambda>u.
        bind_r (sanitizeQueryValue groupId) (\<lambda>g.
        bind_r (assertCallerIsGroupMember caller g headerGlobalAdmin st) (\<lambda>_. Inr (u, g))))))
       (\<lambda>(u, g). (Inr (countIn (\<lambda>r. dUser r = u \<and> dGroup r = g) (devices st)),
          st\<lparr>devices := update_where (\<lambda>r. dUser r = u \<and> dGroup r = g)
               (\<lambda>r. r\<lparr>dStatus := Pending, dKickedAt := Some (eNow e)\<rparr>) (devices st)\<rparr>)) st"

definition kickStaleDevice ::
  "env \<Rightarrow> json option \<Rightarrow> json option \<Rightarrow> json option \<Rightarrow> json option \<Rightarrow> string option \<Rightarrow> delivery
     \<Rightarrow> (http_error, nat) result \<times> delivery" where
  "kickStaleDevice e deviceId userId groupId headerUserId headerGlobalAdmin st =
     attempt
       (if headerUserId = None \<or> headerUserId = Some (JStr []) then Inl (BadRequest ''Missing X-User-Id header'')
        else
        bind_r (sanitizeQueryValue headerUserId) (\<lambda>caller.
        bind_r (sanitizeQueryValue deviceId) (\<lambda>d.
        bind_r (sanitizeQueryValue userId) (\<lambda>u.
        bind_r (sanitizeQueryValue groupId) (\<lambda>g.
        bind_r (assertCallerIsGroupMember caller g headerGlobalAdmin st) (\<lambda>_. Inr (d, u, g)))))))
       (\<lambda>(d, u, g).
          if \<not> list_ex (\<lambda>r. dDevice r = d \<and> dUser r = u \<and> dGroup r = g) (devices st) then (Inr 0, st)
          else (Inr 1, srem g [memberKey u d]
            (st\<lparr>devices := update_where (\<lambda>r. dDevice r = d \<and> dUser r = u \<and> dGroup r = g)
                 (\<lambda>r. r\<lparr>dStatus := Pending, dKickedAt := Some (eNow e)\<rparr>) (devices st)\<rparr>))) st"

definition dropSeat :: "string \<Rightarrow> string \<Rightarrow> string \<Rightarrow> delivery \<Rightarrow> (http_error, nat) result \<times> delivery" where
  "dropSeat u d g st =
     (let mine = (\<lambda>r. dUser r = u \<and> dDevice r = d \<and> dGroup r = g)
      in (Inr (countIn mine (devices st)),
          srem g [memberKey u d] (st\<lparr>devices := delete_where mine (devices st)\<rparr>)))"

definition deleteDeviceMembership ::
  "json option \<Rightarrow> json option \<Rightarrow> json option \<Rightarrow> delivery \<Rightarrow> (http_error, nat) result \<times> delivery" where
  "deleteDeviceMembership userId deviceId groupId st =
     attempt
       (bind_r (sanitizeQueryValue userId) (\<lambda>u.
        bind_r (sanitizeQueryValue deviceId) (\<lambda>d.
        bind_r (sanitizeQueryValue groupId) (\<lambda>g. Inr (u, d, g)))))
       (\<lambda>(u, d, g). dropSeat u d g st) st"

definition forceLeave ::
  "json option \<Rightarrow> json option \<Rightarrow> json option \<Rightarrow> delivery \<Rightarrow> (http_error, nat) result \<times> delivery" where
  "forceLeave groupId deviceId headerUserId st =
     attempt
       (bind_r (sanitizeQueryValue groupId) (\<lambda>g.
        bind_r (sanitizeQueryValue (orBlank headerUserId)) (\<lambda>u.
        bind_r (sanitizeQueryValue (orBlank deviceId)) (\<lambda>d. Inr (u, d, g)))))
       (\<lambda>(u, d, g). dropSeat u d g st) st"

definition deleteAllDeviceMemberships ::
  "json option \<Rightarrow> json option \<Rightarrow> delivery \<Rightarrow> (http_error, nat) result \<times> delivery" where
  "deleteAllDeviceMemberships userId deviceId st =
     attempt
       (bind_r (sanitizeQueryValue userId) (\<lambda>u.
        bind_r (sanitizeQueryValue deviceId) (\<lambda>d. Inr (u, d))))
       (\<lambda>(u, d).
          let mine = (\<lambda>r. dUser r = u \<and> dDevice r = d);
              gids = uniq (map dGroup (filter mine (devices st)))
          in (Inr (countIn mine (devices st)),
              fold (\<lambda>g s. srem g [memberKey u d] s) gids (st\<lparr>devices := delete_where mine (devices st)\<rparr>))) st"

section \<open>Adding and removing people\<close>

interpretation member_table: unique_index memberIndex "\<lambda>m. m\<lparr>mJoinedAt := t\<rparr>" for t
  by unfold_locales (simp add: memberIndex_def)

lemma attempt_cases:
  assumes "attempt r k st = (res, st')"
  obtains err where "r = Inl err" "res = Inl err" "st' = st"
  | x where "r = Inr x" "k x = (res, st')"
  using assms by (auto simp: attempt_def split: sum.splits)

lemma seatDevices_Cons: "seatDevices now u g (d # ds) rows =
    seatDevices now u g ds (insert_or_ignore deviceIndex (pendingSeat now u g d) rows)"
  by (simp add: seatDevices_def)

lemma seatDevices_keeps: "set rows \<subseteq> set (seatDevices now u g ds rows)"
proof (induction ds arbitrary: rows)
  case Nil
  show ?case by (simp add: seatDevices_def)
next
  case (Cons d ds)
  have "set rows \<subseteq> set (insert_or_ignore deviceIndex (pendingSeat now u g d) rows)"
    by (auto simp: insert_or_ignore_def)
  with Cons show ?case unfolding seatDevices_Cons by blast
qed

lemma seatDevices_new: "r \<in> set (seatDevices now u g ds rows) \<Longrightarrow> r \<in> set rows \<or> (\<exists>d \<in> set ds. r = pendingSeat now u g d)"
proof (induction ds arbitrary: rows)
  case Nil
  then show ?case by (simp add: seatDevices_def)
next
  case (Cons d ds)
  from Cons.IH [OF Cons.prems [unfolded seatDevices_Cons]] show ?case
    by (auto simp: insert_or_ignore_def split: if_splits)
qed

lemma seatDevices_seats: "d \<in> set ds \<Longrightarrow> (d, g) \<in> deviceIndex ` set (seatDevices now u g ds rows)"
proof (induction ds arbitrary: rows)
  case Nil
  then show ?case by simp
next
  case (Cons x ds)
  let ?rows = "insert_or_ignore deviceIndex (pendingSeat now u g x) rows"
  show ?case
  proof (cases "d = x")
    case True
    have "deviceIndex (pendingSeat now u g x) \<in> deviceIndex ` set ?rows"
      by (auto simp: insert_or_ignore_def)
    then have "(d, g) \<in> deviceIndex ` set ?rows" using True by (simp add: deviceIndex_def pendingSeat_def)
    then show ?thesis unfolding seatDevices_Cons using seatDevices_keeps [of ?rows now u g ds] by blast
  next
    case False
    with Cons show ?thesis unfolding seatDevices_Cons by simp
  qed
qed

lemma seatDevices_distinct:
  "distinct (map deviceIndex rows) \<Longrightarrow> distinct (map deviceIndex (seatDevices now u g ds rows))"
  by (induction ds arbitrary: rows) (simp_all add: seatDevices_Cons device_table.distinct_insert_or_ignore, simp add: seatDevices_def)

text \<open>The devices of a user that are recent enough to be seated.\<close>

definition recentDevices :: "int \<Rightarrow> string \<Rightarrow> delivery \<Rightarrow> string list" where
  "recentDevices now u st =
     map kDevice (filter (\<lambda>k. kUser k = u \<and> kCreatedAt k \<ge> now - RETENTION_WINDOW_MS) (keyPackages st))"

lemma addGroupMember_Inr:
  assumes "addGroupMember e blocks groupId userId headerUserId admin st = (Inr (), st')"
  obtains g u where "sanitizeQueryValue groupId = Inr g" "sanitizeQueryValue userId = Inr u"
    "assertCallerMayMutateMembership g u headerUserId admin True st = Inr ()"
    "\<forall>c. sanitizeOptionalQueryValue headerUserId = Inr (Some c) \<longrightarrow> \<not> isBlockedBetween blocks c u"
    "st' = st\<lparr>members := upsert_row memberIndex \<lparr>mGroup = g, mUser = u, mRole = Member, mJoinedAt = eNow e\<rparr>
                              (\<lambda>m. m\<lparr>mJoinedAt := eNow e\<rparr>) (members st),
             devices := seatDevices (eNow e) u g (recentDevices (eNow e) u st) (devices st)\<rparr>"
  using assms
  by (auto simp: addGroupMember_def attempt_def result_simps recentDevices_def Let_def
      split: sum.splits if_splits option.splits)

lemma mayMutate_cases:
  assumes "assertCallerMayMutateMembership g u headerUserId admin boot st = Inr ()" and "admin \<noteq> Some ''true''"
    and "sanitizeOptionalQueryValue headerUserId = Inr (Some c)"
  shows "isMemberOf g c st \<or> boot \<and> c = u \<and> (\<forall>m \<in> set (members st). mGroup m \<noteq> g)"
  using assms by (auto simp: assertCallerMayMutateMembership_def result_simps list_ex_iff split: if_splits)


lemma sanitize_ne: "sanitizeQueryValue v = Inr s \<Longrightarrow> s \<noteq> []"
  by (auto simp: sanitizeQueryValue_def Let_def split: option.splits json.splits if_splits)

lemma sent_rows:
  assumes "sendMessage e auth body st = (Inr res, st', eff)" and "truthy (sbProto body)"
    and "sbGroup body = Some g" and "g \<noteq> []" and "q \<in> set (queue st') - set (queue st)"
  shows "\<exists>m \<in> set (protoTargets body g st). recipientOf q = (dUser m, dDevice m)"
proof -
  let ?ops = "map (protoRow e body g) (protoTargets body g st)"
  let ?td = "if isDurable body then ?ops else filter (\<lambda>q. eOnline e (queuedKey q)) ?ops"
  have "q \<in> set (withIds (eIds e) ?td)"
    using sendMessage_proto_Inr(1) [OF assms(1-4)] assms(5) by auto
  then obtain r i where "r \<in> set ?td" and q: "q = r\<lparr>qId := eIds e i\<rparr>" by (rule withIds_mem)
  then have "r \<in> set ?ops" by (auto split: if_splits)
  then obtain m where "m \<in> set (protoTargets body g st)" "r = protoRow e body g m" by auto
  with q show ?thesis by (auto simp: recipientOf_def protoRow_def)
qed

lemma removeGroupMember_Inr:
  assumes "removeGroupMember groupId userId headerUserId admin st = (Inr (), st')"
    and "sanitizeQueryValue groupId = Inr g" and "sanitizeQueryValue userId = Inr u"
  shows "st' = srem g (filter (\<lambda>k. take (length u + 1) k = u @ '':'') (routing st g))
      (st\<lparr>devices := delete_where (\<lambda>r. dGroup r = g \<and> dUser r = u) (devices st),
          members := delete_where (\<lambda>m. mGroup m = g \<and> mUser m = u) (members st)\<rparr>)"
    and "assertCallerMayMutateMembership g u headerUserId admin False st = Inr ()"
  using assms by (auto simp: removeGroupMember_def attempt_def result_simps Let_def split: sum.splits)

lemma sanitize_str: "sanitizeQueryValue (Some (JStr x)) = Inr s \<Longrightarrow> s = trim x"
  by (auto simp: sanitizeQueryValue_def Let_def split: if_splits)

lemma sent_rows_legacy:
  assumes send: "sendMessage e auth body st = (Inr res, st', eff)" and proto: "\<not> truthy (sbProto body)"
    and rcpt: "sbRecipients body = None \<or> sbRecipients body = Some []"
    and g: "sbGroup body = Some g" "trim g = g" and q: "q \<in> set (queue st') - set (queue st)"
  shows "isMemberOf g (qRecipient q) st"
proof -
  obtain ops where ops: "legacyOps e body st = Inr ops"
    using send proto by (auto simp: sendMessage_def split: sum.splits if_splits)
  let ?td = "if isDurable body then ops else filter (\<lambda>q. eOnline e (queuedKey q)) ops"
  obtain r2 st2 where enq: "(if ?td = [] then (Inr [], st)
        else enqueueForLiveGroup (eIds e) ?td (sbGroup body) st) = (r2, st2)" by fastforce
  have "st' = appendHistory e body st2"
    using send by (auto simp: sendMessage_def proto ops enq split: sum.splits if_splits)
  then have "q \<in> set (queue st2) - set (queue st)" using q by (simp add: appendHistory_def Let_def split: if_splits)
  then have "q \<in> set (withIds (eIds e) ?td)"
    using enq by (cases "?td = []") (auto elim: enqueue_cases)
  then obtain r i where "r \<in> set ?td" and q': "q = r\<lparr>qId := eIds e i\<rparr>" by (rule withIds_mem)
  then have "r \<in> set ops" by (auto split: if_splits)
  with ops rcpt g show ?thesis
    by (auto simp: legacyOps_def result_simps Let_def q' isMemberOf_def list_ex_iff
        dest!: sanitize_str split: if_splits) blast+
qed

lemma sanitize_trimmed: "sanitizeQueryValue v = Inr s \<Longrightarrow> trim s = s"
  using sanitize_str [OF sanitizeQueryValue_idem] by metis

lemma prefix_is_key: "take (length u + 1) k = u @ '':'' \<longleftrightarrow> (\<exists>d. k = memberKey u d)"
proof
  assume "take (length u + 1) k = u @ '':''"
  then have "k = memberKey u (drop (length u + 1) k)"
    unfolding memberKey_def by (metis append.assoc append_take_drop_id)
  then show "\<exists>d. k = memberKey u d" ..
qed (auto simp: memberKey_def)


lemma safe_values:
  "sanitizeQueryValue (Some (JStr ''g'')) = Inr ''g''" "sanitizeQueryValue (Some (JStr ''ann'')) = Inr ''ann''"
  "sanitizeQueryValue (Some (JStr ''bob'')) = Inr ''bob''" "sanitizeQueryValue (Some (JStr ''eve'')) = Inr ''eve''"
  "sanitizeQueryValue (Some (JStr ''d9'')) = Inr ''d9''"
  by (simp_all add: sanitizeQueryValue_def SAFE_QUERY_VALUE_REGEX_def safe_char_def alnum_def trim_def js_ws_def)

lemmas membership_eval = safe_values sanitizeOptionalQueryValue_def attempt_def result_simps
  assertCallerMayMutateMembership_def isMemberOf_def isBlockedBetween_def Let_def



section \<open>A seat taken without membership\<close>

lemma addressable_kp:
  "deviceAddressability now u d st = Addressable \<Longrightarrow> \<exists>k \<in> set (keyPackages st). kUser k = u \<and> kDevice k = d"
  by (auto simp: deviceAddressability_def list_ex_iff split: if_splits)

lemma live_target:
  assumes "m \<in> set (devices st)" and "dGroup m = g" and "dStatus m = Active"
    and "\<exists>k \<in> set (keyPackages st). kUser k = dUser m \<and> kDevice k = dDevice m"
    and "\<not> isSender body m" and "deviceKey m \<notin> set (case sbExclude body of None \<Rightarrow> [] | Some ks \<Rightarrow> ks)"
  shows "m \<in> set (protoTargets body g st)"
proof -
  have m: "m \<in> set (activeMemberships g st)" using assms(1-3) by (simp add: activeMemberships_def)
  moreover obtain k where "k \<in> set (keyPackages st)" "kUser k = dUser m" "kDevice k = dDevice m" using assms(4) by blast
  ultimately have "deviceKey m \<in> set (liveDeviceIds g st)"
    by (force simp: liveDeviceIds_def deviceKey_def)
  with m assms(5,6) show ?thesis by (simp add: protoTargets_def)
qed

text \<open>
  C28: A device can seat itself in a group its user does not belong to. The route that reports a seat as
  active asks for membership only when the caller speaks for somebody else; a caller that names itself
  gets an active seat in any group, without becoming a member of it, and every durable message sent to
  the group from then on is queued for that device too.
\<close>

theorem outsider_seats_itself:
  assumes "sanitizeIdentityValue (Some (JStr d)) = Inr d" and "sanitizeIdentityValue (Some (JStr u)) = Inr u"
    and "sanitizeQueryValue (Some (JStr u)) = Inr u" and "sanitizeQueryValue (Some (JStr g)) = Inr g"
    and "\<not> isMemberOf g u st" and "findDevice d g st = None"
    and "deviceAddressability (eNow e) u d st = Addressable"
  shows "\<exists>st'. updateInvitationStatus e (Some (JStr d)) (Some (JStr u)) (Some (JStr g)) (Some (JStr ''active''))
            (Some (JStr u)) None st = (Inr Active, st')
     \<and> \<not> isMemberOf g u st'
     \<and> (\<forall>e' auth body res st'' eff. sendMessage e' auth body st' = (Inr res, st'', eff)
          \<and> truthy (sbProto body) \<and> sbGroup body = Some g \<and> isDurable body \<and> sbExclude body = None
          \<and> sbSender body \<noteq> Some u \<longrightarrow> (u, d) \<in> recipientOf ` set (queue st''))"
proof -
  let ?row = "\<lparr>dUser = u, dDevice = d, dGroup = g, dStatus = Active, dKickedAt = None, dCreatedAt = eNow e\<rparr>"
  let ?st = "st\<lparr>devices := devices st @ [?row]\<rparr>"
  have u: "u \<noteq> []" by (rule sanitize_ne [OF assms(3)])
  have run: "updateInvitationStatus e (Some (JStr d)) (Some (JStr u)) (Some (JStr g)) (Some (JStr ''active''))
            (Some (JStr u)) None st = (Inr Active, ?st)"
    using assms u by (simp add: updateInvitationStatus_def attempt_def result_simps sanitizeOptionalQueryValue_def statusOf_def)
  have "(u, d) \<in> recipientOf ` set (queue st'')"
    if send: "sendMessage e' auth body ?st = (Inr res, st'', eff)" "truthy (sbProto body)" "sbGroup body = Some g"
      and body: "isDurable body" "sbExclude body = None" "sbSender body \<noteq> Some u" for e' auth body res st'' eff
  proof -
    have "?row \<in> set (protoTargets body g ?st)"
      by (rule live_target) (use body addressable_kp [OF assms(7)] in \<open>auto simp: isSender_def\<close>)
    then have "(u, d) \<in> (\<lambda>m. (dUser m, dDevice m)) ` set (protoTargets body g ?st)" by force
    moreover have "recipientOf ` set (withIds (eIds e') (map (protoRow e' body g) (protoTargets body g ?st)))
        = (\<lambda>m. (dUser m, dDevice m)) ` set (protoTargets body g ?st)"
      unfolding set_map [symmetric] recipients_withIds by (simp add: recipientOf_def protoRow_def image_image)
    ultimately show ?thesis
      using sendMessage_proto_Inr(1) [OF send sanitize_ne [OF assms(4)]] body(1) by (simp add: image_Un)
  qed
  moreover have "\<not> isMemberOf g u ?st" using assms(5) by (simp add: isMemberOf_def)
  ultimately show ?thesis using run by blast
qed

theorem outsider_seats_itself_witness:
  "\<exists>st'. updateInvitationStatus demo_env (Some (JStr ''d9'')) (Some (JStr ''eve'')) (Some (JStr ''g'')) (Some (JStr ''active''))
       (Some (JStr ''eve'')) None (demo_store\<lparr>keyPackages := [demo_kp ''eve'' ''d9'']\<rparr>) = (Inr Active, st')
     \<and> \<not> isMemberOf ''g'' ''eve'' st'"
proof -
  let ?st = "demo_store\<lparr>keyPackages := [demo_kp ''eve'' ''d9'']\<rparr>"
  have "sanitizeIdentityValue (Some (JStr ''d9'')) = Inr ''d9''" "sanitizeIdentityValue (Some (JStr ''eve'')) = Inr ''eve''"
    by (simp_all add: sanitizeIdentityValue_def safe_values result_simps UNRESOLVED_IDENTITY_VALUES_def)
  moreover have "\<not> isMemberOf ''g'' ''eve'' ?st" "findDevice ''d9'' ''g'' ?st = None"
    "deviceAddressability (eNow demo_env) ''eve'' ''d9'' ?st = Addressable"
    by (simp_all add: isMemberOf_def findDevice_def deviceAddressability_def demo_defs)
  ultimately show ?thesis
    using outsider_seats_itself [of "''d9''" "''eve''" "''g''" ?st demo_env] safe_values(1,4) by blast
qed

end
