(* ===== verification/Pending_Queue.thy ===== *)
theory Pending_Queue
  imports Membership "HOL-Library.Sublist"
begin

text \<open>
  The queue of a device (\<open>services/messaging.service.ts\<close>: fetchMessages, acknowledgeMessages) and the
  loop of the client that drains it (\<open>frontend/src/lib/mls-client/mlsDeliveryApi.ts\<close>:
  pullPendingMessagesJson). The order of rows with the same instant is the database's; it is taken to
  be the same from one query to the next. A page that arrives, one the server refuses and one that
  does not arrive in time are the three outcomes of a request, given by the argument \<open>net\<close>.
\<close>

section \<open>A page\<close>

record page_state =
  pgRows :: "queued_row list"
  pgBytes :: nat
  pgCapped :: bool

definition rowBytes :: "queued_row \<Rightarrow> nat" where
  "rowBytes r = (case qProto r of None \<Rightarrow> 0 | Some p \<Rightarrow> length p)"

definition sameInstant :: "page_state \<Rightarrow> queued_row \<Rightarrow> bool" where
  "sameInstant ps r \<longleftrightarrow> pgRows ps \<noteq> [] \<and> qCreatedAt r = qCreatedAt (last (pgRows ps))"

definition capped :: "nat \<Rightarrow> page_state \<Rightarrow> queued_row \<Rightarrow> bool" where
  "capped limit ps r \<longleftrightarrow> pgCapped ps
     \<or> pgRows ps \<noteq> [] \<and> (pgBytes ps + rowBytes r > PENDING_PAGE_MAX_BYTES \<or> length (pgRows ps) \<ge> limit)"

text \<open>The rows of one chunk; the flag says that the page is complete.\<close>

fun scanRows :: "nat \<Rightarrow> page_state \<Rightarrow> queued_row list \<Rightarrow> page_state \<times> bool" where
  "scanRows limit ps [] = (ps, False)"
| "scanRows limit ps (r # rs) =
     (if capped limit ps r \<and> \<not> sameInstant ps r then (ps\<lparr>pgCapped := True\<rparr>, True)
      else scanRows limit (ps\<lparr>pgRows := pgRows ps @ [r], pgBytes := pgBytes ps + rowBytes r,
             pgCapped := capped limit ps r\<rparr>) rs)"

text \<open>The loop that reads the queue chunk by chunk.\<close>

function fetchLoop :: "nat \<Rightarrow> queued_row list \<Rightarrow> nat \<Rightarrow> page_state \<Rightarrow> page_state" where
  "fetchLoop limit rows offset ps =
     (let chunk = take PENDING_FETCH_CHUNK_ROWS (drop offset rows) in
      if chunk = [] then ps
      else (case scanRows limit ps chunk of (ps', done) \<Rightarrow>
        if done \<or> length chunk < PENDING_FETCH_CHUNK_ROWS then ps'
        else fetchLoop limit rows (offset + length chunk) ps'))"
  by pat_completeness auto
termination
  by (relation "measure (\<lambda>(limit, rows, offset, ps). length rows - offset)") auto

declare fetchLoop.simps [simp del]

definition emptyPage :: page_state where
  "emptyPage = \<lparr>pgRows = [], pgBytes = 0, pgCapped = False\<rparr>"

text \<open>The rows of a device, oldest first, and those after an instant.\<close>

definition pendingFor :: "string \<Rightarrow> string \<Rightarrow> delivery \<Rightarrow> queued_row list" where
  "pendingFor u d st = sort_key qCreatedAt (filter (\<lambda>q. qRecipient q = u \<and> qDevice q = d) (queue st))"

definition afterInstant :: "int option \<Rightarrow> queued_row \<Rightarrow> bool" where
  "afterInstant after q = (case after of None \<Rightarrow> True | Some t \<Rightarrow> t < qCreatedAt q)"

definition rawPage :: "nat \<Rightarrow> string \<Rightarrow> string \<Rightarrow> int option \<Rightarrow> delivery \<Rightarrow> queued_row list" where
  "rawPage limit u d after st =
     pgRows (fetchLoop limit (filter (afterInstant after) (pendingFor u d st)) 0 emptyPage)"

definition pageLimitOf :: "int \<Rightarrow> nat" where
  "pageLimitOf limit = nat (min (max limit 1) 1000)"

definition fetchMessages ::
  "json option \<Rightarrow> json option \<Rightarrow> json option \<Rightarrow> string option \<Rightarrow> int \<Rightarrow> int option \<Rightarrow> delivery
     \<Rightarrow> (http_error, queued_row list) result \<times> delivery" where
  "fetchMessages userId deviceId headerUserId headerGlobalAdmin limit after st =
     attempt
       (bind_r (sanitizeQueryValue userId) (\<lambda>u.
        bind_r (sanitizeQueryValue deviceId) (\<lambda>d.
        bind_r (assertCallerOwnsUserId headerUserId headerGlobalAdmin u) (\<lambda>_. Inr (u, d)))))
       (\<lambda>(u, d).
          let rows = rawPage (pageLimitOf limit) u d after st;
              gids = uniq (map (\<lambda>q. orEmpty (qGroup q)) (filter (\<lambda>q. truthy (qGroup q)) rows))
          in case purgeOrphanGroups gids st of
               ((deliverable, tombstoned), st') \<Rightarrow>
                 (Inr (filter (\<lambda>q. \<not> truthy (qGroup q) \<or> orEmpty (qGroup q) \<in> set deliverable) rows), st')) st"

definition acknowledgeMessages ::
  "json option \<Rightarrow> json option \<Rightarrow> json option \<Rightarrow> json option \<Rightarrow> string option \<Rightarrow> delivery
     \<Rightarrow> (http_error, nat) result \<times> delivery" where
  "acknowledgeMessages userId deviceId messageIds headerUserId headerGlobalAdmin st =
     attempt
       (bind_r (sanitizeQueryValue userId) (\<lambda>u.
        bind_r (sanitizeQueryValue deviceId) (\<lambda>d.
        bind_r (sanitizeStringIdList messageIds) (\<lambda>ids.
        bind_r (assertCallerOwnsUserId headerUserId headerGlobalAdmin u) (\<lambda>_. Inr (u, d, ids))))))
       (\<lambda>(u, d, ids).
          let acked = (\<lambda>q. qId q \<in> set ids \<and> qRecipient q = u \<and> qDevice q = d)
          in if ids = [] then (Inr 0, st)
             else (Inr (countIn acked (queue st)), st\<lparr>queue := delete_where acked (queue st)\<rparr>)) st"

section \<open>The drain on the client\<close>

datatype net = Delivered | Refused | Stalled

text \<open>The result is the rows received and whether the pull ended by throwing.\<close>

fun pullPending ::
  "nat \<Rightarrow> (nat \<Rightarrow> net) \<Rightarrow> string \<Rightarrow> string \<Rightarrow> nat \<Rightarrow> int \<Rightarrow> int option \<Rightarrow> queued_row list \<Rightarrow> delivery
     \<Rightarrow> (queued_row list \<times> bool) option" where
  "pullPending 0 net u d i pageLimit after got st = None"
| "pullPending (Suc n) net u d i pageLimit after got st =
     (case net i of
        Stalled \<Rightarrow>
          if pageLimit > 1 then pullPending n net u d (i + 1) (max 1 (pageLimit div 2)) after got st
          else Some (got, True)
      | Refused \<Rightarrow> Some (got, False)
      | Delivered \<Rightarrow>
          (case fetchMessages (Some (JStr u)) (Some (JStr d)) (Some (JStr u)) None pageLimit after st of
             (Inl err, _) \<Rightarrow> Some (got, False)
           | (Inr batch, st') \<Rightarrow>
               if batch = [] then Some (got, False)
               else let t = qCreatedAt (last batch) in
                 if after = Some t then Some (got @ batch, False)
                 else pullPending n net u d (i + 1) pageLimit (Some t) (got @ batch) st'))"

definition pullPendingMessagesJson :: "nat \<Rightarrow> (nat \<Rightarrow> net) \<Rightarrow> string \<Rightarrow> string \<Rightarrow> delivery \<Rightarrow> (queued_row list \<times> bool) option" where
  "pullPendingMessagesJson fuel net u d st =
     (if u = ''unknown'' then Some ([], False) else pullPending fuel net u d 0 500 None [] st)"

section \<open>Reading by chunks is reading in one pass\<close>

lemma scanRows_append:
  "scanRows limit ps (xs @ ys) =
     (case scanRows limit ps xs of (ps', done) \<Rightarrow> if done then (ps', True) else scanRows limit ps' ys)"
  by (induction limit ps xs rule: scanRows.induct) (simp_all split: prod.splits)

lemma fetchLoop_scan: "fetchLoop limit rows offset ps = fst (scanRows limit ps (drop offset rows))"
proof (induction limit rows offset ps rule: fetchLoop.induct)
  case (1 limit rows offset ps)
  define chunk where "chunk = take PENDING_FETCH_CHUNK_ROWS (drop offset rows)"
  have chunk_pos: "0 < PENDING_FETCH_CHUNK_ROWS" by (simp add: PENDING_FETCH_CHUNK_ROWS_def)
  obtain ps' fin where scan: "scanRows limit ps chunk = (ps', fin)" by fastforce
  have rest: "drop offset rows = chunk @ drop (offset + length chunk) rows"
  proof (cases "length chunk < PENDING_FETCH_CHUNK_ROWS")
    case True
    then have "chunk = drop offset rows" "length (drop offset rows) = length chunk" by (simp_all add: chunk_def)
    then show ?thesis by simp
  next
    case False
    then have "length chunk = PENDING_FETCH_CHUNK_ROWS" by (simp add: chunk_def)
    then show ?thesis by (simp add: chunk_def add.commute flip: drop_drop)
  qed
  show ?case
  proof (cases "chunk = []")
    case True
    with chunk_pos have "drop offset rows = []" by (simp add: chunk_def)
    then show ?thesis using True by (simp add: fetchLoop.simps [of limit rows offset ps])
  next
    case False
    show ?thesis
    proof (cases "fin \<or> length chunk < PENDING_FETCH_CHUNK_ROWS")
      case True
      then have "fetchLoop limit rows offset ps = ps'"
        using False scan by (simp add: fetchLoop.simps [of limit rows offset ps] chunk_def [symmetric])
      moreover have "fst (scanRows limit ps (drop offset rows)) = ps'"
      proof (cases fin)
        case True
        then show ?thesis by (subst rest) (simp add: scanRows_append scan)
      next
        case False
        with True have "chunk = drop offset rows" by (simp add: chunk_def)
        with scan show ?thesis by simp
      qed
      ultimately show ?thesis by simp
    next
      case go: False
      have "fetchLoop limit rows offset ps = fetchLoop limit rows (offset + length chunk) ps'"
        using False go scan by (simp add: fetchLoop.simps [of limit rows offset ps] chunk_def [symmetric] del: length_take)
      also have "\<dots> = fst (scanRows limit ps' (drop (offset + length chunk) rows))"
        using 1 [OF chunk_def False scan [symmetric]] go by simp
      also have "\<dots> = fst (scanRows limit ps (drop offset rows))"
        using go scan by (subst rest) (simp add: scanRows_append)
      finally show ?thesis .
    qed
  qed
qed

lemma scanRows_spec:
  assumes "scanRows limit ps rs = (ps', fin)" and "pgCapped ps \<Longrightarrow> pgRows ps \<noteq> []"
  shows "\<exists>taken rest. rs = taken @ rest \<and> pgRows ps' = pgRows ps @ taken
    \<and> (rest \<noteq> [] \<longrightarrow> pgRows ps' \<noteq> [] \<and> qCreatedAt (hd rest) \<noteq> qCreatedAt (last (pgRows ps')))"
  using assms
proof (induction limit ps rs rule: scanRows.induct)
  case (1 limit ps)
  then show ?case by auto
next
  case (2 limit ps r rs)
  show ?case
  proof (cases "capped limit ps r \<and> \<not> sameInstant ps r")
    case True
    then have "pgRows ps \<noteq> []" using 2(3) by (auto simp: capped_def)
    with True 2(2) show ?thesis by (intro exI [of _ "[]"] exI [of _ "r # rs"]) (auto simp: sameInstant_def)
  next
    case False
    let ?ps = "ps\<lparr>pgRows := pgRows ps @ [r], pgBytes := pgBytes ps + rowBytes r, pgCapped := capped limit ps r\<rparr>"
    have "scanRows limit ?ps rs = (ps', fin)" using 2(2) False by (simp only: scanRows.simps if_False)
    from 2(1) [OF False this] obtain taken rest where "rs = taken @ rest" "pgRows ps' = pgRows ?ps @ taken"
      "rest \<noteq> [] \<longrightarrow> pgRows ps' \<noteq> [] \<and> qCreatedAt (hd rest) \<noteq> qCreatedAt (last (pgRows ps'))" by auto
    then show ?thesis by (intro exI [of _ "r # taken"] exI [of _ rest]) simp
  qed
qed

lemma page_nonempty: "rs \<noteq> [] \<Longrightarrow> pgRows (fst (scanRows limit emptyPage rs)) \<noteq> []"
proof (cases rs)
  case (Cons r xs)
  let ?ps = "emptyPage\<lparr>pgRows := [r], pgBytes := rowBytes r, pgCapped := False\<rparr>"
  have "scanRows limit emptyPage rs = scanRows limit ?ps xs"
    by (simp add: Cons capped_def sameInstant_def emptyPage_def)
  moreover obtain ps' fin where "scanRows limit ?ps xs = (ps', fin)" by fastforce
  ultimately show ?thesis using scanRows_spec [of limit ?ps xs ps' fin] by auto
qed simp

section \<open>Draining a paged source\<close>

text \<open>
  What a client relies on to drain a source page by page with a strict cursor: a page is an initial
  part of what is after the cursor, is not empty when something is left, and does not end between two
  rows with the same stamp. Then going on from the stamp of the last row loses nothing and repeats
  nothing.
\<close>

locale paged_source =
  fixes rows :: "'s \<Rightarrow> 'r list" and stamp :: "'r \<Rightarrow> int" and page :: "'s \<Rightarrow> int option \<Rightarrow> 'r list"
  assumes rows_sorted: "sorted (map stamp (rows s))"
    and page_prefix: "prefix (page s after) (filter (\<lambda>r. case after of None \<Rightarrow> True | Some t \<Rightarrow> t < stamp r) (rows s))"
    and page_progress: "filter (\<lambda>r. case after of None \<Rightarrow> True | Some t \<Rightarrow> t < stamp r) (rows s) \<noteq> [] \<Longrightarrow> page s after \<noteq> []"
    and page_whole: "filter (\<lambda>r. case after of None \<Rightarrow> True | Some t \<Rightarrow> t < stamp r) (rows s) = page s after @ y # ys \<Longrightarrow>
        stamp y \<noteq> stamp (last (page s after))"
begin

abbreviation rest :: "'s \<Rightarrow> int option \<Rightarrow> 'r list" where
  "rest s after \<equiv> filter (\<lambda>r. case after of None \<Rightarrow> True | Some t \<Rightarrow> t < stamp r) (rows s)"

lemma rest_sorted: "sorted (map stamp (rest s after))"
  using rows_sorted [of s] by (simp add: sorted_filter)

lemma rest_rest: "(case after of None \<Rightarrow> True | Some t \<Rightarrow> t \<le> t') \<Longrightarrow> rest s (Some t') = filter (\<lambda>r. t' < stamp r) (rest s after)"
  by (auto simp: intro: filter_cong split: option.splits)

lemma page_step:
  assumes "page s after \<noteq> []"
  shows "rest s after = page s after @ rest s (Some (stamp (last (page s after))))"
    and "(case after of None \<Rightarrow> True | Some t \<Rightarrow> t < stamp (last (page s after)))"
proof -
  let ?p = "page s after"
  let ?t = "stamp (last ?p)"
  obtain ys where ys: "rest s after = ?p @ ys" using page_prefix unfolding prefix_def by blast
  have "last ?p \<in> set (rest s after)" using assms ys by simp
  then show after: "(case after of None \<Rightarrow> True | Some t \<Rightarrow> t < ?t)" by simp
  have sorted: "sorted (map stamp (?p @ ys))" using rest_sorted [where s = s and after = after] ys by simp
  have below: "stamp x \<le> ?t" if "x \<in> set ?p" for x
  proof -
    have p: "?p = butlast ?p @ [last ?p]" using assms by simp
    have "sorted (map stamp (butlast ?p @ [last ?p]))" using sorted unfolding p [symmetric] by (simp add: sorted_append)
    then have "\<forall>x \<in> set (butlast ?p). stamp x \<le> ?t" by (simp add: sorted_append)
    moreover have "x \<in> set (butlast ?p @ [last ?p])" using that unfolding p [symmetric] .
    ultimately show ?thesis by auto
  qed
  have above: "?t < stamp y" if "y \<in> set ys" for y
  proof (cases ys)
    case (Cons z zs)
    have "?t \<noteq> stamp z" using page_whole ys Cons by metis
    moreover have "?t \<le> stamp z" using sorted assms by (simp add: Cons sorted_append)
    moreover have "stamp z \<le> stamp y" using sorted that by (auto simp: Cons sorted_append)
    ultimately show ?thesis by linarith
  qed (use that in simp)
  have "filter (\<lambda>r. ?t < stamp r) (rest s after) = ys"
    unfolding ys using below above by (simp add: filter_empty_conv filter_id_conv not_less)
  moreover have "rest s (Some ?t) = filter (\<lambda>r. ?t < stamp r) (rest s after)"
    by (rule rest_rest) (use after in \<open>auto split: option.splits\<close>)
  ultimately show "rest s after = ?p @ rest s (Some ?t)" using ys by simp
qed

lemma page_empty: "page s after = [] \<longleftrightarrow> rest s after = []"
  using page_progress page_prefix [of s after] by (auto simp: prefix_Nil)

end

interpretation pending: paged_source "pendingFor u d" qCreatedAt "\<lambda>st after. rawPage limit u d after st" for u d limit
proof
  fix st :: delivery and after :: "int option"
  let ?rest = "filter (\<lambda>r. case after of None \<Rightarrow> True | Some t \<Rightarrow> t < qCreatedAt r) (pendingFor u d st)"
  have rest: "filter (afterInstant after) (pendingFor u d st) = ?rest"
    by (rule filter_cong) (simp_all add: afterInstant_def)
  obtain ps fin where scan: "scanRows limit emptyPage ?rest = (ps, fin)" by fastforce
  have page: "rawPage limit u d after st = pgRows ps"
    by (simp add: rawPage_def rest fetchLoop_scan scan)
  from scanRows_spec [OF scan] obtain rest' where split: "?rest = pgRows ps @ rest'"
    and whole: "rest' \<noteq> [] \<longrightarrow> qCreatedAt (hd rest') \<noteq> qCreatedAt (last (pgRows ps))"
    by (auto simp: emptyPage_def)
  show "sorted (map qCreatedAt (pendingFor u d st))" by (simp add: pendingFor_def)
  show "prefix (rawPage limit u d after st) ?rest" unfolding page split by simp
  show "rawPage limit u d after st \<noteq> []" if "?rest \<noteq> []"
    using page_nonempty [OF that, of limit] scan page by simp
  show "qCreatedAt y \<noteq> qCreatedAt (last (rawPage limit u d after st))"
    if "?rest = rawPage limit u d after st @ y # ys" for y ys
    using that whole split unfolding page by simp
qed

section \<open>The drain is complete\<close>

definition deliverableRow :: "delivery \<Rightarrow> queued_row \<Rightarrow> bool" where
  "deliverableRow st q \<longleftrightarrow> truthy (qGroup q) \<longrightarrow> (\<exists>r \<in> set (groups st). gId r = orEmpty (qGroup q) \<and> gDeletedAt r = None)"

lemma fetchMessages_own:
  fixes limit :: int and after :: "int option" and st :: delivery
  assumes "safeId u" and "safeId d"
  defines "rows \<equiv> rawPage (pageLimitOf limit) u d after st"
  defines "gids \<equiv> uniq (map (\<lambda>q. orEmpty (qGroup q)) (filter (\<lambda>q. truthy (qGroup q)) rows))"
  shows "fetchMessages (Some (JStr u)) (Some (JStr d)) (Some (JStr u)) None limit after st =
    (Inr (filter (\<lambda>q. \<not> truthy (qGroup q) \<or> orEmpty (qGroup q) \<in> set (fst (fst (purgeOrphanGroups gids st)))) rows),
     snd (purgeOrphanGroups gids st))"
proof -
  have "u \<noteq> []" using assms(1) sanitize_ne by (auto simp: safeId_def)
  then have "assertCallerOwnsUserId (Some (JStr u)) None u = Inr ()"
    using assms(1) by (simp add: assertCallerOwnsUserId_def sanitizeOptionalQueryValue_def safeId_def result_simps)
  then show ?thesis
    using assms(1,2)
    by (simp add: fetchMessages_def attempt_def safeId_def result_simps rows_def gids_def Let_def
        split: prod.splits)
qed

lemma purgeOrphanGroups_present:
  assumes "\<forall>g \<in> set gs. \<exists>r \<in> set (groups st). gId r = g"
  shows "snd (purgeOrphanGroups gs st) = st"
    and "set (fst (fst (purgeOrphanGroups gs st))) = {g \<in> set gs. \<exists>r \<in> set (groups st). gId r = g \<and> gDeletedAt r = None}"
proof -
  have "filter (\<lambda>g. g \<notin> set (map gId (filter (\<lambda>r. gId r \<in> set gs) (groups st)))) gs = []"
    using assms by (force simp: filter_empty_conv)
  then have eq: "purgeOrphanGroups gs st = (if gs = [] then (([], []), st) else
      ((map gId (filter (\<lambda>r. gDeletedAt r = None) (filter (\<lambda>r. gId r \<in> set gs) (groups st))),
        map gId (filter (\<lambda>r. gDeletedAt r \<noteq> None) (filter (\<lambda>r. gId r \<in> set gs) (groups st)))), st))"
    by (simp only: purgeOrphanGroups_def Let_def if_True refl)
  show "snd (purgeOrphanGroups gs st) = st" unfolding eq by simp
  show "set (fst (fst (purgeOrphanGroups gs st))) = {g \<in> set gs. \<exists>r \<in> set (groups st). gId r = g \<and> gDeletedAt r = None}"
    unfolding eq by auto
qed

lemma rawPage_subset: "set (rawPage limit u d after st) \<subseteq> set (pendingFor u d st)"
  using set_mono_prefix [OF pending.page_prefix [of limit u d after st]] by auto

lemma fetchMessages_live:
  assumes "safeId u" and "safeId d" and "\<forall>q \<in> set (pendingFor u d st). deliverableRow st q"
  shows "fetchMessages (Some (JStr u)) (Some (JStr d)) (Some (JStr u)) None limit after st =
    (Inr (rawPage (pageLimitOf limit) u d after st), st)"
proof -
  let ?rows = "rawPage (pageLimitOf limit) u d after st"
  let ?gids = "uniq (map (\<lambda>q. orEmpty (qGroup q)) (filter (\<lambda>q. truthy (qGroup q)) ?rows))"
  have live: "deliverableRow st q" if "q \<in> set ?rows" for q using assms(3) rawPage_subset that by blast
  then have "\<forall>g \<in> set ?gids. \<exists>r \<in> set (groups st). gId r = g" by (force simp: deliverableRow_def)
  note purge = purgeOrphanGroups_present [OF this]
  have "filter (\<lambda>q. \<not> truthy (qGroup q) \<or> orEmpty (qGroup q) \<in> set (fst (fst (purgeOrphanGroups ?gids st)))) ?rows = ?rows"
    unfolding purge(2) filter_id_conv using live by (auto simp: deliverableRow_def)
  with purge(1) show ?thesis unfolding fetchMessages_own [OF assms(1,2)] by simp
qed

abbreviation restFor :: "string \<Rightarrow> string \<Rightarrow> delivery \<Rightarrow> int option \<Rightarrow> queued_row list" where
  "restFor u d st after \<equiv> filter (\<lambda>r. case after of None \<Rightarrow> True | Some t \<Rightarrow> t < qCreatedAt r) (pendingFor u d st)"

lemma cursor_moves: "(case after of None \<Rightarrow> True | Some t \<Rightarrow> t < t') \<Longrightarrow> after \<noteq> Some (t' :: int)"
  by (auto split: option.splits)

lemma pullPending_all:
  assumes "safeId u" and "safeId d" and "\<forall>q \<in> set (pendingFor u d st). deliverableRow st q"
    and "length (restFor u d st after) < n"
  shows "pullPending n (\<lambda>_. Delivered) u d i limit after got st = Some (got @ restFor u d st after, False)"
  using assms(4)
proof (induction n arbitrary: i after got)
  case 0
  then show ?case by simp
next
  case (Suc n)
  let ?p = "rawPage (pageLimitOf limit) u d after st"
  note fetch = fetchMessages_live [OF assms(1-3)]
  show ?case
  proof (cases "?p = []")
    case True
    then have "restFor u d st after = []" using pending.page_empty [where limit = "pageLimitOf limit" and u = u and d = d and s = st and after = after] by simp
    with True show ?thesis by (simp add: fetch)
  next
    case False
    let ?t = "qCreatedAt (last ?p)"
    note step = pending.page_step [OF False]
    have "0 < length ?p" using False by simp
    then have "length (restFor u d st (Some ?t)) < n"
      using Suc.prems arg_cong [OF step(1), of length] unfolding length_append by linarith
    from Suc.IH [OF this, of "i + 1" "got @ ?p"]
    have "pullPending n (\<lambda>_. Delivered) u d (i + 1) limit (Some ?t) (got @ ?p) st = Some (got @ restFor u d st after, False)"
      using step(1) by simp
    moreover have "after \<noteq> Some ?t" by (rule cursor_moves [OF step(2)])
    ultimately show ?thesis using False by (simp add: fetch Let_def)
  qed
qed

text \<open>
  The drain of a queue is complete. When every row waiting for a device belongs to a live group
  and every page arrives, the client ends the pull with exactly the rows of the device, oldest first,
  each of them once, whatever the sizes of the rows and however many share an instant.
\<close>

theorem drain_complete:
  assumes "safeId u" and "safeId d" and "u \<noteq> ''unknown''"
    and "\<forall>q \<in> set (pendingFor u d st). deliverableRow st q"
  shows "pullPendingMessagesJson (length (pendingFor u d st) + 1) (\<lambda>_. Delivered) u d st = Some (pendingFor u d st, False)"
proof -
  have "pullPending (length (pendingFor u d st) + 1) (\<lambda>_. Delivered) u d 0 500 None [] st
      = Some ([] @ restFor u d st None, False)"
    by (rule pullPending_all [OF assms(1,2,4)]) simp_all
  with assms(3) show ?thesis by (simp add: pullPendingMessagesJson_def)
qed

section \<open>The drain ends\<close>

lemma purge_queue: "\<exists>P. queue (snd (purgeOrphanGroups gs st)) = filter P (queue st)"
proof (cases "snd (purgeOrphanGroups gs st) = st")
  case True
  then show ?thesis by (intro exI [of _ "\<lambda>_. True"]) simp
next
  case False
  then obtain os where "os \<noteq> []" and "snd (purgeOrphanGroups gs st) = deleteGroupRedisKeys os (snd (deleteGroupOwnedRows os False st))"
    by (auto simp: purgeOrphanGroups_def Let_def split: if_splits)
  then show ?thesis
    by (intro exI [of _ "\<lambda>q. \<not> queuedIn os q"])
      (simp add: deleteGroupRedisKeys_def deleteGroupOwnedRows_def delete_where_def)
qed

text \<open>How many rows of a device are after the cursor.\<close>

definition waiting :: "string \<Rightarrow> string \<Rightarrow> delivery \<Rightarrow> int option \<Rightarrow> nat" where
  "waiting u d st after = length (filter (\<lambda>q. qRecipient q = u \<and> qDevice q = d
     \<and> (case after of None \<Rightarrow> True | Some t \<Rightarrow> t < qCreatedAt q)) (queue st))"

lemma length_filter_mono: "(\<And>x. x \<in> set xs \<Longrightarrow> P x \<Longrightarrow> Q x) \<Longrightarrow> length (filter P xs) \<le> length (filter Q xs)"
  by (induction xs) auto

lemma length_filter_strict:
  assumes "x \<in> set xs" and "Q x" and "\<not> P x" and "\<And>y. y \<in> set xs \<Longrightarrow> P y \<Longrightarrow> Q y"
  shows "length (filter P xs) < length (filter Q xs)"
  using assms
proof (induction xs)
  case (Cons y ys)
  show ?case
  proof (cases "x = y")
    case True
    have "length (filter P ys) \<le> length (filter Q ys)" by (rule length_filter_mono) (use Cons.prems(4) in simp)
    with True Cons.prems(2,3) show ?thesis by simp
  next
    case False
    with Cons.prems have "length (filter P ys) < length (filter Q ys)" by (intro Cons.IH) auto
    with Cons.prems(4) show ?thesis by auto
  qed
qed simp

lemma fetch_progress:
  assumes "safeId u" and "safeId d"
    and "fetchMessages (Some (JStr u)) (Some (JStr d)) (Some (JStr u)) None limit after st = (Inr batch, st')"
    and "batch \<noteq> []"
  shows "waiting u d st' (Some (qCreatedAt (last batch))) < waiting u d st after"
proof -
  let ?rows = "rawPage (pageLimitOf limit) u d after st"
  let ?gids = "uniq (map (\<lambda>q. orEmpty (qGroup q)) (filter (\<lambda>q. truthy (qGroup q)) ?rows))"
  have st': "st' = snd (purgeOrphanGroups ?gids st)" and "set batch \<subseteq> set ?rows"
    using assms(3) unfolding fetchMessages_own [OF assms(1,2)] by auto
  with assms(4) have last: "last batch \<in> set ?rows" by auto
  then have "last batch \<in> set (restFor u d st after)" using set_mono_prefix [OF pending.page_prefix] by blast
  then have l: "last batch \<in> set (queue st)" "qRecipient (last batch) = u" "qDevice (last batch) = d"
    "case after of None \<Rightarrow> True | Some t \<Rightarrow> t < qCreatedAt (last batch)"
    by (simp_all add: pendingFor_def)
  obtain P where q: "queue st' = filter P (queue st)" using purge_queue unfolding st' by blast
  have "waiting u d st' (Some (qCreatedAt (last batch))) \<le> waiting u d st (Some (qCreatedAt (last batch)))"
    unfolding waiting_def q filter_filter by (rule length_filter_mono) simp
  also have "\<dots> < waiting u d st after"
    unfolding waiting_def
    by (rule length_filter_strict [where x = "last batch"]) (use l in \<open>auto split: option.splits\<close>)
  finally show ?thesis .
qed

lemma pullPending_ends:
  assumes "safeId u" and "safeId d"
  shows "waiting u d st after + k < n \<Longrightarrow> 1 \<le> limit \<Longrightarrow> limit < 2 ^ (k + 1) \<Longrightarrow> pullPending n net u d i limit after got st \<noteq> None"
proof (induction n arbitrary: i limit after got st k)
  case 0
  then show ?case by simp
next
  case (Suc n)
  show ?case
  proof (cases "net i")
    case Refused
    then show ?thesis by simp
  next
    case Stalled
    show ?thesis
    proof (cases "limit > 1")
      case False
      with Stalled show ?thesis by simp
    next
      case True
      then obtain k' where k: "k = Suc k'" using Suc.prems(3) by (cases k) auto
      define b :: int where "b = 2 ^ k'"
      have "1 \<le> b" and "limit < 4 * b" using Suc.prems(3) by (simp_all add: k b_def)
      then have "max 1 (limit div 2) < 2 * b" by arith
      then have "max 1 (limit div 2) < 2 ^ (k' + 1)" by (simp add: b_def)
      then have "pullPending n net u d (i + 1) (max 1 (limit div 2)) after got st \<noteq> None"
        by (intro Suc.IH [where k = k']) (use Suc.prems(1) in \<open>simp_all add: k\<close>)
      with Stalled True show ?thesis by simp
    qed
  next
    case Delivered
    obtain r st' where fetch: "fetchMessages (Some (JStr u)) (Some (JStr d)) (Some (JStr u)) None limit after st = (r, st')"
      by fastforce
    show ?thesis
    proof (cases r)
      case (Inl err)
      with Delivered fetch show ?thesis by simp
    next
      case (Inr batch)
      show ?thesis
      proof (cases "batch = []")
        case True
        with Delivered fetch Inr show ?thesis by simp
      next
        case False
        from fetch_progress [OF assms fetch [unfolded Inr] False] Suc.prems(1)
        have "waiting u d st' (Some (qCreatedAt (last batch))) + k < n" by linarith
        from Suc.IH [OF this Suc.prems(2,3)] Delivered fetch Inr False show ?thesis by (simp add: Let_def del: not_None_eq)
      qed
    qed
  qed
qed

text \<open>
  C26: The pull ends. Whatever the network does and whatever the server holds, the client stops asking
  after at most nine requests more than there are rows waiting for it: every page that arrives moves
  the cursor past a row, and every page that does not arrive halves the size asked for.
\<close>

theorem pull_ends:
  assumes "safeId u" and "safeId d"
  shows "pullPendingMessagesJson (length (pendingFor u d st) + 9) net u d st \<noteq> None"
proof -
  have "waiting u d st None = length (pendingFor u d st)" by (simp add: waiting_def pendingFor_def)
  then have "pullPending (length (pendingFor u d st) + 9) net u d 0 500 None [] st \<noteq> None"
    by (intro pullPending_ends [OF assms, where k = 8]) simp_all
  then show ?thesis unfolding pullPendingMessagesJson_def by (simp only: split: if_split) simp
qed

section \<open>The size of a page\<close>

lemma scanRows_bounds:
  assumes "scanRows limit ps rs = (ps', fin)" and "pgBytes ps = sum_list (map rowBytes (pgRows ps))"
    and "\<And>p r q. pgRows ps = p @ r # q \<Longrightarrow> p \<noteq> [] \<Longrightarrow> qCreatedAt r \<noteq> qCreatedAt (last p) \<Longrightarrow>
      sum_list (map rowBytes (p @ [r])) \<le> PENDING_PAGE_MAX_BYTES \<and> length (p @ [r]) \<le> limit"
    and "pgRows ps' = p @ r # q" and "p \<noteq> []" and "qCreatedAt r \<noteq> qCreatedAt (last p)"
  shows "sum_list (map rowBytes (p @ [r])) \<le> PENDING_PAGE_MAX_BYTES \<and> length (p @ [r]) \<le> limit"
  using assms
proof (induction limit ps rs rule: scanRows.induct)
  case (1 limit ps)
  then show ?case by auto
next
  case (2 limit ps x xs)
  show ?case
  proof (cases "capped limit ps x \<and> \<not> sameInstant ps x")
    case True
    then have "pgRows ps' = pgRows ps" using 2(2) by auto
    with 2 show ?thesis by auto
  next
    case False
    let ?ps = "ps\<lparr>pgRows := pgRows ps @ [x], pgBytes := pgBytes ps + rowBytes x, pgCapped := capped limit ps x\<rparr>"
    have rec: "scanRows limit ?ps xs = (ps', fin)" using 2(2) False by (simp only: scanRows.simps if_False)
    have bound: "sum_list (map rowBytes (p' @ [r'])) \<le> PENDING_PAGE_MAX_BYTES \<and> length (p' @ [r']) \<le> limit"
      if "pgRows ps @ [x] = p' @ r' # q'" "p' \<noteq> []" "qCreatedAt r' \<noteq> qCreatedAt (last p')" for p' r' q'
    proof (cases q' rule: rev_cases)
      case Nil
      with that have p': "p' = pgRows ps" "r' = x" by simp_all
      with that have "\<not> sameInstant ps x" by (simp add: sameInstant_def)
      with False have "\<not> capped limit ps x" by blast
      with p' that(2) 2(3) show ?thesis by (auto simp: capped_def not_less not_le)
    next
      case (snoc q'' y)
      with that(1) have "pgRows ps = p' @ r' # q''" by simp
      from 2(4) [OF this that(2,3)] show ?thesis .
    qed
    show ?thesis
      by (rule 2(1) [OF False rec]) (use 2(3,5-7) bound in auto)
  qed
qed

text \<open>
  The size of a page. A row that is not the first of its page and does not share its instant with
  the row before it was added within both bounds: the bytes up to it are at most one mebibyte and the
  rows up to it at most the limit asked for, itself clamped between 1 and 1000. So a page is over a
  bound only by its first row or by the rows of its last instant.
\<close>

theorem page_bounds:
  assumes "rawPage (pageLimitOf limit) u d after st = p @ r # q"
    and "p \<noteq> []" and "qCreatedAt r \<noteq> qCreatedAt (last p)"
  shows "sum_list (map rowBytes (p @ [r])) \<le> PENDING_PAGE_MAX_BYTES
    \<and> length (p @ [r]) \<le> pageLimitOf limit \<and> pageLimitOf limit \<le> 1000"
proof -
  obtain ps fin where scan: "scanRows (pageLimitOf limit) emptyPage (filter (afterInstant after) (pendingFor u d st)) = (ps, fin)"
    by fastforce
  then have "pgRows ps = p @ r # q" using assms(1) by (simp add: rawPage_def fetchLoop_scan)
  from scanRows_bounds [OF scan _ _ this assms(2,3)] show ?thesis
    by (simp add: emptyPage_def pageLimitOf_def)
qed

section \<open>Acknowledging\<close>

lemma sanitizeIds: "\<forall>i \<in> set ids. safeId i \<Longrightarrow> sanitizeStringIdList (Some (JArr (map JStr ids))) = Inr ids"
proof (induction ids)
  case (Cons i ids)
  then have "trim i = i" "i \<noteq> []" using sanitize_ne [of "Some (JStr i)" i]
    by (auto simp: safeId_def sanitizeQueryValue_def Let_def split: if_splits)
  with Cons show ?case by (simp add: sanitizeStringIdList_def isStr_def strOf_def)
qed (simp add: sanitizeStringIdList_def)

text \<open>
  C27: Acknowledging a drain loses nothing. A device drains its queue; while it does, other rows are
  queued, for it or for others. Acknowledging the ids of the rows it got is accepted, is answered
  their number, and leaves in the queue exactly the rows of the other devices and the rows that
  arrived meanwhile.
\<close>

theorem ack_after_drain:
  assumes "safeId u" and "safeId d" and "u \<noteq> ''unknown''"
    and "\<forall>q \<in> set (pendingFor u d st). deliverableRow st q"
    and "\<forall>q \<in> set (queue st). safeId (qId q)" and "qId ` set new \<inter> qId ` set (queue st) = {}"
    and "pullPendingMessagesJson (length (pendingFor u d st) + 1) (\<lambda>_. Delivered) u d st = Some (rows, thrown)"
  shows "acknowledgeMessages (Some (JStr u)) (Some (JStr d)) (Some (JArr (map (\<lambda>q. JStr (qId q)) rows)))
      (Some (JStr u)) None (st\<lparr>queue := queue st @ new\<rparr>) =
    (Inr (length rows),
     st\<lparr>queue := filter (\<lambda>q. \<not> (qRecipient q = u \<and> qDevice q = d)) (queue st) @ new\<rparr>)"
proof -
  have "pullPending (length (pendingFor u d st) + 1) (\<lambda>_. Delivered) u d 0 500 None [] st
      = Some ([] @ restFor u d st None, False)"
    by (rule pullPending_all [OF assms(1,2,4)]) simp_all
  with assms(3,7) have rows: "rows = pendingFor u d st" by (simp add: pullPendingMessagesJson_def)
  have u: "u \<noteq> []" using assms(1) sanitize_ne by (auto simp: safeId_def)
  then have own: "assertCallerOwnsUserId (Some (JStr u)) None u = Inr ()"
    using assms(1) by (simp add: assertCallerOwnsUserId_def sanitizeOptionalQueryValue_def safeId_def result_simps)
  have ids: "sanitizeStringIdList (Some (JArr (map (\<lambda>q. JStr (qId q)) rows))) = Inr (map qId rows)"
    using sanitizeIds [of "map qId rows"] assms(5) by (simp add: rows pendingFor_def comp_def)
  let ?acked = "\<lambda>q. qId q \<in> set (map qId rows) \<and> qRecipient q = u \<and> qDevice q = d"
  have old: "filter ?acked (queue st) = filter (\<lambda>q. qRecipient q = u \<and> qDevice q = d) (queue st)"
    and kept: "filter (\<lambda>q. \<not> ?acked q) (queue st) = filter (\<lambda>q. \<not> (qRecipient q = u \<and> qDevice q = d)) (queue st)"
    by (rule filter_cong; auto simp: rows pendingFor_def)+
  have none: "\<not> ?acked q" if "q \<in> set new" for q using that assms(6) by (auto simp: rows pendingFor_def)
  then have new: "filter ?acked new = []" "filter (\<lambda>q. \<not> ?acked q) new = new"
    unfolding filter_empty_conv filter_id_conv by blast+
  have len: "length (filter (\<lambda>q. qRecipient q = u \<and> qDevice q = d) (queue st)) = length rows"
    unfolding rows pendingFor_def by (rule length_sort [symmetric])
  have count: "countIn ?acked (queue st @ new) = length rows"
    unfolding countIn_def filter_append old new by (simp add: len)
  have del: "delete_where ?acked (queue st @ new) = filter (\<lambda>q. \<not> (qRecipient q = u \<and> qDevice q = d)) (queue st) @ new"
    unfolding delete_where_def filter_append kept new ..
  have empty: "filter (\<lambda>q. \<not> (qRecipient q = u \<and> qDevice q = d)) (queue st) = queue st" if "rows = []"
    using that len by (simp add: filter_empty_conv filter_id_conv)
  show ?thesis
    using assms(1,2) own ids count del empty
    by (simp add: acknowledgeMessages_def attempt_def safeId_def result_simps Let_def)
qed

section \<open>A page with nothing to deliver\<close>

text \<open>Three rows wait for a device; a group of the table may be deleted.\<close>

definition demo_row :: "string \<Rightarrow> string \<Rightarrow> nat \<Rightarrow> int \<Rightarrow> queued_row" where
  "demo_row i g n t = \<lparr>qId = i, qRecipient = ''cat'', qDevice = ''d3'', qProto = Some (replicate n CHR ''A''),
     qIsWelcome = None, qIsCommit = None, qSender = None, qSenderDevice = None, qGroup = Some g, qType = None,
     qContent = None, qRatchetTree = None, qCreatedAt = t\<rparr>"

definition demo_queue :: "nat \<Rightarrow> delivery" where
  "demo_queue n = demo_store\<lparr>groups := [demo_group ''g'', (demo_group ''x'')\<lparr>gDeletedAt := Some 7\<rparr>],
     queue := [demo_row ''a'' ''x'' n 1, demo_row ''b'' ''g'' 4 2]\<rparr>"

definition demo_backlog :: delivery where
  "demo_backlog = demo_store\<lparr>queue := [demo_row ''b'' ''g'' 4 2, demo_row ''a'' ''g'' 8 1,
     (demo_row ''c'' ''g'' 4 1)\<lparr>qRecipient := ''bob'', qDevice := ''d2''\<rparr>]\<rparr>"

lemma demo_pending: "pendingFor ''cat'' ''d3'' (demo_queue n) = [demo_row ''a'' ''x'' n 1, demo_row ''b'' ''g'' 4 2]"
  "pendingFor ''cat'' ''d3'' demo_backlog = [demo_row ''a'' ''g'' 8 1, demo_row ''b'' ''g'' 4 2]"
  by (simp_all add: pendingFor_def demo_queue_def demo_backlog_def demo_row_def demo_store_def)

lemma demo_rowBytes: "rowBytes (demo_row i g n t) = n"
  by (simp add: rowBytes_def demo_row_def)

lemma demo_row_created: "qCreatedAt (demo_row i g n t) = t" "qGroup (demo_row i g n t) = Some g" "qId (demo_row i g n t) = i"
  by (simp_all add: demo_row_def)

lemma demo_backlog_live: "\<forall>q \<in> set (pendingFor ''cat'' ''d3'' demo_backlog). deliverableRow demo_backlog q"
proof -
  have "groups demo_backlog = [demo_group ''g'']" by (simp add: demo_backlog_def demo_store_def)
  then show ?thesis unfolding demo_pending
    by (simp add: deliverableRow_def demo_row_created demo_group_def orEmpty_def)
qed

theorem drain_complete_witness:
  "pullPendingMessagesJson 3 (\<lambda>_. Delivered) ''cat'' ''d3'' demo_backlog =
     Some ([demo_row ''a'' ''g'' 8 1, demo_row ''b'' ''g'' 4 2], False)"
  using drain_complete [OF safe_demo(2,3) _ demo_backlog_live] by (simp add: demo_pending numeral_3_eq_3)

theorem pull_ends_witness: "pullPendingMessagesJson 11 (\<lambda>_. Stalled) ''cat'' ''d3'' demo_backlog \<noteq> None"
  using pull_ends [OF safe_demo(2,3), of demo_backlog "\<lambda>_. Stalled"] by (simp only: demo_pending list.size) simp

theorem page_bounds_witness:
  "rawPage (pageLimitOf 500) ''cat'' ''d3'' None demo_backlog = [demo_row ''a'' ''g'' 8 1] @ demo_row ''b'' ''g'' 4 2 # []
   \<and> sum_list (map rowBytes ([demo_row ''a'' ''g'' 8 1] @ [demo_row ''b'' ''g'' 4 2])) \<le> PENDING_PAGE_MAX_BYTES"
proof -
  have page: "rawPage (pageLimitOf 500) ''cat'' ''d3'' None demo_backlog = [demo_row ''a'' ''g'' 8 1] @ demo_row ''b'' ''g'' 4 2 # []"
    by (simp add: rawPage_def fetchLoop_scan demo_pending afterInstant_def capped_def sameInstant_def emptyPage_def
        demo_row_created demo_rowBytes pageLimitOf_def PENDING_PAGE_MAX_BYTES_def)
  from page_bounds [OF this] page show ?thesis by (simp add: demo_row_created)
qed

theorem ack_after_drain_witness:
  "acknowledgeMessages (Some (JStr ''cat'')) (Some (JStr ''d3'')) (Some (JArr [JStr ''a'', JStr ''b''])) (Some (JStr ''cat'')) None
      (demo_backlog\<lparr>queue := queue demo_backlog @ [demo_row ''n'' ''g'' 4 9]\<rparr>) =
    (Inr 2, demo_backlog\<lparr>queue := [(demo_row ''c'' ''g'' 4 1)\<lparr>qRecipient := ''bob'', qDevice := ''d2''\<rparr>, demo_row ''n'' ''g'' 4 9]\<rparr>)"
proof -
  have ids: "\<forall>q \<in> set (queue demo_backlog). safeId (qId q)"
    by (simp add: demo_backlog_def demo_row_def safeId_def sanitizeQueryValue_def SAFE_QUERY_VALUE_REGEX_def safe_char_def
        alnum_def trim_def js_ws_def)
  have fresh: "qId ` set [demo_row ''n'' ''g'' 4 9] \<inter> qId ` set (queue demo_backlog) = {}"
    by (simp add: demo_backlog_def demo_row_def)
  have "pullPending 3 (\<lambda>_. Delivered) ''cat'' ''d3'' 0 500 None [] demo_backlog
      = Some ([] @ restFor ''cat'' ''d3'' demo_backlog None, False)"
    by (rule pullPending_all [OF safe_demo(2,3) demo_backlog_live]) (simp add: demo_pending)
  then have pull: "pullPendingMessagesJson (length (pendingFor ''cat'' ''d3'' demo_backlog) + 1) (\<lambda>_. Delivered) ''cat'' ''d3'' demo_backlog
      = Some ([demo_row ''a'' ''g'' 8 1, demo_row ''b'' ''g'' 4 2], False)"
    by (simp add: pullPendingMessagesJson_def demo_pending numeral_3_eq_3)
  from ack_after_drain [OF safe_demo(2,3) _ demo_backlog_live ids fresh pull]
  show ?thesis by (simp add: demo_row_created) (simp add: demo_backlog_def demo_row_def)
qed

text \<open>
  A page of rows of a deleted group ends the pull. When the first row waiting for a device is of a
  deleted group and fills a page, the server answers an empty page, which the client reads as the end
  of the queue: it gets nothing, although a row of a live group is waiting, and the server's store is
  as it was, so every later pull ends the same way. A drain therefore rests on the absence of such rows:
  the requests and jobs of the service never leave one (theory \<open>Service\<close>).
\<close>

theorem undeliverable_page_stops_drain:
  "\<exists>q \<in> set (pendingFor ''cat'' ''d3'' (demo_queue (PENDING_PAGE_MAX_BYTES + 1))). deliverableRow (demo_queue (PENDING_PAGE_MAX_BYTES + 1)) q
     \<and> pullPendingMessagesJson 1 (\<lambda>_. Delivered) ''cat'' ''d3'' (demo_queue (PENDING_PAGE_MAX_BYTES + 1)) = Some ([], False)
     \<and> snd (fetchMessages (Some (JStr ''cat'')) (Some (JStr ''d3'')) (Some (JStr ''cat'')) None 500 None
         (demo_queue (PENDING_PAGE_MAX_BYTES + 1))) = demo_queue (PENDING_PAGE_MAX_BYTES + 1)"
proof -
  define n where "n = PENDING_PAGE_MAX_BYTES + 1"
  have page: "rawPage (pageLimitOf 500) ''cat'' ''d3'' None (demo_queue n) = [demo_row ''a'' ''x'' n 1]"
    by (simp add: rawPage_def fetchLoop_scan demo_pending afterInstant_def capped_def sameInstant_def emptyPage_def
        demo_row_created demo_rowBytes n_def)
  have groups: "groups (demo_queue n) = [demo_group ''g'', (demo_group ''x'')\<lparr>gDeletedAt := Some 7\<rparr>]" by (simp add: demo_queue_def)
  have gids: "uniq (map (\<lambda>q. orEmpty (qGroup q)) (filter (\<lambda>q. truthy (qGroup q)) [demo_row ''a'' ''x'' n 1])) = [''x'']"
    by (simp add: demo_row_created truthy_def orEmpty_def uniq_def)
  have "\<forall>g \<in> set [''x'']. \<exists>r \<in> set (groups (demo_queue n)). gId r = g" by (simp add: groups demo_group_def)
  note purge = purgeOrphanGroups_present [OF this]
  have fetch: "fetchMessages (Some (JStr ''cat'')) (Some (JStr ''d3'')) (Some (JStr ''cat'')) None 500 None (demo_queue n) = (Inr [], demo_queue n)"
    unfolding fetchMessages_own [OF safe_demo(2,3)] page gids purge
    by (simp add: groups demo_group_def demo_row_created truthy_def orEmpty_def)
  have "deliverableRow (demo_queue n) (demo_row ''b'' ''g'' 4 2)"
    by (simp add: deliverableRow_def groups demo_group_def demo_row_created orEmpty_def)
  then show ?thesis unfolding n_def [symmetric] using fetch by (simp add: demo_pending pullPendingMessagesJson_def)
qed

end
