(* ===== verification/Device_Registry.thy ===== *)
theory Device_Registry
  imports Membership
begin

text \<open>
  Registration of devices and the keys they publish (\<open>controllers/devices.controller.ts\<close>). A device has
  one static key package and a pool of one-time key packages; whoever adds the device to a group is
  handed the oldest of the pool, or the static one when the pool is empty. Requests run one at a time
  here, so that no row of the pool is locked by another. The identifiers of new rows are given by the
  \<open>env\<close> of the request, the display name of a user by an argument.
\<close>

section \<open>Registration\<close>

definition MAX_DEVICES_PER_USER :: nat where
  "MAX_DEVICES_PER_USER = 15"

record register_body =
  rbUser :: "json option"
  rbDevice :: "json option"
  rbKeyPackage :: "json option"
  rbName :: "json option"
  rbOs :: "json option"
  rbVersion :: "json option"

definition isRevoked :: "int \<Rightarrow> string \<Rightarrow> string \<Rightarrow> delivery \<Rightarrow> bool" where
  "isRevoked now u d st \<longleftrightarrow> list_ex (\<lambda>r. rUser r = u \<and> rDevice r = d \<and> activeRevocation now r) (revokedDevices st)"

definition findKeyPackage :: "string \<Rightarrow> string \<Rightarrow> delivery \<Rightarrow> kp_row option" where
  "findKeyPackage u d st = find (\<lambda>k. kUser k = u \<and> kDevice k = d) (keyPackages st)"

definition keyPackageOk :: "json option \<Rightarrow> bool" where
  "keyPackageOk v = (case v of Some (JStr s) \<Rightarrow> trim s \<noteq> [] \<and> length s \<le> 16384 | _ \<Rightarrow> False)"

definition deviceCount :: "int \<Rightarrow> string \<Rightarrow> delivery \<Rightarrow> nat" where
  "deviceCount now u st =
     countIn (\<lambda>k. kUser k = u \<and> kCreatedAt k \<ge> now - RETENTION_WINDOW_MS) (keyPackages st)"

text \<open>A column the request leaves undefined keeps its value.\<close>

definition orKept :: "string option \<Rightarrow> string option \<Rightarrow> string option" where
  "orKept given kept = (case given of None \<Rightarrow> kept | Some _ \<Rightarrow> given)"

definition putKeyPackage ::
  "int \<Rightarrow> string \<Rightarrow> string \<Rightarrow> string \<Rightarrow> string option \<Rightarrow> string option \<Rightarrow> string option \<Rightarrow> delivery \<Rightarrow> delivery" where
  "putKeyPackage now u d payload name os version st =
     st\<lparr>keyPackages :=
       (case findKeyPackage u d st of
          None \<Rightarrow> keyPackages st @ [\<lparr>kUser = u, kDevice = d, kPayload = payload, kName = name, kOs = os,
                    kVersion = version, kCreatedAt = now\<rparr>]
        | Some _ \<Rightarrow> update_where (\<lambda>k. kUser k = u \<and> kDevice k = d)
            (\<lambda>k. k\<lparr>kPayload := payload, kName := orKept name (kName k), kOs := orKept os (kOs k),
                   kVersion := orKept version (kVersion k), kCreatedAt := now\<rparr>) (keyPackages st))\<rparr>"

definition activeGroupIds :: "string \<Rightarrow> delivery \<Rightarrow> string list" where
  "activeGroupIds u st =
     map gId (filter (\<lambda>g. gId g \<in> set (map mGroup (filter (\<lambda>m. mUser m = u) (members st))) \<and> gDeletedAt g = None) (groups st))"

definition seatInGroups :: "int \<Rightarrow> string \<Rightarrow> string \<Rightarrow> string list \<Rightarrow> device_row list \<Rightarrow> device_row list" where
  "seatInGroups now u d gs rows = fold (\<lambda>g rs. insert_or_ignore deviceIndex (pendingSeat now u g d) rs) gs rows"

text \<open>The checks of a registration, in their order.\<close>

definition registerRequest ::
  "int \<Rightarrow> register_body \<Rightarrow> json option \<Rightarrow> string option \<Rightarrow> delivery
     \<Rightarrow> (http_error, string \<times> string \<times> string \<times> string option \<times> string option \<times> string option) result" where
  "registerRequest now body headerUserId headerGlobalAdmin st =
     bind_r (sanitizeIdentityValue (rbUser body)) (\<lambda>u.
     bind_r (sanitizeIdentityValue (rbDevice body)) (\<lambda>d.
     bind_r (assertCallerOwnsUserId headerUserId headerGlobalAdmin u) (\<lambda>_.
       if isRevoked now u d st then Inl (Forbidden ''DEVICE_REVOKED'')
       else if \<not> keyPackageOk (rbKeyPackage body) then Inl (BadRequest ''keyPackage'')
       else
       bind_r (sanitizeOptionalDeviceName (rbName body)) (\<lambda>name.
       bind_r (sanitizeOptionalDeviceOs (rbOs body)) (\<lambda>os.
       bind_r (sanitizeOptionalDeviceAppVersion (rbVersion body)) (\<lambda>version.
         if deviceCount now u st \<ge> MAX_DEVICES_PER_USER then Inl (BadRequest ''DEVICE_LIMIT_REACHED'')
         else Inr (u, d, strOrEmpty (rbKeyPackage body), name, os, version)))))))"

definition registerDevice ::
  "int \<Rightarrow> register_body \<Rightarrow> json option \<Rightarrow> string option \<Rightarrow> delivery \<Rightarrow> (http_error, unit) result \<times> delivery" where
  "registerDevice now body headerUserId headerGlobalAdmin st =
     attempt (registerRequest now body headerUserId headerGlobalAdmin st)
       (\<lambda>(u, d, payload, name, os, version).
          let st1 = putKeyPackage now u d payload name os version st
          in (Inr (), st1\<lparr>devices := seatInGroups now u d (activeGroupIds u st1) (devices st1)\<rparr>)) st"

definition prekeyOk :: "json \<Rightarrow> bool" where
  "prekeyOk v \<longleftrightarrow> isStr v \<and> strOf v \<noteq> [] \<and> length (strOf v) \<le> 16384"

definition registerDevicePrekeys ::
  "env \<Rightarrow> json option \<Rightarrow> json option \<Rightarrow> json option \<Rightarrow> json option \<Rightarrow> string option \<Rightarrow> delivery
     \<Rightarrow> (http_error, nat) result \<times> delivery" where
  "registerDevicePrekeys e userId deviceId payloads headerUserId headerGlobalAdmin st =
     attempt
       (bind_r (sanitizeQueryValue userId) (\<lambda>u.
        bind_r (sanitizeQueryValue deviceId) (\<lambda>d.
        bind_r (assertCallerOwnsUserId headerUserId headerGlobalAdmin u) (\<lambda>_.
          case payloads of
            Some (JArr xs) \<Rightarrow>
              if xs = [] then Inl (BadRequest ''must be a non-empty array'')
              else if length xs > 200 then Inl (BadRequest ''must not exceed 200 items'')
              else if \<not> list_all prekeyOk xs then Inl (BadRequest ''Each keyPackage'')
              else Inr (u, d, map strOf xs)
          | _ \<Rightarrow> Inl (BadRequest ''must be a non-empty array'')))))
       (\<lambda>(u, d, kps).
          (Inr (length kps),
           st\<lparr>oneTimeKeyPackages := oneTimeKeyPackages st @
             map (\<lambda>i. \<lparr>oId = eIds e i, oUser = u, oDevice = d, oPayload = kps ! i, oCreatedAt = eNow e\<rparr>) [0..<length kps]\<rparr>)) st"

definition updateDeviceMetadata ::
  "json option \<Rightarrow> json option \<Rightarrow> json option \<Rightarrow> json option \<Rightarrow> json option \<Rightarrow> json option \<Rightarrow> string option \<Rightarrow> delivery
     \<Rightarrow> (http_error, string option \<times> string option \<times> string option) result \<times> delivery" where
  "updateDeviceMetadata userId deviceId name os version headerUserId headerGlobalAdmin st =
     attempt
       (bind_r (sanitizeQueryValue userId) (\<lambda>u.
        bind_r (sanitizeQueryValue deviceId) (\<lambda>d.
        bind_r (assertCallerOwnsUserId headerUserId headerGlobalAdmin u) (\<lambda>_.
        bind_r (sanitizeOptionalDeviceName name) (\<lambda>n.
        bind_r (sanitizeOptionalDeviceOs os) (\<lambda>s.
        bind_r (sanitizeOptionalDeviceAppVersion version) (\<lambda>v.
          if n = None \<and> s = None \<and> v = None then Inl (BadRequest ''At least one metadata field'')
          else (case findKeyPackage u d st of
                  None \<Rightarrow> Inl (BadRequest ''Device not found'')
                | Some k \<Rightarrow> Inr (u, d, orKept n (kName k), orKept s (kOs k), orKept v (kVersion k))))))))))
       (\<lambda>(u, d, n, s, v).
          (Inr (n, s, v),
           st\<lparr>keyPackages := update_where (\<lambda>k. kUser k = u \<and> kDevice k = d)
                (\<lambda>k. k\<lparr>kName := n, kOs := s, kVersion := v\<rparr>) (keyPackages st)\<rparr>)) st"

section \<open>Handing out key packages\<close>

text \<open>The oldest row of the pool of a device, and the row deleted by its identifier.\<close>

definition poolOf :: "string \<Rightarrow> string \<Rightarrow> delivery \<Rightarrow> otk_row list" where
  "poolOf u d st = sort_key oCreatedAt (filter (\<lambda>k. oUser k = u \<and> oDevice k = d) (oneTimeKeyPackages st))"

definition popOneTime :: "string \<Rightarrow> string \<Rightarrow> delivery \<Rightarrow> otk_row option \<times> delivery" where
  "popOneTime u d st =
     (case poolOf u d st of
        [] \<Rightarrow> (None, st)
      | found # _ \<Rightarrow> (Some found, st\<lparr>oneTimeKeyPackages := delete_where (\<lambda>k. oId k = oId found) (oneTimeKeyPackages st)\<rparr>))"

definition resolveKeyPackagePayloadForDevice :: "int \<Rightarrow> string \<Rightarrow> string \<Rightarrow> delivery \<Rightarrow> string option \<times> delivery" where
  "resolveKeyPackagePayloadForDevice now u d st =
     (if isRevoked now u d st then (None, st)
      else (case findKeyPackage u d st of
              None \<Rightarrow> (None, st)
            | Some k \<Rightarrow> (case popOneTime u d st of
                (None, st') \<Rightarrow> (Some (kPayload k), st')
              | (Some otk, st') \<Rightarrow> (Some (oPayload otk), st'))))"

definition getDeviceKeyPackage ::
  "int \<Rightarrow> json option \<Rightarrow> json option \<Rightarrow> delivery \<Rightarrow> (http_error, string \<times> string) result \<times> delivery" where
  "getDeviceKeyPackage now userId deviceId st =
     attempt
       (bind_r (sanitizeQueryValue userId) (\<lambda>u.
        bind_r (sanitizeQueryValue deviceId) (\<lambda>d. Inr (u, d))))
       (\<lambda>(u, d).
          case resolveKeyPackagePayloadForDevice now u d st of
            (p, st') \<Rightarrow> if truthy p then (Inr (d, orEmpty p), st') else (Inl (BadRequest ''No key package''), st')) st"

fun resolveEach :: "int \<Rightarrow> kp_row list \<Rightarrow> delivery \<Rightarrow> (kp_row \<times> string) list \<times> delivery" where
  "resolveEach now [] st = ([], st)"
| "resolveEach now (k # ks) st =
     (case resolveKeyPackagePayloadForDevice now (kUser k) (kDevice k) st of
        (p, st1) \<Rightarrow> (case resolveEach now ks st1 of
          (rows, st2) \<Rightarrow> ((if truthy p then [(k, orEmpty p)] else []) @ rows, st2)))"

definition getUserDevices ::
  "(string \<Rightarrow> string option) \<Rightarrow> int \<Rightarrow> string \<Rightarrow> delivery \<Rightarrow> (kp_row \<times> string \<times> string option) list \<times> delivery" where
  "getUserDevices names now u st =
     (let registered = sort_key (\<lambda>k. - kCreatedAt k)
            (filter (\<lambda>k. kUser k = u \<and> kCreatedAt k \<ge> now - RETENTION_WINDOW_MS) (keyPackages st));
          revokedSet = map rDevice (filter (\<lambda>r. rUser r = u \<and> activeRevocation now r) (revokedDevices st));
          active = filter (\<lambda>k. kDevice k \<notin> set revokedSet) registered
      in case resolveEach now active st of
           (rows, st') \<Rightarrow> (map (\<lambda>(k, p). (k, p, names u)) rows, st'))"

section \<open>The pool and the ban\<close>

definition ownDevice ::
  "json option \<Rightarrow> json option \<Rightarrow> json option \<Rightarrow> string option \<Rightarrow> (http_error, string \<times> string) result" where
  "ownDevice userId deviceId headerUserId headerGlobalAdmin =
     bind_r (sanitizeQueryValue userId) (\<lambda>u.
     bind_r (sanitizeQueryValue deviceId) (\<lambda>d.
     bind_r (assertCallerOwnsUserId headerUserId headerGlobalAdmin u) (\<lambda>_. Inr (u, d))))"

definition isDeviceRevoked ::
  "int \<Rightarrow> json option \<Rightarrow> json option \<Rightarrow> json option \<Rightarrow> string option \<Rightarrow> delivery \<Rightarrow> (http_error, bool) result" where
  "isDeviceRevoked now userId deviceId headerUserId headerGlobalAdmin st =
     bind_r (ownDevice userId deviceId headerUserId headerGlobalAdmin) (\<lambda>(u, d). Inr (isRevoked now u d st))"

definition getPrekeyCount :: "json option \<Rightarrow> json option \<Rightarrow> delivery \<Rightarrow> (http_error, nat) result" where
  "getPrekeyCount userId deviceId st =
     bind_r (sanitizeQueryValue userId) (\<lambda>u.
     bind_r (sanitizeQueryValue deviceId) (\<lambda>d.
       Inr (countIn (\<lambda>k. oUser k = u \<and> oDevice k = d) (oneTimeKeyPackages st))))"

definition purgeDevicePrekeys ::
  "json option \<Rightarrow> json option \<Rightarrow> json option \<Rightarrow> string option \<Rightarrow> delivery \<Rightarrow> (http_error, nat) result \<times> delivery" where
  "purgeDevicePrekeys userId deviceId headerUserId headerGlobalAdmin st =
     attempt (ownDevice userId deviceId headerUserId headerGlobalAdmin)
       (\<lambda>(u, d). let mine = (\<lambda>k. oUser k = u \<and> oDevice k = d)
          in (Inr (countIn mine (oneTimeKeyPackages st)),
              st\<lparr>oneTimeKeyPackages := delete_where mine (oneTimeKeyPackages st)\<rparr>)) st"

definition listDevicePrekeys :: "json option \<Rightarrow> json option \<Rightarrow> delivery \<Rightarrow> (http_error, (string \<times> string) list) result" where
  "listDevicePrekeys userId deviceId st =
     bind_r (sanitizeQueryValue userId) (\<lambda>u.
     bind_r (sanitizeQueryValue deviceId) (\<lambda>d.
       Inr (map (\<lambda>k. (oId k, oPayload k)) (filter (\<lambda>k. oUser k = u \<and> oDevice k = d) (oneTimeKeyPackages st)))))"

definition pruneDevicePrekeys ::
  "json option \<Rightarrow> json option \<Rightarrow> json option \<Rightarrow> json option \<Rightarrow> string option \<Rightarrow> delivery
     \<Rightarrow> (http_error, nat) result \<times> delivery" where
  "pruneDevicePrekeys userId deviceId ids headerUserId headerGlobalAdmin st =
     attempt
       (bind_r (ownDevice userId deviceId headerUserId headerGlobalAdmin) (\<lambda>(u, d).
          case ids of
            Some (JArr xs) \<Rightarrow>
              if xs = [] then Inl (BadRequest ''ids must be a non-empty array'')
              else if length xs > 200 then Inl (BadRequest ''ids must not exceed 200 items'')
              else if \<not> list_all (\<lambda>x. isStr x \<and> strOf x \<noteq> [] \<and> length (strOf x) \<le> 64) xs
              then Inl (BadRequest ''Each id'')
              else Inr (u, d, map strOf xs)
          | _ \<Rightarrow> Inl (BadRequest ''ids must be a non-empty array'')))
       (\<lambda>(u, d, is). let gone = (\<lambda>k. oId k \<in> set is \<and> oUser k = u \<and> oDevice k = d)
          in (Inr (countIn gone (oneTimeKeyPackages st)),
              st\<lparr>oneTimeKeyPackages := delete_where gone (oneTimeKeyPackages st)\<rparr>)) st"

definition revokedIndex :: "revoked_row \<Rightarrow> string \<times> string" where
  "revokedIndex r = (rUser r, rDevice r)"

definition deleteDevice ::
  "int \<Rightarrow> json option \<Rightarrow> json option \<Rightarrow> json option \<Rightarrow> string option \<Rightarrow> delivery
     \<Rightarrow> (http_error, nat \<times> nat \<times> nat \<times> nat) result \<times> delivery" where
  "deleteDevice now userId deviceId headerUserId headerGlobalAdmin st =
     attempt (ownDevice userId deviceId headerUserId headerGlobalAdmin)
       (\<lambda>(u, d). case purgeDeviceFootprint u d st of
          (purge, st1) \<Rightarrow> (Inr purge,
            st1\<lparr>revokedDevices := upsert_row revokedIndex \<lparr>rUser = u, rDevice = d, rRevokedAt = now\<rparr>
                  (\<lambda>r. r\<lparr>rRevokedAt := now\<rparr>) (revokedDevices st1)\<rparr>)) st"

section \<open>A one-time key is handed out once\<close>

text \<open>Requests for the key package of one device, one after the other.\<close>

fun serveKeys :: "nat \<Rightarrow> int \<Rightarrow> string \<Rightarrow> string \<Rightarrow> delivery \<Rightarrow> (http_error, string \<times> string) result list \<times> delivery" where
  "serveKeys 0 now u d st = ([], st)"
| "serveKeys (Suc n) now u d st =
     (case getDeviceKeyPackage now (Some (JStr u)) (Some (JStr d)) st of
        (r, st1) \<Rightarrow> (case serveKeys n now u d st1 of (rs, st2) \<Rightarrow> (r # rs, st2)))"

lemma poolOf_delete:
  "poolOf u d (st\<lparr>oneTimeKeyPackages := delete_where p (oneTimeKeyPackages st)\<rparr>) = filter (\<lambda>k. \<not> p k) (poolOf u d st)"
  by (simp add: poolOf_def delete_where_def filter_sort conj_commute)

lemma set_poolOf: "set (poolOf u d st) = {k \<in> set (oneTimeKeyPackages st). oUser k = u \<and> oDevice k = d}"
  by (auto simp: poolOf_def)

lemma distinct_poolOf: "distinct (map oId (oneTimeKeyPackages st)) \<Longrightarrow> distinct (map oId (poolOf u d st))"
proof -
  assume "distinct (map oId (oneTimeKeyPackages st))"
  then have "distinct (map oId (filter (\<lambda>k. oUser k = u \<and> oDevice k = d) (oneTimeKeyPackages st)))"
    by (rule distinct_map_filter)
  then show ?thesis unfolding poolOf_def by (auto simp: distinct_map)
qed

lemma popOneTime_pool:
  assumes "distinct (map oId (oneTimeKeyPackages st))" and "popOneTime u d st = (r, st')"
  shows "r = (case poolOf u d st of [] \<Rightarrow> None | k # _ \<Rightarrow> Some k)"
    and "poolOf u d st' = tl (poolOf u d st)"
    and "(v, c) \<noteq> (u, d) \<Longrightarrow> poolOf v c st' = poolOf v c st"
    and "distinct (map oId (oneTimeKeyPackages st'))"
    and "keyPackages st' = keyPackages st \<and> revokedDevices st' = revokedDevices st"
proof -
  note ids = distinct_poolOf [OF assms(1), of u d]
  show "r = (case poolOf u d st of [] \<Rightarrow> None | k # _ \<Rightarrow> Some k)"
    using assms(2) by (auto simp: popOneTime_def split: list.splits)
  show "poolOf u d st' = tl (poolOf u d st)"
  proof (cases "poolOf u d st")
    case Nil
    with assms(2) show ?thesis by (simp add: popOneTime_def)
  next
    case (Cons k ks)
    then have "oId k \<notin> oId ` set ks" using ids by simp
    then have "\<forall>x \<in> set ks. oId x \<noteq> oId k" by (metis image_eqI)
    then have "filter (\<lambda>x. oId x \<noteq> oId k) ks = ks" by (simp add: filter_id_conv)
    with Cons assms(2) show ?thesis by (auto simp: popOneTime_def poolOf_delete)
  qed
  show "distinct (map oId (oneTimeKeyPackages st'))"
    using assms by (auto simp: popOneTime_def delete_where_def distinct_map_filter split: list.splits)
  show "keyPackages st' = keyPackages st \<and> revokedDevices st' = revokedDevices st"
    using assms(2) by (auto simp: popOneTime_def split: list.splits)
  show "poolOf v c st' = poolOf v c st" if "(v, c) \<noteq> (u, d)"
  proof (cases "poolOf u d st")
    case Nil
    with assms(2) show ?thesis by (simp add: popOneTime_def)
  next
    case (Cons k ks)
    have k: "k \<in> set (oneTimeKeyPackages st)" "oUser k = u" "oDevice k = d"
      using set_poolOf [of u d st] Cons by auto
    have "oId x \<noteq> oId k" if x: "x \<in> set (poolOf v c st)" for x
    proof
      assume "oId x = oId k"
      moreover have "x \<in> set (oneTimeKeyPackages st)" "oUser x = v" "oDevice x = c" using x set_poolOf by auto
      ultimately have "x = k" using assms(1) k(1) by (meson distinct_map inj_onD)
      with k \<open>oUser x = v\<close> \<open>oDevice x = c\<close> \<open>(v, c) \<noteq> (u, d)\<close> show False by simp
    qed
    then have "filter (\<lambda>x. oId x \<noteq> oId k) (poolOf v c st) = poolOf v c st" by (simp add: filter_id_conv)
    with Cons assms(2) show ?thesis by (auto simp: popOneTime_def poolOf_delete)
  qed
qed

lemma serveKeys_spec:
  assumes "safeId u" and "safeId d" and "kPayload k \<noteq> []"
  shows "distinct (map oId (oneTimeKeyPackages st)) \<Longrightarrow> \<not> isRevoked now u d st \<Longrightarrow> findKeyPackage u d st = Some k \<Longrightarrow>
     \<forall>x \<in> set (poolOf u d st). oPayload x \<noteq> [] \<Longrightarrow> serveKeys n now u d st = (rs, st') \<Longrightarrow>
     rs = map (\<lambda>p. Inr (d, p)) (take n (map oPayload (poolOf u d st)) @ replicate (n - length (poolOf u d st)) (kPayload k))
     \<and> poolOf u d st' = drop n (poolOf u d st) \<and> (\<forall>v c. (v, c) \<noteq> (u, d) \<longrightarrow> poolOf v c st' = poolOf v c st)"
proof (induction n arbitrary: st rs)
  case 0
  then show ?case by simp
next
  case (Suc n)
  obtain otk st1 where pop: "popOneTime u d st = (otk, st1)" by fastforce
  note pool = popOneTime_pool [OF Suc.prems(1) pop]
  define p where "p = (case otk of None \<Rightarrow> kPayload k | Some x \<Rightarrow> oPayload x)"
  have p: "p \<noteq> []" using pool(1) assms(3) Suc.prems(4) by (auto simp: p_def split: list.splits)
  have "resolveKeyPackagePayloadForDevice now u d st = (Some p, st1)"
    using Suc.prems(2,3) pop by (simp add: resolveKeyPackagePayloadForDevice_def p_def split: option.splits)
  then have get: "getDeviceKeyPackage now (Some (JStr u)) (Some (JStr d)) st = (Inr (d, p), st1)"
    using assms(1,2) p by (simp add: getDeviceKeyPackage_def attempt_def safeId_def result_simps truthy_def orEmpty_def)
  obtain rs1 where rs: "rs = Inr (d, p) # rs1" and rec: "serveKeys n now u d st1 = (rs1, st')"
    using Suc.prems(5) by (auto simp: get split: prod.splits)
  have free: "\<not> isRevoked now u d st1" and kp: "findKeyPackage u d st1 = Some k"
    using Suc.prems(2,3) pool(5) by (simp_all add: isRevoked_def findKeyPackage_def)
  have payloads: "\<forall>x \<in> set (poolOf u d st1). oPayload x \<noteq> []"
    using Suc.prems(4) unfolding pool(2) by (cases "poolOf u d st") simp_all
  note IH = Suc.IH [OF pool(4) free kp payloads rec]
  note rs1 = IH [THEN conjunct1] and rest = IH [THEN conjunct2]
  have head: "p = (case poolOf u d st of [] \<Rightarrow> kPayload k | x # _ \<Rightarrow> oPayload x)"
    unfolding p_def pool(1) by (simp split: list.splits)
  have "rs = map (\<lambda>p. Inr (d, p)) (take (Suc n) (map oPayload (poolOf u d st))
      @ replicate (Suc n - length (poolOf u d st)) (kPayload k))"
    unfolding rs rs1 pool(2) head by (cases "poolOf u d st") simp_all
  moreover have "poolOf u d st' = drop (Suc n) (poolOf u d st)"
    using rest unfolding pool(2) drop_Suc by (rule conjunct1)
  moreover have "poolOf v c st' = poolOf v c st" if "(v, c) \<noteq> (u, d)" for v c
    using rest that pool(3) [OF that] by simp
  ultimately show ?case by (intro conjI allI impI)
qed

text \<open>
  C31: A one-time key package is handed out once. Requests for the key package of a device that follow
  one another are answered with the keys of its pool, oldest first, each of them once, and then with
  its static package for ever; the pool keeps what was not handed out, and the pools of the other
  devices are untouched.
\<close>

theorem one_time_keys_once:
  assumes "safeId u" and "safeId d" and "findKeyPackage u d st = Some k" and "\<not> isRevoked now u d st"
    and "kPayload k \<noteq> []" and "\<forall>x \<in> set (poolOf u d st). oPayload x \<noteq> []"
    and "distinct (map oId (oneTimeKeyPackages st))" and "serveKeys n now u d st = (rs, st')"
  shows "rs = map (\<lambda>p. Inr (d, p)) (take n (map oPayload (poolOf u d st)) @ replicate (n - length (poolOf u d st)) (kPayload k))
     \<and> poolOf u d st' = drop n (poolOf u d st) \<and> (\<forall>v c. (v, c) \<noteq> (u, d) \<longrightarrow> poolOf v c st' = poolOf v c st)"
  by (rule serveKeys_spec [OF assms(1,2,5,7,4,3,6,8)])

section \<open>The bound on the devices of a user\<close>

definition kpIndex :: "kp_row \<Rightarrow> string \<times> string" where
  "kpIndex k = (kUser k, kDevice k)"

lemma registerRequest_Inr:
  assumes "registerRequest now body h a st = Inr (u, d, p, n, s, v)"
  shows "deviceCount now u st < MAX_DEVICES_PER_USER" and "\<not> isRevoked now u d st"
    and "sanitizeIdentityValue (rbUser body) = Inr u" and "sanitizeIdentityValue (rbDevice body) = Inr d"
  using assms by (auto simp: registerRequest_def result_simps split: if_splits)

lemma countIn_update_le: "countIn p (update_where q f rs) \<le> countIn p rs + countIn q rs"
  by (induction rs) (auto simp: countIn_def update_where_def)

lemma countIn_kpIndex:
  assumes "distinct (map kpIndex ks)"
  shows "countIn (\<lambda>k. kUser k = u \<and> kDevice k = d) ks \<le> 1"
proof -
  define mine where "mine = filter (\<lambda>k. kUser k = u \<and> kDevice k = d) ks"
  have "distinct (map kpIndex mine)" unfolding mine_def using assms by (rule distinct_map_filter)
  then have "card (set (map kpIndex mine)) = length mine" using distinct_card by fastforce
  moreover have "card (set (map kpIndex mine)) \<le> card {(u, d)}"
    by (rule card_mono) (auto simp: mine_def kpIndex_def)
  ultimately show ?thesis by (simp add: countIn_def mine_def [symmetric])
qed

lemma deviceCount_put:
  assumes "distinct (map kpIndex (keyPackages st))"
  shows "deviceCount now u (putKeyPackage t u d p n s v st) \<le> deviceCount now u st + 1"
proof (cases "findKeyPackage u d st")
  case None
  then show ?thesis by (simp add: deviceCount_def putKeyPackage_def countIn_def)
next
  case (Some k)
  let ?old = "\<lambda>k. kUser k = u \<and> kDevice k = d"
  let ?new = "update_where ?old (\<lambda>k. k\<lparr>kPayload := p, kName := orKept n (kName k), kOs := orKept s (kOs k),
                   kVersion := orKept v (kVersion k), kCreatedAt := t\<rparr>) (keyPackages st)"
  have "deviceCount now u (putKeyPackage t u d p n s v st)
      = countIn (\<lambda>k. kUser k = u \<and> kCreatedAt k \<ge> now - RETENTION_WINDOW_MS) ?new"
    using Some by (simp add: deviceCount_def putKeyPackage_def)
  also have "\<dots> \<le> deviceCount now u st + countIn ?old (keyPackages st)"
    unfolding deviceCount_def by (rule countIn_update_le)
  finally show ?thesis using countIn_kpIndex [OF assms, of u d] by linarith
qed

text \<open>
  C32: A user has at most fifteen devices. A registration that is accepted leaves the user with at most
  fifteen devices seen within the retention window. A user at the bound is refused whatever device
  asks, one that is registered already and only renews its key package included, and nothing changes.
\<close>

theorem device_cap:
  assumes "distinct (map kpIndex (keyPackages st))" and "sanitizeIdentityValue (rbUser body) = Inr u"
  shows "(registerDevice now body h a st = (Inr (), st') \<longrightarrow> deviceCount now u st' \<le> MAX_DEVICES_PER_USER)
    \<and> (deviceCount now u st \<ge> MAX_DEVICES_PER_USER \<longrightarrow> (\<exists>err. registerDevice now body h a st = (Inl err, st)))"
proof (cases "registerRequest now body h a st")
  case (Inl err)
  then show ?thesis by (auto simp: registerDevice_def attempt_def)
next
  case (Inr x)
  obtain u' d p n s v where x: "x = (u', d, p, n, s, v)" by (metis prod_cases6)
  note req = registerRequest_Inr [OF Inr [unfolded x]]
  with assms(2) have u': "u' = u" by simp
  have "deviceCount now u (putKeyPackage now u d p n s v st) \<le> MAX_DEVICES_PER_USER"
    using deviceCount_put [OF assms(1), of now u now d p n s v] req(1) u' by simp
  moreover have "deviceCount now u (st1\<lparr>devices := ds\<rparr>) = deviceCount now u st1" for st1 ds
    by (simp add: deviceCount_def)
  ultimately show ?thesis
    using Inr x u' req(1) by (auto simp: registerDevice_def attempt_def Let_def)
qed

section \<open>A deleted device\<close>

lemma fold_srem_sel:
  "queue (fold (\<lambda>g s. srem g ks s) gs st) = queue st" "devices (fold (\<lambda>g s. srem g ks s) gs st) = devices st"
  "keyPackages (fold (\<lambda>g s. srem g ks s) gs st) = keyPackages st"
  "oneTimeKeyPackages (fold (\<lambda>g s. srem g ks s) gs st) = oneTimeKeyPackages st"
  "pushTokens (fold (\<lambda>g s. srem g ks s) gs st) = pushTokens st"
  "revokedDevices (fold (\<lambda>g s. srem g ks s) gs st) = revokedDevices st"
  "members (fold (\<lambda>g s. srem g ks s) gs st) = members st" "groups (fold (\<lambda>g s. srem g ks s) gs st) = groups st"
  "commitLog (fold (\<lambda>g s. srem g ks s) gs st) = commitLog st" "groupInfos (fold (\<lambda>g s. srem g ks s) gs st) = groupInfos st"
  by (induction gs arbitrary: st) (simp_all add: srem_def)

lemma fold_srem_routing:
  "set (routing (fold (\<lambda>g s. srem g ks s) gs st) h) = set (routing st h) - (if h \<in> set gs then set ks else {})"
proof (induction gs arbitrary: st)
  case (Cons g gs)
  show ?case unfolding fold_Cons comp_def Cons.IH by (auto simp: table_simps)
qed simp

lemma purge_sel:
  assumes "purgeDeviceFootprint u d st = (c, st')"
  shows "devices st' = delete_where (\<lambda>r. dUser r = u \<and> dDevice r = d) (devices st)"
    and "keyPackages st' = delete_where (\<lambda>k. kUser k = u \<and> kDevice k = d) (keyPackages st)"
    and "oneTimeKeyPackages st' = delete_where (\<lambda>k. oUser k = u \<and> oDevice k = d) (oneTimeKeyPackages st)"
    and "queue st' = delete_where (\<lambda>q. qRecipient q = u \<and> qDevice q = d) (queue st)"
    and "pushTokens st' = delete_where (\<lambda>r. pUser r = u \<and> pDevice r = d) (pushTokens st)"
    and "members st' = members st" and "groups st' = groups st" and "revokedDevices st' = revokedDevices st"
    and "commitLog st' = commitLog st" and "groupInfos st' = groupInfos st"
    and "set (routing st' h) = set (routing st h) -
      (if \<exists>r \<in> set (devices st). dUser r = u \<and> dDevice r = d \<and> dGroup r = h then {memberKey u d} else {})"
  using assms by (auto simp: purgeDeviceFootprint_def Let_def fold_srem_sel fold_srem_routing)

lemma revoked_after_upsert:
  assumes "t < now + DEVICE_REVOCATION_TTL_MS"
  shows "isRevoked t u d (st\<lparr>revokedDevices := upsert_row revokedIndex \<lparr>rUser = u, rDevice = d, rRevokedAt = now\<rparr>
      (\<lambda>r. r\<lparr>rRevokedAt := now\<rparr>) rs\<rparr>)" (is "isRevoked t u d (st\<lparr>revokedDevices := ?rows\<rparr>)")
proof -
  have active: "activeRevocation t r" if "rRevokedAt r = now" for r
    using assms that by (simp add: activeRevocation_def activeRevocationCutoff_def)
  have "\<exists>r \<in> set ?rows. rUser r = u \<and> rDevice r = d \<and> rRevokedAt r = now"
  proof (cases "\<exists>r \<in> set rs. rUser r = u \<and> rDevice r = d")
    case True
    then obtain r where r: "r \<in> set rs" "rUser r = u" "rDevice r = d" by blast
    then have "r\<lparr>rRevokedAt := now\<rparr> \<in> set ?rows"
      by (auto simp: upsert_row_def revokedIndex_def set_update_where image_iff intro!: bexI [of _ r])
    then show ?thesis by (rule bexI [rotated]) (use r in simp)
  next
    case False
    then have "?rows = rs @ [\<lparr>rUser = u, rDevice = d, rRevokedAt = now\<rparr>]"
      by (auto simp: upsert_row_def revokedIndex_def)
    then show ?thesis by simp
  qed
  with active show ?thesis by (auto simp: isRevoked_def list_ex_iff)
qed

lemma fold_srem:
  "fold (\<lambda>g s. srem g ks s) gs st =
     st\<lparr>routing := (\<lambda>h. if h \<in> set gs then filter (\<lambda>k. k \<notin> set ks) (routing st h) else routing st h)\<rparr>"
  by (induction gs arbitrary: st) (auto simp: srem_def fun_eq_iff intro!: delivery.equality)

lemma purge_exact:
  "snd (purgeDeviceFootprint u d st) = st\<lparr>
     devices := filter (\<lambda>r. (dUser r, dDevice r) \<noteq> (u, d)) (devices st),
     queue := filter (\<lambda>q. recipientOf q \<noteq> (u, d)) (queue st),
     keyPackages := filter (\<lambda>k. kpIndex k \<noteq> (u, d)) (keyPackages st),
     oneTimeKeyPackages := filter (\<lambda>k. (oUser k, oDevice k) \<noteq> (u, d)) (oneTimeKeyPackages st),
     pushTokens := filter (\<lambda>r. (pUser r, pDevice r) \<noteq> (u, d)) (pushTokens st),
     routing := (\<lambda>g. if \<exists>r \<in> set (devices st). dUser r = u \<and> dDevice r = d \<and> dGroup r = g
                     then filter (\<lambda>k. k \<noteq> memberKey u d) (routing st g) else routing st g)\<rparr>"
proof -
  have "g \<in> dGroup ` {x \<in> set (devices st). dUser x = u \<and> dDevice x = d} \<longleftrightarrow>
      (\<exists>r \<in> set (devices st). dUser r = u \<and> dDevice r = d \<and> dGroup r = g)" for g by blast
  then show ?thesis
    by (intro delivery.equality)
      (simp_all add: purgeDeviceFootprint_def Let_def fold_srem delete_where_def recipientOf_def kpIndex_def fun_eq_iff, blast)
qed

lemma upsert_others:
  assumes "\<And>r. key (f r) = key r"
  shows "filter (\<lambda>r. key r \<noteq> key new) (upsert_row key new f rs) = filter (\<lambda>r. key r \<noteq> key new) rs"
proof -
  have "filter (\<lambda>r. key r \<noteq> key new) (update_where (\<lambda>x. key x = key new) f rs) = filter (\<lambda>r. key r \<noteq> key new) rs"
    using assms by (induction rs) (auto simp: update_where_def)
  then show ?thesis by (simp add: upsert_row_def)
qed

text \<open>
  C33: A deleted device is out. Deleting a device removes its seats, its key packages, its push tokens
  and what was queued for it, takes its key off the routing set of every group it was seated in, and
  records its ban. Row for row nothing else changes: the rows of every other device, its bans
  included, the other keys of the routing sets and all other tables are as they were. For the ten
  years of the ban no registration under the same identifiers is accepted and nobody is handed a key
  package for it.
\<close>

theorem deleted_device_is_out:
  assumes "deleteDevice now userId deviceId h a st = (Inr c, st')" and "ownDevice userId deviceId h a = Inr (u, d)"
  shows "findKeyPackage u d st' = None \<and> poolOf u d st' = []
    \<and> (\<exists>bans. filter (\<lambda>r. revokedIndex r \<noteq> (u, d)) bans = filter (\<lambda>r. revokedIndex r \<noteq> (u, d)) (revokedDevices st)
        \<and> st' = st\<lparr>
            devices := filter (\<lambda>r. (dUser r, dDevice r) \<noteq> (u, d)) (devices st),
            queue := filter (\<lambda>q. recipientOf q \<noteq> (u, d)) (queue st),
            keyPackages := filter (\<lambda>k. kpIndex k \<noteq> (u, d)) (keyPackages st),
            oneTimeKeyPackages := filter (\<lambda>k. (oUser k, oDevice k) \<noteq> (u, d)) (oneTimeKeyPackages st),
            pushTokens := filter (\<lambda>r. (pUser r, pDevice r) \<noteq> (u, d)) (pushTokens st),
            routing := (\<lambda>g. if \<exists>r \<in> set (devices st). dUser r = u \<and> dDevice r = d \<and> dGroup r = g
                            then filter (\<lambda>k. k \<noteq> memberKey u d) (routing st g) else routing st g),
            revokedDevices := bans\<rparr>)
    \<and> (\<forall>t body h' a'. t < now + DEVICE_REVOCATION_TTL_MS \<and> sanitizeIdentityValue (rbUser body) = Inr u
         \<and> sanitizeIdentityValue (rbDevice body) = Inr d \<longrightarrow> (\<exists>err. registerDevice t body h' a' st' = (Inl err, st'))
             \<and> fst (resolveKeyPackagePayloadForDevice t u d st') = None)"
proof -
  obtain c' st1 where purge: "purgeDeviceFootprint u d st = (c', st1)" by fastforce
  let ?bans = "upsert_row revokedIndex \<lparr>rUser = u, rDevice = d, rRevokedAt = now\<rparr> (\<lambda>r. r\<lparr>rRevokedAt := now\<rparr>) (revokedDevices st1)"
  have st': "st' = st1\<lparr>revokedDevices := ?bans\<rparr>"
    using assms purge by (simp add: deleteDevice_def attempt_def)
  note sel = purge_sel [OF purge]
  have ban: "isRevoked t u d st'" if "t < now + DEVICE_REVOCATION_TTL_MS" for t
    unfolding st' by (rule revoked_after_upsert [OF that])
  have refused: "\<exists>err. registerDevice t body h' a' st' = (Inl err, st')"
    if "t < now + DEVICE_REVOCATION_TTL_MS" "sanitizeIdentityValue (rbUser body) = Inr u" "sanitizeIdentityValue (rbDevice body) = Inr d"
    for t body h' a'
  proof (cases "registerRequest t body h' a' st'")
    case (Inl err)
    then show ?thesis by (simp add: registerDevice_def attempt_def)
  next
    case (Inr x)
    obtain u' d' p n s v where "x = (u', d', p, n, s, v)" by (metis prod_cases6)
    with registerRequest_Inr [of t body h' a' st' u' d' p n s v] Inr that ban show ?thesis by simp
  qed
  have kp: "findKeyPackage u d st' = None" by (auto simp: st' findKeyPackage_def sel(2) find_None_iff table_simps)
  have "set (poolOf u d st') = {}" unfolding set_poolOf by (auto simp: st' sel(3) table_simps)
  then have pool: "poolOf u d st' = []" by simp
  have "revokedIndex \<lparr>rUser = u, rDevice = d, rRevokedAt = now\<rparr> = (u, d)" by (simp add: revokedIndex_def)
  with upsert_others [of revokedIndex "\<lambda>r. r\<lparr>rRevokedAt := now\<rparr>" "\<lparr>rUser = u, rDevice = d, rRevokedAt = now\<rparr>" "revokedDevices st1"]
  have bans: "filter (\<lambda>r. revokedIndex r \<noteq> (u, d)) ?bans = filter (\<lambda>r. revokedIndex r \<noteq> (u, d)) (revokedDevices st)"
    by (simp add: sel(8) revokedIndex_def)
  note st1 = purge_exact [of u d st, unfolded purge snd_conv]
  have none: "fst (resolveKeyPackagePayloadForDevice t u d st') = None" if "t < now + DEVICE_REVOCATION_TTL_MS" for t
    using ban [OF that] by (simp add: resolveKeyPackagePayloadForDevice_def)
  show ?thesis
    by (intro conjI kp pool exI [of _ ?bans] bans allI impI; (elim conjE, rule refused none; assumption)?)
      (unfold st', subst (1) st1, simp)
qed

section \<open>Witnesses\<close>

definition demo_otk :: "string \<Rightarrow> string \<Rightarrow> int \<Rightarrow> otk_row" where
  "demo_otk i p t = \<lparr>oId = i, oUser = ''cat'', oDevice = ''d3'', oPayload = p, oCreatedAt = t\<rparr>"

definition demo_pool :: delivery where
  "demo_pool = demo_store\<lparr>oneTimeKeyPackages := [demo_otk ''b'' ''second'' 7, demo_otk ''a'' ''first'' 3]\<rparr>"

definition demo_full :: delivery where
  "demo_full = demo_store\<lparr>keyPackages := map (\<lambda>i. demo_kp ''cat'' (replicate (Suc i) CHR ''d'')) [0..<15]\<rparr>"

definition demo_register :: register_body where
  "demo_register = \<lparr>rbUser = Some (JStr ''cat''), rbDevice = Some (JStr ''d''), rbKeyPackage = Some (JStr ''kp''),
     rbName = None, rbOs = None, rbVersion = None\<rparr>"

lemma demo_poolOf: "poolOf ''cat'' ''d3'' demo_pool = [demo_otk ''a'' ''first'' 3, demo_otk ''b'' ''second'' 7]"
  by (simp add: poolOf_def demo_pool_def demo_otk_def)

theorem one_time_keys_once_witness:
  "fst (serveKeys 3 5 ''cat'' ''d3'' demo_pool) = [Inr (''d3'', ''first''), Inr (''d3'', ''second''), Inr (''d3'', ''kp'')]"
proof -
  have kp: "findKeyPackage ''cat'' ''d3'' demo_pool = Some (demo_kp ''cat'' ''d3'')"
    by (simp add: findKeyPackage_def demo_pool_def demo_defs)
  have free: "\<not> isRevoked 5 ''cat'' ''d3'' demo_pool" by (simp add: isRevoked_def demo_pool_def demo_defs)
  have payload: "kPayload (demo_kp ''cat'' ''d3'') \<noteq> []" by (simp add: demo_kp_def)
  have payloads: "\<forall>x \<in> set (poolOf ''cat'' ''d3'' demo_pool). oPayload x \<noteq> []"
    by (simp add: demo_poolOf) (simp add: demo_otk_def)
  have ids: "distinct (map oId (oneTimeKeyPackages demo_pool))" by (simp add: demo_pool_def demo_otk_def)
  obtain rs st' where run: "serveKeys 3 5 ''cat'' ''d3'' demo_pool = (rs, st')" by fastforce
  from one_time_keys_once [OF safe_demo(2,3) kp free payload payloads ids run]
  have "rs = map (\<lambda>p. Inr (''d3'', p)) (take 3 (map oPayload (poolOf ''cat'' ''d3'' demo_pool))
      @ replicate (3 - length (poolOf ''cat'' ''d3'' demo_pool)) (kPayload (demo_kp ''cat'' ''d3'')))" by blast
  then show ?thesis by (simp add: run demo_poolOf) (simp add: demo_otk_def demo_kp_def)
qed

lemma demo_full_index: "distinct (map kpIndex (keyPackages demo_full))"
  by (simp add: demo_full_def kpIndex_def demo_kp_def distinct_map inj_on_def comp_def)

theorem device_cap_witness:
  "findKeyPackage ''cat'' ''d'' demo_full \<noteq> None
   \<and> (\<exists>err. registerDevice 5 demo_register (Some (JStr ''cat'')) None demo_full = (Inl err, demo_full))"
proof -
  have user: "sanitizeIdentityValue (rbUser demo_register) = Inr ''cat''"
    by (simp add: demo_register_def sanitizeIdentityValue_def sanitizeQueryValue_def UNRESOLVED_IDENTITY_VALUES_def
        SAFE_QUERY_VALUE_REGEX_def safe_char_def alnum_def trim_def js_ws_def result_simps)
  have "filter (\<lambda>k. kUser k = ''cat'' \<and> kCreatedAt k \<ge> 5 - RETENTION_WINDOW_MS) (keyPackages demo_full) = keyPackages demo_full"
    unfolding filter_id_conv by (simp add: demo_full_def demo_kp_def RETENTION_WINDOW_MS_def)
  then have "deviceCount 5 ''cat'' demo_full = length (keyPackages demo_full)"
    unfolding deviceCount_def countIn_def by (rule arg_cong)
  also have "\<dots> = MAX_DEVICES_PER_USER" by (simp add: demo_full_def MAX_DEVICES_PER_USER_def)
  finally have "deviceCount 5 ''cat'' demo_full \<ge> MAX_DEVICES_PER_USER" by simp
  moreover have "findKeyPackage ''cat'' ''d'' demo_full \<noteq> None"
  proof -
    have "demo_kp ''cat'' ''d'' \<in> set (keyPackages demo_full)" by (simp add: demo_full_def image_iff) (rule bexI [of _ 0]; simp)
    moreover have "kUser (demo_kp ''cat'' ''d'') = ''cat'' \<and> kDevice (demo_kp ''cat'' ''d'') = ''d''" by (simp add: demo_kp_def)
    ultimately show ?thesis unfolding findKeyPackage_def find_None_iff by blast
  qed
  ultimately show ?thesis using device_cap [OF demo_full_index user] by blast
qed

theorem deleted_device_is_out_witness:
  "\<exists>c st'. deleteDevice 5 (Some (JStr ''cat'')) (Some (JStr ''d3'')) (Some (JStr ''cat'')) None demo_pool = (Inr c, st')
     \<and> poolOf ''cat'' ''d3'' demo_pool \<noteq> [] \<and> poolOf ''cat'' ''d3'' st' = []"
proof -
  have own: "ownDevice (Some (JStr ''cat'')) (Some (JStr ''d3'')) (Some (JStr ''cat'')) None = Inr (''cat'', ''d3'')"
    using safe_demo(2,3) by (simp add: ownDevice_def safeId_def assertCallerOwnsUserId_def sanitizeOptionalQueryValue_def result_simps)
  moreover obtain c st1 where "purgeDeviceFootprint ''cat'' ''d3'' demo_pool = (c, st1)" by fastforce
  ultimately obtain st' where run: "deleteDevice 5 (Some (JStr ''cat'')) (Some (JStr ''d3'')) (Some (JStr ''cat'')) None demo_pool = (Inr c, st')"
    by (simp add: deleteDevice_def attempt_def)
  from deleted_device_is_out [OF run own] have "poolOf ''cat'' ''d3'' st' = []" by blast
  moreover have "poolOf ''cat'' ''d3'' demo_pool \<noteq> []" by (simp add: demo_poolOf)
  ultimately show ?thesis using run by blast
qed

end
