(* ===== verification/Pin_Verifier.thy ===== *)
theory Pin_Verifier
  imports Device_Registry
begin

text \<open>
  The verifier of the PIN of an account (\<open>controllers/security.controller.ts\<close>: checkPinVerifier,
  getPinSalt, getPinStatus, changePin, resetPin). The server stores a digest of the PIN, never the PIN;
  the digest is 64 lower-case hexadecimal digits and is compared as the bytes it denotes. The salt drawn
  by the server is an argument. The link previews of the same controller are not modelled.
\<close>

section \<open>Hexadecimal digests\<close>

definition hexVal :: "char \<Rightarrow> nat option" where
  "hexVal c =
     (if 48 \<le> code c \<and> code c \<le> 57 then Some (code c - 48)
      else if 97 \<le> code c \<and> code c \<le> 102 then Some (code c - 87)
      else if 65 \<le> code c \<and> code c \<le> 70 then Some (code c - 55)
      else None)"

text \<open>\<open>Buffer.from(s, 'hex')\<close>: the bytes up to the first pair that is not hexadecimal.\<close>

fun hexBytes :: "string \<Rightarrow> nat list" where
  "hexBytes (a # b # s) =
     (case (hexVal a, hexVal b) of (Some x, Some y) \<Rightarrow> (16 * x + y) # hexBytes s | _ \<Rightarrow> [])"
| "hexBytes s = []"

definition lowerHex :: "char \<Rightarrow> bool" where
  "lowerHex c \<longleftrightarrow> 48 \<le> code c \<and> code c \<le> 57 \<or> 97 \<le> code c \<and> code c \<le> 102"

definition verifierShape :: "string \<Rightarrow> bool" where
  "verifierShape s \<longleftrightarrow> length s = 64 \<and> list_all lowerHex s"

section \<open>The routes\<close>

definition assertSelfOrGlobalAdmin :: "string \<Rightarrow> json option \<Rightarrow> string option \<Rightarrow> (http_error, unit) result" where
  "assertSelfOrGlobalAdmin target headerUserId headerGlobalAdmin =
     (if headerGlobalAdmin = Some ''true'' then Inr ()
      else bind_r (sanitizeOptionalQueryValue headerUserId) (\<lambda>caller.
        case caller of
          None \<Rightarrow> Inl (Forbidden ''restricted'')
        | Some c \<Rightarrow> if toLowerCase (trim c) \<noteq> toLowerCase (trim target) then Inl (Forbidden ''restricted'') else Inr ()))"

definition findPin :: "string \<Rightarrow> delivery \<Rightarrow> pin_row option" where
  "findPin u st = find (\<lambda>p. nUser p = u) (pinVerifiers st)"

definition setVerifier :: "string \<Rightarrow> string \<Rightarrow> delivery \<Rightarrow> delivery" where
  "setVerifier u v st =
     st\<lparr>pinVerifiers := update_where (\<lambda>p. nUser p = u) (\<lambda>p. p\<lparr>nVerifier := v\<rparr>) (pinVerifiers st)\<rparr>"

text \<open>\<open>PinChecked match reset\<close> answers \<open>ok\<close> or \<open>mismatch\<close>, with the flag that asks the device to reset.\<close>

datatype pin_answer = PinRegistered | PinChecked bool bool

definition checkPinVerifier ::
  "int \<Rightarrow> json option \<Rightarrow> json option \<Rightarrow> json option \<Rightarrow> json option \<Rightarrow> string option \<Rightarrow> delivery
     \<Rightarrow> (http_error, pin_answer) result \<times> delivery" where
  "checkPinVerifier now userId verifier deviceId headerUserId headerGlobalAdmin st =
     attempt
       (bind_r (sanitizeQueryValue userId) (\<lambda>u.
        bind_r (assertSelfOrGlobalAdmin u headerUserId headerGlobalAdmin) (\<lambda>_.
        bind_r (sanitizeQueryValue verifier) (\<lambda>v.
        bind_r (sanitizeOptionalQueryValue deviceId) (\<lambda>d.
          if \<not> verifierShape v then Inl (BadRequest ''verifier format invalid'') else Inr (u, v, d))))))
       (\<lambda>(u, v, d).
          case findPin u st of
            None \<Rightarrow> (Inr PinRegistered,
              st\<lparr>pinVerifiers := pinVerifiers st @ [\<lparr>nUser = u, nVerifier = v, nSalt = None\<rparr>]\<rparr>)
          | Some doc \<Rightarrow>
              if nVerifier doc = [] then (Inr PinRegistered, setVerifier u v st)
              else if hexBytes (nVerifier doc) \<noteq> hexBytes v then (Inr (PinChecked False False), st)
              else (case d of
                      None \<Rightarrow> (Inr (PinChecked True False), st)
                    | Some dev \<Rightarrow>
                        if isRevoked now u dev st
                        then (Inr (PinChecked True True),
                              st\<lparr>revokedDevices := delete_where (\<lambda>r. revokedIndex r = (u, dev)) (revokedDevices st)\<rparr>)
                        else (Inr (PinChecked True False), st))) st"

definition selfUser ::
  "json option \<Rightarrow> json option \<Rightarrow> string option \<Rightarrow> (http_error, string) result" where
  "selfUser userId headerUserId headerGlobalAdmin =
     bind_r (sanitizeQueryValue userId) (\<lambda>u.
     bind_r (assertSelfOrGlobalAdmin u headerUserId headerGlobalAdmin) (\<lambda>_. Inr u))"

definition getPinSalt ::
  "string \<Rightarrow> json option \<Rightarrow> json option \<Rightarrow> string option \<Rightarrow> delivery \<Rightarrow> (http_error, string) result \<times> delivery" where
  "getPinSalt newSalt userId headerUserId headerGlobalAdmin st =
     attempt (selfUser userId headerUserId headerGlobalAdmin)
       (\<lambda>u. let fresh = (\<lambda>rows. st\<lparr>pinVerifiers := rows @ [\<lparr>nUser = u, nVerifier = [], nSalt = Some newSalt\<rparr>]\<rparr>)
          in case findPin u st of
               None \<Rightarrow> (Inr newSalt, fresh (pinVerifiers st))
             | Some doc \<Rightarrow>
                 if truthy (nSalt doc) then (Inr (orEmpty (nSalt doc)), st)
                 else (Inr newSalt, fresh (delete_where (\<lambda>p. nUser p = u) (pinVerifiers st)))) st"

definition getPinStatus ::
  "json option \<Rightarrow> json option \<Rightarrow> string option \<Rightarrow> delivery \<Rightarrow> (http_error, bool) result" where
  "getPinStatus userId headerUserId headerGlobalAdmin st =
     bind_r (selfUser userId headerUserId headerGlobalAdmin) (\<lambda>u. Inr (findPin u st \<noteq> None))"

definition changePin ::
  "json option \<Rightarrow> json option \<Rightarrow> json option \<Rightarrow> json option \<Rightarrow> string option \<Rightarrow> delivery
     \<Rightarrow> (http_error, unit) result \<times> delivery" where
  "changePin userId oldVerifier newVerifier headerUserId headerGlobalAdmin st =
     attempt
       (bind_r (selfUser userId headerUserId headerGlobalAdmin) (\<lambda>u.
        bind_r (sanitizeQueryValue oldVerifier) (\<lambda>old.
        bind_r (sanitizeQueryValue newVerifier) (\<lambda>new.
          if \<not> verifierShape old \<or> \<not> verifierShape new then Inl (BadRequest ''verifier format invalid'')
          else (case findPin u st of
                  None \<Rightarrow> Inl (BadRequest ''no PIN registered'')
                | Some doc \<Rightarrow>
                    if hexBytes (nVerifier doc) \<noteq> hexBytes old then Inl (Forbidden ''current PIN is incorrect'')
                    else Inr (u, new))))))
       (\<lambda>(u, new). (Inr (), setVerifier u new st)) st"

definition resetPin ::
  "json option \<Rightarrow> json option \<Rightarrow> string option \<Rightarrow> delivery \<Rightarrow> (http_error, nat) result \<times> delivery" where
  "resetPin userId headerUserId headerGlobalAdmin st =
     attempt (selfUser userId headerUserId headerGlobalAdmin)
       (\<lambda>u. let ds = uniq (map kDevice (filter (\<lambda>k. kUser k = u) (keyPackages st)));
               st1 = fold (\<lambda>d s. snd (purgeDeviceFootprint u d s)) ds st
          in (Inr (length ds),
              st1\<lparr>pinVerifiers := delete_where (\<lambda>p. nUser p = u) (pinVerifiers st1),
                  revokedDevices := delete_where (\<lambda>r. rUser r = u) (revokedDevices st1)\<rparr>)) st"

section \<open>Two digests with the same bytes are the same\<close>

lemma lowerHex_inject: "lowerHex a \<Longrightarrow> lowerHex b \<Longrightarrow> hexVal a = hexVal b \<Longrightarrow> a = b"
proof -
  assume "lowerHex a" "lowerHex b" "hexVal a = hexVal b"
  then have "code a = code b" by (simp add: lowerHex_def hexVal_def del: of_char_eq_iff split: if_splits) linarith+
  then show "a = b" by simp
qed

lemma hexVal_lower: "lowerHex c \<Longrightarrow> \<exists>x < 16. hexVal c = Some x"
  by (auto simp: lowerHex_def hexVal_def)

lemma hex_pair:
  assumes "16 * x + y = 16 * z + w" and "y < 16" and "w < (16 :: nat)"
  shows "x = z \<and> y = w"
proof -
  have "(16 * x + y) div 16 = x" "(16 * z + w) div 16 = z" using assms(2,3) by simp_all
  with assms(1) show ?thesis by simp
qed

lemma hexBytes_inject:
  "list_all lowerHex s \<Longrightarrow> list_all lowerHex t \<Longrightarrow> even (length s) \<Longrightarrow> length t = length s \<Longrightarrow>
     hexBytes s = hexBytes t \<Longrightarrow> s = t"
proof (induction s arbitrary: t rule: induct_list012)
  case (3 a b s)
  from "3.prems"(4) obtain c d t' where t: "t = c # d # t'" by (cases t; cases "tl t") auto
  obtain x where x: "hexVal a = Some x" using "3.prems"(1) hexVal_lower [of a] by auto
  obtain y where y: "y < 16" "hexVal b = Some y" using "3.prems"(1) hexVal_lower [of b] by auto
  obtain z where z: "hexVal c = Some z" using "3.prems"(2) t hexVal_lower [of c] by auto
  obtain w where w: "w < 16" "hexVal d = Some w" using "3.prems"(2) t hexVal_lower [of d] by auto
  from "3.prems"(5) have eq: "16 * x + y = 16 * z + w" and rest: "hexBytes s = hexBytes t'"
    by (simp_all add: t x y z w)
  from hex_pair [OF eq y(1) w(1)] have "hexVal a = hexVal c" "hexVal b = hexVal d" by (simp_all add: x y z w)
  then have "a = c" "b = d" using "3.prems"(1,2) t by (simp_all add: lowerHex_inject)
  moreover have "s = t'" using "3.prems"(1-4) rest by (intro "3.IH"(1)) (simp_all add: t)
  ultimately show ?case by (simp add: t)
qed simp_all

lemma verifier_bytes: "verifierShape s \<Longrightarrow> verifierShape t \<Longrightarrow> hexBytes s = hexBytes t \<longleftrightarrow> s = t"
  using hexBytes_inject [of s t] by (auto simp: verifierShape_def)

section \<open>The PIN guards itself\<close>

lemma findPin_set: "findPin u (setVerifier w v st) = map_option (\<lambda>p. if u = w then p\<lparr>nVerifier := v\<rparr> else p) (findPin u st)"
proof -
  have "find (\<lambda>p. nUser p = u) (update_where (\<lambda>p. nUser p = w) (\<lambda>p. p\<lparr>nVerifier := v\<rparr>) ps) =
      map_option (\<lambda>p. if u = w then p\<lparr>nVerifier := v\<rparr> else p) (find (\<lambda>p. nUser p = u) ps)" for ps
    by (induction ps) (auto simp: update_where_def)
  then show ?thesis by (simp add: findPin_def setVerifier_def)
qed

lemma selfUser_Inr:
  "selfUser userId h a = Inr u \<Longrightarrow> sanitizeQueryValue userId = Inr u \<and> assertSelfOrGlobalAdmin u h a = Inr ()"
  by (auto simp: selfUser_def result_simps)

lemma findPin_drop:
  "findPin u (st\<lparr>pinVerifiers := delete_where (\<lambda>p. nUser p = w) ps\<rparr>) = (if u = w then None else find (\<lambda>p. nUser p = u) ps)"
  unfolding findPin_def by (induction ps) (auto simp: delete_where_def)

lemma fold_purge_pins: "pinVerifiers (fold (\<lambda>d s. snd (purgeDeviceFootprint u d s)) ds st) = pinVerifiers st"
  by (induction ds arbitrary: st) (simp_all add: purge_exact)

text \<open>What the routes that write make of the row of an account, its own or another one's.\<close>

lemma check_row:
  assumes "findPin u st = Some doc" and "nVerifier doc \<noteq> []"
  shows "findPin u (snd (checkPinVerifier now userId verifier deviceId h a st)) = Some doc"
proof -
  have set: "findPin u (setVerifier x v st) = Some doc" if "findPin x st = Some d" "nVerifier d = []" for x v d
    using that assms by (auto simp: findPin_set)
  have new: "findPin u (st\<lparr>pinVerifiers := pinVerifiers st @ [r]\<rparr>) = Some doc" for r
    using assms(1) by (simp add: findPin_def find_append_new)
  have ban: "findPin u (st\<lparr>revokedDevices := rs\<rparr>) = Some doc" for rs using assms(1) by (simp add: findPin_def)
  show ?thesis
    unfolding checkPinVerifier_def attempt_def
    by (auto split: sum.splits option.splits if_splits simp: set new ban assms(1))
qed

lemma change_cases:
  obtains "\<exists>err. changePin userId verifier newVerifier h a st = (Inl err, st)"
  | x old w d where "selfUser userId h a = Inr x" "sanitizeQueryValue verifier = Inr old" "sanitizeQueryValue newVerifier = Inr w"
      "verifierShape old" "verifierShape w" "findPin x st = Some d" "hexBytes (nVerifier d) = hexBytes old"
      "changePin userId verifier newVerifier h a st = (Inr (), setVerifier x w st)"
proof (cases "fst (changePin userId verifier newVerifier h a st)")
  case (Inl err)
  then have "changePin userId verifier newVerifier h a st = (Inl err, st)"
    by (auto simp: changePin_def attempt_def split: sum.splits)
  then show ?thesis using that(1) by blast
next
  case (Inr x)
  then show ?thesis using that(2)
    by (auto simp: changePin_def attempt_def result_simps split: sum.splits option.splits if_splits)
qed

lemma salt_row:
  assumes "findPin u st = Some doc"
  shows "findPin u (snd (getPinSalt salt userId h a st)) =
    Some (if selfUser userId h a = Inr u \<and> \<not> truthy (nSalt doc) then \<lparr>nUser = u, nVerifier = [], nSalt = Some salt\<rparr> else doc)"
proof (cases "selfUser userId h a")
  case (Inl err)
  with assms show ?thesis by (simp add: getPinSalt_def attempt_def)
next
  case (Inr x)
  have new: "findPin u (st\<lparr>pinVerifiers := rows @ [\<lparr>nUser = x, nVerifier = [], nSalt = Some salt\<rparr>]\<rparr>) =
      (case findPin u (st\<lparr>pinVerifiers := rows\<rparr>) of
         None \<Rightarrow> if x = u then Some \<lparr>nUser = x, nVerifier = [], nSalt = Some salt\<rparr> else None | Some y \<Rightarrow> Some y)" for rows
    by (simp add: findPin_def find_append_new)
  have same: "findPin u (st\<lparr>pinVerifiers := pinVerifiers st\<rparr>) = Some doc" using assms by simp
  have other: "findPin u (st\<lparr>pinVerifiers := delete_where (\<lambda>p. nUser p = x) (pinVerifiers st)\<rparr>) = Some doc" if "x \<noteq> u"
    using that assms findPin_drop [of u x "pinVerifiers st" st] by (auto simp: findPin_def)
  show ?thesis
  proof (cases "x = u")
    case True
    with assms Inr show ?thesis by (simp add: getPinSalt_def attempt_def new [unfolded True] findPin_drop)
  next
    case False
    with Inr assms show ?thesis
      by (auto simp: getPinSalt_def attempt_def new same other split: option.splits)
  qed
qed

lemma reset_row:
  assumes "findPin u st = Some doc"
  shows "findPin u (snd (resetPin userId h a st)) = (if selfUser userId h a = Inr u then None else Some doc)"
proof (cases "selfUser userId h a")
  case (Inl err)
  with assms show ?thesis by (simp add: resetPin_def attempt_def)
next
  case (Inr x)
  then have "pinVerifiers (snd (resetPin userId h a st)) = delete_where (\<lambda>p. nUser p = x) (pinVerifiers st)"
    by (simp add: resetPin_def attempt_def Let_def fold_purge_pins)
  then have "findPin u (snd (resetPin userId h a st)) = (if u = x then None else findPin u st)"
    using findPin_drop [of u x "pinVerifiers st" st] by (simp add: findPin_def)
  with assms Inr show ?thesis by simp
qed


text \<open>
  Asking for a salt counts as having a PIN. An account that never registered a PIN asks for its
  salt, the first step of choosing one; from then on the route that says whether a PIN was ever
  registered says so, although the next check of any digest registers that digest.
\<close>

theorem salt_counts_as_registered:
  assumes "selfUser userId h a = Inr u" and "findPin u st = None"
  shows "\<exists>st'. getPinSalt salt userId h a st = (Inr salt, st')
    \<and> getPinStatus userId h a st = Inr False \<and> getPinStatus userId h a st' = Inr True
    \<and> (\<forall>now verifier v. sanitizeQueryValue verifier = Inr v \<and> verifierShape v \<longrightarrow>
         fst (checkPinVerifier now userId verifier None h a st') = Inr PinRegistered)"
proof -
  let ?st = "st\<lparr>pinVerifiers := pinVerifiers st @ [\<lparr>nUser = u, nVerifier = [], nSalt = Some salt\<rparr>]\<rparr>"
  note self = selfUser_Inr [OF assms(1)]
  have "find (\<lambda>p. nUser p = u) (ps @ [x]) = Some x" if "find (\<lambda>p. nUser p = u) ps = None" "nUser x = u" for ps and x :: pin_row
    using that by (induction ps) (auto split: if_splits)
  then have row: "findPin u ?st = Some \<lparr>nUser = u, nVerifier = [], nSalt = Some salt\<rparr>"
    using assms(2) by (simp add: findPin_def)
  show ?thesis
  proof (intro exI conjI allI impI)
    show "getPinSalt salt userId h a st = (Inr salt, ?st)"
      using assms by (simp add: getPinSalt_def attempt_def)
    show "getPinStatus userId h a st = Inr False" "getPinStatus userId h a ?st = Inr True"
      using assms row by (simp_all add: getPinStatus_def result_simps)
    fix now verifier v
    assume "sanitizeQueryValue verifier = Inr v \<and> verifierShape v"
    with self row show "fst (checkPinVerifier now userId verifier None h a ?st) = Inr PinRegistered"
      by (simp add: checkPinVerifier_def attempt_def result_simps sanitizeOptionalQueryValue_def)
  qed
qed

text \<open>
  The PIN lifts a ban. A check that presents the stored digest and names a banned device asks that
  device to reset and removes its ban, so that a registration under the same identifiers is no longer
  refused as revoked.
\<close>

theorem pin_lifts_ban:
  assumes "findPin u st = Some doc" and "verifierShape (nVerifier doc)" and "selfUser userId h a = Inr u"
    and "sanitizeQueryValue verifier = Inr (nVerifier doc)" and "sanitizeOptionalQueryValue deviceId = Inr (Some d)"
    and "isRevoked now u d st"
  shows "\<exists>st'. checkPinVerifier now userId verifier deviceId h a st = (Inr (PinChecked True True), st')
    \<and> (\<forall>t. \<not> isRevoked t u d st')
    \<and> (\<forall>v e t. (v, e) \<noteq> (u, d) \<longrightarrow> isRevoked t v e st' = isRevoked t v e st)"
proof -
  let ?st = "st\<lparr>revokedDevices := delete_where (\<lambda>r. revokedIndex r = (u, d)) (revokedDevices st)\<rparr>"
  note self = selfUser_Inr [OF assms(3)]
  have ne: "nVerifier doc \<noteq> []" using assms(2) by (auto simp: verifierShape_def)
  have "checkPinVerifier now userId verifier deviceId h a st = (Inr (PinChecked True True), ?st)"
    using self assms ne by (simp add: checkPinVerifier_def attempt_def result_simps)
  moreover have "\<not> isRevoked t u d ?st" for t
    by (auto simp: isRevoked_def list_ex_iff set_delete_where revokedIndex_def)
  moreover have "isRevoked t v e ?st = isRevoked t v e st" if "(v, e) \<noteq> (u, d)" for t v e
    using that by (auto simp: isRevoked_def list_ex_iff set_delete_where revokedIndex_def)
  ultimately show ?thesis by (intro exI conjI allI impI)
qed

section \<open>Witnesses\<close>

lemma lowerHex_safe: "lowerHex c \<Longrightarrow> safe_char c"
  by (auto simp: lowerHex_def safe_char_def alnum_def)

lemma verifier_passes: "verifierShape s \<Longrightarrow> sanitizeQueryValue (Some (JStr s)) = Inr s"
proof -
  assume s: "verifierShape s"
  then have safe: "list_all safe_char s" by (auto simp: verifierShape_def list_all_iff intro: lowerHex_safe)
  then have "trim s = s" by (intro trim_id) (auto simp: list_all_iff dest: safe_char_not_ws)
  moreover have "s \<noteq> []" using s by (auto simp: verifierShape_def)
  ultimately show ?thesis using s safe by (simp add: sanitizeQueryValue_def SAFE_QUERY_VALUE_REGEX_def verifierShape_def)
qed

definition demo_digest :: "char \<Rightarrow> string" where
  "demo_digest c = replicate 64 c"

definition demo_pin :: delivery where
  "demo_pin = demo_store\<lparr>pinVerifiers := [\<lparr>nUser = ''cat'', nVerifier = demo_digest CHR ''a'', nSalt = Some ''s''\<rparr>],
     revokedDevices := [\<lparr>rUser = ''cat'', rDevice = ''d3'', rRevokedAt = 0\<rparr>]\<rparr>"

lemma demo_shape: "verifierShape (demo_digest CHR ''a'')" "verifierShape (demo_digest CHR ''b'')"
  by (simp_all add: verifierShape_def demo_digest_def lowerHex_def list_all_iff)

lemma demo_self: "selfUser (Some (JStr ''cat'')) (Some (JStr ''cat'')) None = Inr ''cat''"
  using safe_demo(2) by (simp add: selfUser_def safeId_def assertSelfOrGlobalAdmin_def sanitizeOptionalQueryValue_def result_simps)

lemma demo_findPin: "findPin ''cat'' demo_pin = Some \<lparr>nUser = ''cat'', nVerifier = demo_digest CHR ''a'', nSalt = Some ''s''\<rparr>"
  by (simp add: findPin_def demo_pin_def)


theorem salt_counts_as_registered_witness:
  "\<exists>st'. getPinSalt ''s'' (Some (JStr ''cat'')) (Some (JStr ''cat'')) None demo_store = (Inr ''s'', st')
     \<and> getPinStatus (Some (JStr ''cat'')) (Some (JStr ''cat'')) None st' = Inr True"
proof -
  have "findPin ''cat'' demo_store = None" by (simp add: findPin_def demo_defs)
  from salt_counts_as_registered [OF demo_self this, of "''s''"] show ?thesis by blast
qed

theorem pin_lifts_ban_witness:
  "\<exists>st'. checkPinVerifier 5 (Some (JStr ''cat'')) (Some (JStr (demo_digest CHR ''a''))) (Some (JStr ''d3'')) (Some (JStr ''cat'')) None demo_pin
       = (Inr (PinChecked True True), st') \<and> isRevoked 5 ''cat'' ''d3'' demo_pin \<and> \<not> isRevoked 5 ''cat'' ''d3'' st'"
proof -
  have ban: "isRevoked 5 ''cat'' ''d3'' demo_pin"
    by (simp add: isRevoked_def demo_pin_def activeRevocation_def activeRevocationCutoff_def DEVICE_REVOCATION_TTL_MS_def)
  have shape: "verifierShape (nVerifier \<lparr>nUser = ''cat'', nVerifier = demo_digest CHR ''a'', nSalt = Some ''s''\<rparr>)"
    using demo_shape(1) by simp
  have pass: "sanitizeQueryValue (Some (JStr (demo_digest CHR ''a''))) =
      Inr (nVerifier \<lparr>nUser = ''cat'', nVerifier = demo_digest CHR ''a'', nSalt = Some ''s''\<rparr>)"
    using verifier_passes [OF demo_shape(1)] by simp
  have "sanitizeOptionalQueryValue (Some (JStr ''d3'')) = Inr (Some ''d3'')"
    using safe_demo(3) by (simp add: sanitizeOptionalQueryValue_def safeId_def result_simps)
  from pin_lifts_ban [OF demo_findPin shape demo_self pass this ban] ban show ?thesis by blast
qed

end
