(* ===== verification/Group_Store.thy ===== *)
theory Group_Store
  imports Send_Message
begin

text \<open>
  Groups and the lock on additions (\<open>controllers/groups.controller.ts\<close>, \<open>controllers/locks.controller.ts\<close>).
  The identifier a new group gets is drawn by the server and is an argument here. The routes carry no
  identity of the caller beyond the guard in front of them, and the model takes none.
\<close>

section \<open>Groups\<close>

record create_body =
  nbName :: "string option"
  nbCreatedBy :: "string option"
  nbIsGroup :: "bool option"
  nbCreatorDevice :: "string option"

definition createGroup :: "env \<Rightarrow> string \<Rightarrow> create_body \<Rightarrow> delivery \<Rightarrow> delivery" where
  "createGroup e groupId body st =
     (let row = \<lparr>gId = groupId, gName = nbName body, gImageMediaId = None,
                 gIsGroup = (case nbIsGroup body of None \<Rightarrow> True | Some b \<Rightarrow> b),
                 gDistributionWorkspaceId = None, gDistributionChannelId = None, gActiveEpoch = 0,
                 gDeletedAt = None, gUpdatedAt = eNow e\<rparr>;
          st1 = st\<lparr>groups := groups st @ [row]\<rparr>
      in if truthy (nbCreatedBy body) \<and> truthy (nbCreatorDevice body)
         then let user = orEmpty (nbCreatedBy body); device = orEmpty (nbCreatorDevice body);
                  seat = \<lparr>dUser = user, dDevice = device, dGroup = groupId, dStatus = Active,
                          dKickedAt = None, dCreatedAt = eNow e\<rparr>
              in sadd groupId [memberKey user device] (st1\<lparr>devices := devices st1 @ [seat]\<rparr>)
         else st1)"

definition getGroup :: "string \<Rightarrow> delivery \<Rightarrow> group_row option" where
  "getGroup g st = findGroup g st"

definition renameGroup :: "env \<Rightarrow> json option \<Rightarrow> json option \<Rightarrow> delivery \<Rightarrow> (http_error, unit) result \<times> delivery" where
  "renameGroup e groupId name st =
     (case sanitizeQueryValue groupId of
        Inl err \<Rightarrow> (Inl err, st)
      | Inr g \<Rightarrow>
          (let n = trim (strOrEmpty name) in
           if n = [] then (Inl (BadRequest ''name is required''), st)
           else (Inr (), st\<lparr>groups := update_where (\<lambda>r. gId r = g)
                   (\<lambda>r. r\<lparr>gName := Some n, gUpdatedAt := eNow e\<rparr>) (groups st)\<rparr>)))"

definition media_char :: "char \<Rightarrow> bool" where
  "media_char c \<longleftrightarrow> alnum c \<or> c \<in> set ''_-''"

definition setGroupImage ::
  "env \<Rightarrow> json option \<Rightarrow> string option \<Rightarrow> delivery \<Rightarrow> (http_error, string option) result \<times> delivery" where
  "setGroupImage e groupId mediaId st =
     (case sanitizeQueryValue groupId of
        Inl err \<Rightarrow> (Inl err, st)
      | Inr g \<Rightarrow>
          if (case mediaId of None \<Rightarrow> False
              | Some m \<Rightarrow> \<not> (1 \<le> length m \<and> length m \<le> 128 \<and> list_all media_char m))
          then (Inl (BadRequest ''Invalid mediaId format''), st)
          else (Inr mediaId, st\<lparr>groups := update_where (\<lambda>r. gId r = g)
                   (\<lambda>r. r\<lparr>gImageMediaId := mediaId, gUpdatedAt := eNow e\<rparr>) (groups st)\<rparr>))"

definition deleteGroup :: "env \<Rightarrow> json option \<Rightarrow> delivery \<Rightarrow> (http_error, unit) result \<times> delivery" where
  "deleteGroup e groupId st =
     (case sanitizeQueryValue groupId of
        Inl err \<Rightarrow> (Inl err, st)
      | Inr g \<Rightarrow>
          (let st1 = st\<lparr>groups := update_where (\<lambda>r. gId r = g)
                          (\<lambda>r. r\<lparr>gDeletedAt := Some (eNow e), gUpdatedAt := eNow e\<rparr>) (groups st)\<rparr>
           in (Inr (), deleteGroupRedisKeys [g] (snd (deleteGroupOwnedRows [g] True st1)))))"

section \<open>The lock on additions\<close>

text \<open>\<open>Math.max(1, Math.min(60, Math.round((body.ttlMs ?? 30_000) / 1000)))\<close>\<close>

definition addLockSeconds :: "rat option \<Rightarrow> int" where
  "addLockSeconds ttlMs =
     (let ms = (case ttlMs of None \<Rightarrow> 30000 | Some t \<Rightarrow> t) in max 1 (min 60 \<lfloor>ms / 1000 + 1 / 2\<rfloor>))"

definition lockOwner :: "json option \<Rightarrow> json option \<Rightarrow> json option \<Rightarrow> (http_error, string \<times> string) result" where
  "lockOwner userId groupId deviceId =
     bind_r (sanitizeQueryValue (orBlank userId)) (\<lambda>u.
     bind_r (sanitizeQueryValue groupId) (\<lambda>g.
     bind_r (sanitizeQueryValue deviceId) (\<lambda>d. Inr (g, memberKey u d))))"

definition acquireAddLock ::
  "int \<Rightarrow> json option \<Rightarrow> json option \<Rightarrow> json option \<Rightarrow> rat option \<Rightarrow> delivery \<Rightarrow> (http_error, bool) result \<times> delivery" where
  "acquireAddLock now userId groupId deviceId ttlMs st =
     (case lockOwner userId groupId deviceId of
        Inl err \<Rightarrow> (Inl err, st)
      | Inr (g, owner) \<Rightarrow>
          (let (ok, l) = set_nx_ex now (1000 * addLockSeconds ttlMs) owner (addLock st g)
           in (Inr ok, st\<lparr>addLock := (addLock st)(g := l)\<rparr>)))"

definition releaseAddLock ::
  "int \<Rightarrow> json option \<Rightarrow> json option \<Rightarrow> json option \<Rightarrow> delivery \<Rightarrow> (http_error, bool) result \<times> delivery" where
  "releaseAddLock now userId groupId deviceId st =
     (case lockOwner userId groupId deviceId of
        Inl err \<Rightarrow> (Inl err, st)
      | Inr (g, owner) \<Rightarrow>
          (let held = (case addLock st g of None \<Rightarrow> False | Some (v, expiry) \<Rightarrow> \<not> expiry \<le> now \<and> v = owner)
           in (Inr held, st\<lparr>addLock := (addLock st)(g := release_if now owner (addLock st g))\<rparr>)))"

section \<open>A deleted group\<close>

lemma deleteGroup_Inr:
  assumes "deleteGroup e groupId st = (Inr (), st')"
  obtains g where "sanitizeQueryValue groupId = Inr g"
    and "groups st' = update_where (\<lambda>r. gId r = g) (\<lambda>r. r\<lparr>gDeletedAt := Some (eNow e), gUpdatedAt := eNow e\<rparr>) (groups st)"
    and "members st' = delete_where (\<lambda>r. mGroup r = g) (members st)"
    and "devices st' = delete_where (\<lambda>r. dGroup r = g) (devices st)"
    and "queue st' = delete_where (queuedIn [g]) (queue st)"
    and "commitLog st' = delete_where (\<lambda>r. cGroup r = g) (commitLog st)"
    and "groupInfos st' = delete_where (\<lambda>r. iGroup r = g) (groupInfos st)"
    and "invites st' = delete_where (\<lambda>r. vGroup r = g) (invites st)"
    and "dismissed st' = dismissed st" and "keyPackages st' = keyPackages st"
    and "history st' = (history st)(g := [])" and "routing st' = (routing st)(g := [])"
    and "pendingWelcome st' = (pendingWelcome st)(g := [])"
  using assms
  by (auto simp: deleteGroup_def deleteGroupOwnedRows_def deleteGroupRedisKeys_def Let_def fun_eq_iff
      split: sum.splits)

lemma find_map_stamp: "find (\<lambda>r. gId r = g) (map (\<lambda>r. if gId r = g then f r else r) rs) = Some r
    \<Longrightarrow> (\<And>r. gId (f r) = gId r) \<Longrightarrow> \<exists>r'. r = f r'"
  by (induction rs) (auto split: if_splits)

text \<open>What is left of a group in the tables and in Redis.\<close>

definition residue :: "string \<Rightarrow> delivery \<Rightarrow> bool" where
  "residue g st \<longleftrightarrow>
     list_ex (\<lambda>r. mGroup r = g) (members st) \<or> list_ex (\<lambda>r. dGroup r = g) (devices st)
     \<or> list_ex (queuedIn [g]) (queue st) \<or> list_ex (\<lambda>r. cGroup r = g) (commitLog st)
     \<or> list_ex (\<lambda>r. iGroup r = g) (groupInfos st) \<or> list_ex (\<lambda>r. vGroup r = g) (invites st)
     \<or> history st g \<noteq> [] \<or> routing st g \<noteq> [] \<or> pendingWelcome st g \<noteq> []"

lemma list_ex_delete_where: "list_ex p (delete_where q rs) \<longleftrightarrow> (\<exists>r \<in> set rs. p r \<and> \<not> q r)"
  by (auto simp: list_ex_iff delete_where_def)

lemma queuedIn_fun: "queuedIn [g] = (\<lambda>r. qGroup r = Some g)"
  by (auto simp: queuedIn_def fun_eq_iff split: option.splits)

text \<open>
  C29: A deleted group is gone and only it. After the deletion nothing of the group is left in the
  tables or in Redis but its tombstone, which carries the instant, the markers of the people who
  dismissed it and a lock that may be held on it. Row for row, nothing else has changed: the row of every other group, the members,
  seats, queued messages, commits, published bases and invitations of the others, their routing sets,
  histories and waiting lists, and every table that is not of a group.
\<close>

theorem deleted_group_is_gone:
  assumes "deleteGroup e groupId st = (Inr (), st')" and "sanitizeQueryValue groupId = Inr g"
  shows "\<not> residue g st' \<and> (\<forall>r. findGroup g st' = Some r \<longrightarrow> gDeletedAt r = Some (eNow e))
    \<and> st' = st\<lparr>
        groups := map (\<lambda>r. if gId r = g then r\<lparr>gDeletedAt := Some (eNow e), gUpdatedAt := eNow e\<rparr> else r) (groups st),
        members := filter (\<lambda>r. mGroup r \<noteq> g) (members st),
        devices := filter (\<lambda>r. dGroup r \<noteq> g) (devices st),
        queue := filter (\<lambda>r. qGroup r \<noteq> Some g) (queue st),
        commitLog := filter (\<lambda>r. cGroup r \<noteq> g) (commitLog st),
        groupInfos := filter (\<lambda>r. iGroup r \<noteq> g) (groupInfos st),
        invites := filter (\<lambda>r. vGroup r \<noteq> g) (invites st),
        routing := (routing st)(g := []), history := (history st)(g := []),
        pendingWelcome := (pendingWelcome st)(g := [])\<rparr>"
proof (intro conjI allI impI)
  show st': "st' = st\<lparr>
        groups := map (\<lambda>r. if gId r = g then r\<lparr>gDeletedAt := Some (eNow e), gUpdatedAt := eNow e\<rparr> else r) (groups st),
        members := filter (\<lambda>r. mGroup r \<noteq> g) (members st),
        devices := filter (\<lambda>r. dGroup r \<noteq> g) (devices st),
        queue := filter (\<lambda>r. qGroup r \<noteq> Some g) (queue st),
        commitLog := filter (\<lambda>r. cGroup r \<noteq> g) (commitLog st),
        groupInfos := filter (\<lambda>r. iGroup r \<noteq> g) (groupInfos st),
        invites := filter (\<lambda>r. vGroup r \<noteq> g) (invites st),
        routing := (routing st)(g := []), history := (history st)(g := []),
        pendingWelcome := (pendingWelcome st)(g := [])\<rparr>"
    using assms by (auto simp: deleteGroup_def deleteGroupOwnedRows_def deleteGroupRedisKeys_def Let_def
        delete_where_def update_where_def queuedIn_fun fun_eq_iff)
  show "\<not> residue g st'" by (simp add: st' residue_def queuedIn_fun list_ex_iff)
  show "gDeletedAt r = Some (eNow e)" if "findGroup g st' = Some r" for r
    using that by (auto simp: findGroup_def st' dest!: find_map_stamp)
qed

text \<open>
  A message to a group that was deleted earlier is accepted. The memberships of the group are gone
  with it, so the message names no recipient and the check that would refuse it never runs: the sender
  is told that it was processed, and its ciphertext starts a new history for the deleted group. Redis
  is relied on not to trim a stream that is below its bound.
\<close>

theorem deleted_group_send_accepted:
  assumes "deleteGroup e groupId st = (Inr (), st')" and "sanitizeQueryValue groupId = Inr g"
    and "sbGroup body = Some g" and "g \<noteq> []" and "truthy (sbProto body)" and "truthy (sbSender body)"
    and "\<not> isHandshake body" and "isDurable body"
    and "assertRequesterMatchesCaller auth (orEmpty (sbSender body)) = Inr ()"
    and "\<And>xs. length xs \<le> HISTORY_STREAM_MAXLEN \<Longrightarrow> eTrim e' xs = xs"
  shows "\<exists>st''. sendMessage e' auth body st' = (Inr \<lparr>srQueued = 0, srSent = 0\<rparr>, st'', [])
     \<and> queue st'' = queue st' \<and> map hContent (history st'' g) = [orEmpty (sbProto body)]"
proof -
  obtain dev: "devices st' = delete_where (\<lambda>r. dGroup r = g) (devices st)" and hist: "history st' g = []"
    using assms(1,2) by (auto elim: deleteGroup_Inr)
  have grp: "truthy (sbGroup body)" "orEmpty (sbGroup body) = g"
    using assms(3,4) by (simp_all add: truthy_def orEmpty_def)
  have "findDevice d g st' = None" for d
    by (auto simp: findDevice_def find_None_iff dev set_delete_where)
  moreover have "activeMemberships g st' = []"
    by (auto simp: activeMemberships_def dev delete_where_def filter_empty_conv)
  ultimately have ops: "protoOps e' body st' = (Inr [], reconcileRouting g st')"
    by (simp add: protoOps_def grp senderGate_def protoTargets_def)
  have wr: "writesHistory body"
    using assms(5-8) by (simp add: writesHistory_def isHandshake_def grp)
  have "sendMessage e' auth body st' = (Inr \<lparr>srQueued = 0, srSent = 0\<rparr>, appendHistory e' body (reconcileRouting g st'), [])"
    using assms(5,6,9) by (simp add: sendMessage_def ops deliverEffects_def)
  moreover have "map hContent (history (appendHistory e' body (reconcileRouting g st')) g) = [orEmpty (sbProto body)]"
    using hist by (simp add: appendHistory_def wr grp assms(10) HISTORY_STREAM_MAXLEN_def RETENTION_WINDOW_MS_def Let_def)
  ultimately show ?thesis by (intro exI [of _ "appendHistory e' body (reconcileRouting g st')"]) simp
qed

definition plain_env :: "int \<Rightarrow> env" where
  "plain_env t = \<lparr>eNow = t, eOnline = (\<lambda>_. False), eIds = (\<lambda>n. replicate n CHR ''i''), eTrim = id\<rparr>"

lemma sanitize_g: "sanitizeQueryValue (Some (JStr ''g'')) = Inr ''g''"
  by (simp add: sanitizeQueryValue_def SAFE_QUERY_VALUE_REGEX_def safe_char_def alnum_def trim_def js_ws_def)

lemma demo_delete: "\<exists>st'. deleteGroup (plain_env 5) (Some (JStr ''g'')) demo_store = (Inr (), st')"
  by (simp add: deleteGroup_def sanitize_g Let_def)

theorem deleted_group_is_gone_witness:
  "\<exists>st'. deleteGroup (plain_env 5) (Some (JStr ''g'')) demo_store = (Inr (), st') \<and> residue ''g'' demo_store \<and> \<not> residue ''g'' st'"
proof -
  obtain st' where run: "deleteGroup (plain_env 5) (Some (JStr ''g'')) demo_store = (Inr (), st')" using demo_delete by blast
  have "residue ''g'' demo_store" by (simp add: residue_def demo_defs)
  with run deleted_group_is_gone [OF run sanitize_g] show ?thesis by blast
qed

theorem deleted_group_send_accepted_witness:
  "\<exists>st' st''. deleteGroup (plain_env 5) (Some (JStr ''g'')) demo_store = (Inr (), st')
     \<and> sendMessage (plain_env 9) None (demo_body ''ann'' ''d1'') st' = (Inr \<lparr>srQueued = 0, srSent = 0\<rparr>, st'', [])
     \<and> map hContent (history st'' ''g'') = [''AAAA'']"
proof -
  obtain st' where run: "deleteGroup (plain_env 5) (Some (JStr ''g'')) demo_store = (Inr (), st')" using demo_delete by blast
  let ?b = "demo_body ''ann'' ''d1''"
  have "\<exists>st''. sendMessage (plain_env 9) None ?b st' = (Inr \<lparr>srQueued = 0, srSent = 0\<rparr>, st'', [])
      \<and> queue st'' = queue st' \<and> map hContent (history st'' ''g'') = [orEmpty (sbProto ?b)]"
    by (rule deleted_group_send_accepted [OF run sanitize_g])
      (simp_all add: demo_body_def truthy_def isHandshake_def isTrue_def isDurable_def plain_env_def
        assertRequesterMatchesCaller_def sanitizeOptionalQueryValue_def result_simps)
  moreover have "orEmpty (sbProto ?b) = ''AAAA''" by (simp add: demo_body_def orEmpty_def)
  ultimately show ?thesis using run by metis
qed

section \<open>How long the lock on additions lasts\<close>

lemma addLockSeconds_bounds: "1 \<le> addLockSeconds t" "addLockSeconds t \<le> 60"
  by (simp_all add: addLockSeconds_def Let_def)

text \<open>
  The lock on additions excludes and does not stay. Once a device holds it, nobody gets it for at
  least a second, whatever duration was asked for, unless the holder gives it back; another device
  cannot give it back; and sixty seconds later it is free for everybody, whatever its holder does.
\<close>

theorem add_lock_bounded:
  assumes "acquireAddLock now userId groupId deviceId ttl st = (Inr True, st')"
    and "lockOwner userId groupId deviceId = Inr (g, owner)"
    and "lockOwner userId' groupId' deviceId' = Inr (g, owner')"
  shows "(now' < now + 1000 \<longrightarrow> fst (acquireAddLock now' userId' groupId' deviceId' ttl' st') = Inr False)
    \<and> (now + 60000 \<le> now' \<longrightarrow> fst (acquireAddLock now' userId' groupId' deviceId' ttl' st') = Inr True)
    \<and> (owner' \<noteq> owner \<longrightarrow> releaseAddLock now' userId' groupId' deviceId' st' = (Inr False, st'))
    \<and> (now' < now + 1000 \<longrightarrow> addLock (snd (releaseAddLock now' userId groupId deviceId st')) g = None)"
proof -
  define T where "T = now + 1000 * addLockSeconds ttl"
  have T: "now + 1000 \<le> T" "T \<le> now + 60000" using addLockSeconds_bounds [of ttl] by (simp_all add: T_def)
  have lock: "addLock st' g = Some (owner, T)"
    using assms(1,2) by (auto simp: acquireAddLock_def set_nx_ex_def T_def Let_def split: if_splits)
  then have same: "st'\<lparr>addLock := (addLock st')(g := Some (owner, T))\<rparr> = st'" by (simp add: fun_upd_idem)
  show ?thesis
    using T by (auto simp: acquireAddLock_def releaseAddLock_def assms(2,3) lock set_nx_ex_def lock_free_def
        release_if_def Let_def same)
qed

theorem add_lock_bounded_witness:
  "\<exists>st'. acquireAddLock 0 (Some (JStr ''g'')) (Some (JStr ''g'')) (Some (JStr ''g'')) (Some 600000) emptyStore = (Inr True, st')
     \<and> fst (acquireAddLock 60000 (Some (JStr ''g'')) (Some (JStr ''g'')) (Some (JStr ''g'')) None st') = Inr True"
proof -
  let ?v = "Some (JStr ''g'')"
  have owner: "lockOwner ?v ?v ?v = Inr (''g'', memberKey ''g'' ''g'')" by (simp add: lockOwner_def orBlank_def sanitize_g result_simps)
  have "\<exists>st'. acquireAddLock 0 ?v ?v ?v (Some 600000) emptyStore = (Inr True, st')"
    by (simp add: acquireAddLock_def owner set_nx_ex_def lock_free_def emptyStore_def)
  then obtain st' where run: "acquireAddLock 0 ?v ?v ?v (Some 600000) emptyStore = (Inr True, st')" by blast
  from add_lock_bounded [OF run owner owner, where now' = 60000 and ttl' = None] run show ?thesis by auto
qed

end
