(* ===== verification/Push_Access.thy ===== *)
theory Push_Access
  imports Commit_Log Group_Store Device_Registry
begin

text \<open>
  What a device may do while its app is not running (\<open>controllers/push.controller.ts\<close>): it holds no
  session and authenticates with the secret it was given when it registered its push token. The digest
  of the secret is SHA-256 from the platform and is an argument \<open>hash\<close>; the secret drawn at registration
  is an argument too. The routes that relay an avatar or a media file, and the diagnostic that pushes
  to everybody, read and write nothing of the state modelled here.
\<close>

section \<open>The secret of a device\<close>

definition findToken :: "string \<Rightarrow> string \<Rightarrow> delivery \<Rightarrow> push_row option" where
  "findToken u d st = find (\<lambda>p. pUser p = u \<and> pDevice p = d) (pushTokens st)"

definition presentedSecret :: "string option \<Rightarrow> string" where
  "presentedSecret header =
     (case header of
        None \<Rightarrow> []
      | Some s \<Rightarrow> if take 11 s = ''PushSecret '' then trim (drop 11 s) else [])"

definition verifyPushSecretAuth ::
  "(string \<Rightarrow> string) \<Rightarrow> string option \<Rightarrow> string \<Rightarrow> string \<Rightarrow> delivery \<Rightarrow> (http_error, unit) result \<times> delivery" where
  "verifyPushSecretAuth hash header u d st =
     (let secret = presentedSecret header in
      if secret = [] then (Inl (Forbidden ''PushSecret header required''), st)
      else (case findToken u d st of
              None \<Rightarrow> (Inl (Forbidden ''Invalid push secret''), st)
            | Some pt \<Rightarrow>
                if \<not> truthy (pSecret pt) then (Inl (Forbidden ''Invalid push secret''), st)
                else if orEmpty (pSecret pt) = hash secret then (Inr (), st)
                else if orEmpty (pSecret pt) = secret
                then (Inr (), st\<lparr>pushTokens := update_where (\<lambda>p. pUser p = u \<and> pDevice p = d)
                        (\<lambda>p. p\<lparr>pSecret := Some (hash secret)\<rparr>) (pushTokens st)\<rparr>)
                else (Inl (Forbidden ''Invalid push secret''), st)))"

record push_body =
  tbToken :: "json option"
  tbDevice :: "json option"
  tbPlatform :: "json option"
  tbVoip :: "json option"
  tbLocale :: "json option"

text \<open>A text field, trimmed and cut; \<open>None\<close> when it is absent or blank.\<close>

definition textField :: "nat \<Rightarrow> json option \<Rightarrow> string option" where
  "textField n v = (let s = trim (strOrEmpty v) in if s = [] then None else Some (take n s))"

definition tokenIndex :: "push_row \<Rightarrow> string \<times> string" where
  "tokenIndex p = (pUser p, pDevice p)"

definition registerPushToken ::
  "(string \<Rightarrow> string) \<Rightarrow> string \<Rightarrow> push_body \<Rightarrow> json option \<Rightarrow> delivery \<Rightarrow> (http_error, string) result \<times> delivery" where
  "registerPushToken hash rawSecret body userId st =
     attempt
       (bind_r (sanitizeQueryValue userId) (\<lambda>u.
        bind_r (sanitizeQueryValue (tbDevice body)) (\<lambda>d.
          case textField 500 (tbToken body) of
            None \<Rightarrow> Inl (BadRequest ''token is required'')
          | Some token \<Rightarrow> Inr (u, d, token))))
       (\<lambda>(u, d, token).
          let row = \<lparr>pUser = u, pDevice = d, pToken = token, pIos = (tbPlatform body = Some (JStr ''ios'')),
                     pSecret = Some (hash rawSecret), pVoip = textField 255 (tbVoip body),
                     pLocale = textField 5 (tbLocale body)\<rparr>
          in (Inr rawSecret,
              st\<lparr>pushTokens := upsert_row tokenIndex row
                   (\<lambda>p. p\<lparr>pToken := token, pIos := pIos row, pSecret := pSecret row,
                          pVoip := orKept (pVoip row) (pVoip p), pLocale := orKept (pLocale row) (pLocale p)\<rparr>)
                   (pushTokens st)\<rparr>)) st"

definition unregisterPushToken :: "json option \<Rightarrow> json option \<Rightarrow> delivery \<Rightarrow> (http_error, unit) result \<times> delivery" where
  "unregisterPushToken deviceId userId st =
     attempt
       (bind_r (sanitizeQueryValue userId) (\<lambda>u.
        bind_r (sanitizeQueryValue deviceId) (\<lambda>d. Inr (u, d))))
       (\<lambda>(u, d). (Inr (), st\<lparr>pushTokens := delete_where (\<lambda>p. pUser p = u \<and> pDevice p = d) (pushTokens st)\<rparr>)) st"

section \<open>The routes behind the secret\<close>

text \<open>The identifiers of a request, then its secret; \<open>k\<close> is the rest of the handler.\<close>

definition withSecret ::
  "(string \<Rightarrow> string) \<Rightarrow> string option \<Rightarrow> json option \<Rightarrow> json option \<Rightarrow> delivery
     \<Rightarrow> (string \<Rightarrow> string \<Rightarrow> delivery \<Rightarrow> (http_error, 'b) result \<times> delivery) \<Rightarrow> (http_error, 'b) result \<times> delivery" where
  "withSecret hash header userId deviceId st k =
     (case bind_r (sanitizeQueryValue (orBlank userId)) (\<lambda>u.
           bind_r (sanitizeQueryValue (orBlank deviceId)) (\<lambda>d. Inr (u, d))) of
        Inl err \<Rightarrow> (Inl err, st)
      | Inr (u, d) \<Rightarrow>
          (case verifyPushSecretAuth hash header u d st of
             (Inl err, st1) \<Rightarrow> (Inl err, st1)
           | (Inr _, st1) \<Rightarrow> k u d st1))"

definition refreshPushTokenViaSecret ::
  "(string \<Rightarrow> string) \<Rightarrow> string option \<Rightarrow> json option \<Rightarrow> json option \<Rightarrow> json option \<Rightarrow> json option \<Rightarrow> delivery
     \<Rightarrow> (http_error, unit) result \<times> delivery" where
  "refreshPushTokenViaSecret hash header userId deviceId token voip st =
     withSecret hash header userId deviceId st (\<lambda>u d st1.
       let t = textField 500 token; v = textField 255 voip in
       if t = None \<and> v = None then (Inl (BadRequest ''token or voipToken is required''), st1)
       else (Inr (), st1\<lparr>pushTokens := update_where (\<lambda>p. pUser p = u \<and> pDevice p = d)
               (\<lambda>p. p\<lparr>pToken := (case t of None \<Rightarrow> pToken p | Some x \<Rightarrow> x), pVoip := orKept v (pVoip p)\<rparr>) (pushTokens st1)\<rparr>))"

definition fetchProtoForPush ::
  "(string \<Rightarrow> string) \<Rightarrow> string option \<Rightarrow> json option \<Rightarrow> json option \<Rightarrow> json option \<Rightarrow> delivery
     \<Rightarrow> (http_error, string \<times> string) result \<times> delivery" where
  "fetchProtoForPush hash header messageId userId deviceId st =
     (case bind_r (sanitizeQueryValue (orBlank userId)) (\<lambda>u.
           bind_r (sanitizeQueryValue (orBlank deviceId)) (\<lambda>d.
           bind_r (sanitizeQueryValue (orBlank messageId)) (\<lambda>m. Inr (u, d, m)))) of
        Inl err \<Rightarrow> (Inl err, st)
      | Inr (u, d, m) \<Rightarrow>
          (case verifyPushSecretAuth hash header u d st of
             (Inl err, st1) \<Rightarrow> (Inl err, st1)
           | (Inr _, st1) \<Rightarrow>
               (case find (\<lambda>q. qId q = m \<and> qRecipient q = u \<and> qDevice q = d) (queue st1) of
                  None \<Rightarrow> (Inr ([], []), st1)
                | Some q \<Rightarrow> (Inr (case qProto q of Some p \<Rightarrow> p | None \<Rightarrow> orEmpty (qContent q), orEmpty (qRatchetTree q)), st1))))"

definition markMembershipActivePush ::
  "(string \<Rightarrow> string) \<Rightarrow> env \<Rightarrow> string option \<Rightarrow> json option \<Rightarrow> json option \<Rightarrow> json option \<Rightarrow> delivery \<Rightarrow> unit outcome" where
  "markMembershipActivePush hash e header userId deviceId groupId st =
     (case bind_r (sanitizeQueryValue (orBlank userId)) (\<lambda>u.
           bind_r (sanitizeQueryValue (orBlank deviceId)) (\<lambda>d.
           bind_r (sanitizeQueryValue (orBlank groupId)) (\<lambda>g. Inr (u, d, g)))) of
        Inl err \<Rightarrow> (Inl err, st, [])
      | Inr (u, d, g) \<Rightarrow>
          (case verifyPushSecretAuth hash header u d st of
             (Inl err, st1) \<Rightarrow> (Inl err, st1, [])
           | (Inr _, st1) \<Rightarrow>
               (case activateDeviceMembership e u d g True st1 of (st2, eff) \<Rightarrow> (Inr (), st2, eff))))"

definition acquireAddLockPush ::
  "(string \<Rightarrow> string) \<Rightarrow> int \<Rightarrow> string option \<Rightarrow> json option \<Rightarrow> json option \<Rightarrow> json option \<Rightarrow> delivery
     \<Rightarrow> (http_error, bool) result \<times> delivery" where
  "acquireAddLockPush hash now header userId deviceId groupId st =
     (case bind_r (sanitizeQueryValue (orBlank userId)) (\<lambda>u.
           bind_r (sanitizeQueryValue (orBlank deviceId)) (\<lambda>d.
           bind_r (sanitizeQueryValue (orBlank groupId)) (\<lambda>g. Inr (u, d, g)))) of
        Inl err \<Rightarrow> (Inl err, st)
      | Inr (u, d, g) \<Rightarrow>
          (case verifyPushSecretAuth hash header u d st of
             (Inl err, st1) \<Rightarrow> (Inl err, st1)
           | (Inr _, st1) \<Rightarrow>
               (let (ok, l) = set_nx_ex now 15000 (memberKey u d) (addLock st1 g)
                in (Inr ok, st1\<lparr>addLock := (addLock st1)(g := l)\<rparr>))))"

definition releaseAddLockPush ::
  "(string \<Rightarrow> string) \<Rightarrow> int \<Rightarrow> string option \<Rightarrow> json option \<Rightarrow> json option \<Rightarrow> json option \<Rightarrow> delivery
     \<Rightarrow> (http_error, bool) result \<times> delivery" where
  "releaseAddLockPush hash now header userId deviceId groupId st =
     (case bind_r (sanitizeQueryValue (orBlank userId)) (\<lambda>u.
           bind_r (sanitizeQueryValue (orBlank deviceId)) (\<lambda>d.
           bind_r (sanitizeQueryValue (orBlank groupId)) (\<lambda>g. Inr (u, d, g)))) of
        Inl err \<Rightarrow> (Inl err, st)
      | Inr (u, d, g) \<Rightarrow>
          (case verifyPushSecretAuth hash header u d st of
             (Inl err, st1) \<Rightarrow> (Inl err, st1)
           | (Inr _, st1) \<Rightarrow>
               (let held = (case addLock st1 g of None \<Rightarrow> False | Some (v, expiry) \<Rightarrow> \<not> expiry \<le> now \<and> v = memberKey u d)
                in (Inr held, st1\<lparr>addLock := (addLock st1)(g := release_if now (memberKey u d) (addLock st1 g))\<rparr>))))"

definition getKeyPackagePush ::
  "(string \<Rightarrow> string) \<Rightarrow> string option \<Rightarrow> json option \<Rightarrow> json option \<Rightarrow> json option \<Rightarrow> json option \<Rightarrow> delivery
     \<Rightarrow> (http_error, string) result \<times> delivery" where
  "getKeyPackagePush hash header requesterId deviceId targetUserId targetDeviceId st =
     withSecret hash header requesterId deviceId st (\<lambda>_ _ st1.
       (bind_r (sanitizeQueryValue (orBlank targetUserId)) (\<lambda>u.
        bind_r (sanitizeQueryValue (orBlank targetDeviceId)) (\<lambda>d.
          case findKeyPackage u d st1 of
            None \<Rightarrow> Inl (BadRequest ''Key package not found'')
          | Some k \<Rightarrow> Inr (kPayload k))), st1))"

datatype push_commit = PushRejected string | PushDone

record add_body =
  abUser :: "json option"
  abDevice :: "json option"
  abGroup :: "json option"
  abTargetUser :: "json option"
  abTargetDevice :: "json option"
  abWelcome :: "json option"
  abRatchetTree :: "string option"
  abCommit :: "json option"
  abBaseEpoch :: "json option"

text \<open>The commit handed to the epoch gate: the group, the device and the epoch, nothing else.\<close>

definition pushCommitBody :: "string \<Rightarrow> string \<Rightarrow> json option \<Rightarrow> commit_body" where
  "pushCommitBody g d base =
     \<lparr>cbGroup = Some (JStr g), cbDevice = Some (JStr d), cbBaseEpoch = base, cbProto = None, cbSender = None,
      cbExclude = None, cbGroupInfo = None\<rparr>"

definition isNumber :: "json option \<Rightarrow> bool" where
  "isNumber v = (case v of Some (JNum _) \<Rightarrow> True | _ \<Rightarrow> False)"

text \<open>The Welcome to the target, then the commit to the members.\<close>

definition pushWelcomeAndBroadcast ::
  "env \<Rightarrow> string \<Rightarrow> string \<Rightarrow> string \<Rightarrow> string \<Rightarrow> string \<Rightarrow> add_body \<Rightarrow> delivery \<Rightarrow> push_commit outcome" where
  "pushWelcomeAndBroadcast e u d g tu td body st =
     (case sendWelcome e None
             \<lparr>wbTargetDevice = Some (JStr td), wbTargetUser = Some (JStr tu), wbSenderUser = Some (JStr u),
              wbPayload = strOrEmpty (abWelcome body), wbRatchetTree = abRatchetTree body, wbGroup = Some (JStr g)\<rparr> st of
        (Inl err, st1, eff1) \<Rightarrow> (Inl err, st1, eff1)
      | (Inr _, st1, eff1) \<Rightarrow>
          (case sendMessage e None
                  \<lparr>sbGroup = Some g, sbSender = Some u, sbSenderDevice = Some d, sbProto = Some (strOrEmpty (abCommit body)),
                   sbIsWelcome = None, sbIsCommit = Some True, sbSilent = None, sbDurable = None,
                   sbExclude = Some [memberKey tu td], sbRecipients = None, sbContent = None, sbType = None\<rparr> st1 of
             (Inl err, st2, eff2) \<Rightarrow> (Inl err, st2, eff1 @ eff2)
           | (Inr _, st2, eff2) \<Rightarrow> (Inr PushDone, st2, eff1 @ eff2)))"

definition sendWelcomeAndCommitPush ::
  "(string \<Rightarrow> string) \<Rightarrow> env \<Rightarrow> string option \<Rightarrow> add_body \<Rightarrow> delivery \<Rightarrow> push_commit outcome" where
  "sendWelcomeAndCommitPush hash e header body st =
     (case bind_r (sanitizeQueryValue (orBlank (abUser body))) (\<lambda>u.
           bind_r (sanitizeQueryValue (orBlank (abDevice body))) (\<lambda>d. Inr (u, d))) of
        Inl err \<Rightarrow> (Inl err, st, [])
      | Inr (u, d) \<Rightarrow>
     (case verifyPushSecretAuth hash header u d st of
        (Inl err, st1) \<Rightarrow> (Inl err, st1, [])
      | (Inr _, st1) \<Rightarrow>
     (case bind_r (sanitizeQueryValue (orBlank (abGroup body))) (\<lambda>g.
           bind_r (sanitizeQueryValue (orBlank (abTargetUser body))) (\<lambda>tu.
           bind_r (sanitizeQueryValue (orBlank (abTargetDevice body))) (\<lambda>td.
             if strOrEmpty (abWelcome body) = [] then Inl (BadRequest ''welcomePayload required'')
             else if strOrEmpty (abCommit body) = [] then Inl (BadRequest ''commitPayload required'')
             else Inr (g, tu, td)))) of
        Inl err \<Rightarrow> (Inl err, st1, [])
      | Inr (g, tu, td) \<Rightarrow>
          if findMember g tu st1 = None then (Inr (PushRejected ''not_a_member''), st1, [])
          else if isNumber (abBaseEpoch body)
          then (case validateCommit e (pushCommitBody g d (abBaseEpoch body)) st1 of
                  (Inl err, st2, eff) \<Rightarrow> (Inl err, st2, eff)
                | (Inr (Rejected _ reason), st2, eff) \<Rightarrow> (Inr (PushRejected reason), st2, eff)
                | (Inr (Accepted _), st2, eff) \<Rightarrow>
                    (case pushWelcomeAndBroadcast e u d g tu td body st2 of (r, st3, eff') \<Rightarrow> (r, st3, eff @ eff')))
          else pushWelcomeAndBroadcast e u d g tu td body st1)))"

definition getCommitsPush ::
  "(string \<Rightarrow> string) \<Rightarrow> string option \<Rightarrow> json option \<Rightarrow> json option \<Rightarrow> json option \<Rightarrow> json option \<Rightarrow> delivery
     \<Rightarrow> (http_error, commits_since) result \<times> delivery" where
  "getCommitsPush hash header userId deviceId groupId sinceEpoch st =
     withSecret hash header userId deviceId st (\<lambda>u _ st1.
       (bind_r (sanitizeQueryValue (orBlank groupId)) (\<lambda>g.
          getCommitsSince g (nat (case sinceEpoch of Some (JNum r) \<Rightarrow> max 0 \<lfloor>r\<rfloor> | _ \<Rightarrow> 0)) u st1), st1))"

definition sendMessagePush ::
  "(string \<Rightarrow> string) \<Rightarrow> env \<Rightarrow> string option \<Rightarrow> json option \<Rightarrow> json option \<Rightarrow> json option \<Rightarrow> json option
     \<Rightarrow> bool option \<Rightarrow> bool option \<Rightarrow> delivery \<Rightarrow> send_result outcome" where
  "sendMessagePush hash e header userId deviceId groupId proto silent durable st =
     (case bind_r (sanitizeQueryValue (orBlank userId)) (\<lambda>u.
           bind_r (sanitizeQueryValue (orBlank deviceId)) (\<lambda>d. Inr (u, d))) of
        Inl err \<Rightarrow> (Inl err, st, [])
      | Inr (u, d) \<Rightarrow>
     (case verifyPushSecretAuth hash header u d st of
        (Inl err, st1) \<Rightarrow> (Inl err, st1, [])
      | (Inr _, st1) \<Rightarrow>
     (case bind_r (sanitizeQueryValue (orBlank groupId)) (\<lambda>g.
             if strOrEmpty proto = [] then Inl (BadRequest ''proto required'') else Inr g) of
        Inl err \<Rightarrow> (Inl err, st1, [])
      | Inr g \<Rightarrow>
          sendMessage e None
            \<lparr>sbGroup = Some g, sbSender = Some u, sbSenderDevice = Some d, sbProto = Some (strOrEmpty proto),
             sbIsWelcome = None, sbIsCommit = None, sbSilent = Some (isTrue silent), sbDurable = durable,
             sbExclude = None, sbRecipients = None, sbContent = None, sbType = None\<rparr> st1)))"

section \<open>The secret works, and so does its digest\<close>

lemma findToken_index: "findToken u d st = find (\<lambda>p. tokenIndex p = (u, d)) (pushTokens st)"
  by (simp add: findToken_def tokenIndex_def)

lemma register_token:
  assumes "registerPushToken hash raw body userId st = (Inr s, st')"
    and "sanitizeQueryValue userId = Inr u" and "sanitizeQueryValue (tbDevice body) = Inr d"
  shows "s = raw" and "\<exists>p. findToken u d st' = Some p \<and> pSecret p = Some (hash raw)"
    and "(v, e) \<noteq> (u, d) \<Longrightarrow> findToken v e st' = findToken v e st"
proof -
  have "textField 500 (tbToken body) \<noteq> None" using assms
    by (cases "textField 500 (tbToken body)") (simp_all add: registerPushToken_def attempt_def)
  then obtain token where token: "textField 500 (tbToken body) = Some token" by auto
  define row where "row = \<lparr>pUser = u, pDevice = d, pToken = token, pIos = (tbPlatform body = Some (JStr ''ios'')),
                     pSecret = Some (hash raw), pVoip = textField 255 (tbVoip body),
                     pLocale = textField 5 (tbLocale body)\<rparr>"
  define f where "f = (\<lambda>p :: push_row. p\<lparr>pToken := token, pIos := pIos row, pSecret := pSecret row,
                          pVoip := orKept (pVoip row) (pVoip p), pLocale := orKept (pLocale row) (pLocale p)\<rparr>)"
  have row: "tokenIndex row = (u, d)" "pSecret row = Some (hash raw)" by (simp_all add: row_def tokenIndex_def)
  have f: "tokenIndex (f p) = tokenIndex p" "pSecret (f p) = Some (hash raw)" for p
    by (simp_all add: f_def tokenIndex_def row(2))
  have "registerPushToken hash raw body userId st =
      (Inr raw, st\<lparr>pushTokens := upsert_row tokenIndex row f (pushTokens st)\<rparr>)"
    unfolding registerPushToken_def f_def row_def by (simp add: attempt_def assms(2,3) token)
  with assms(1) have st': "st' = st\<lparr>pushTokens := upsert_row tokenIndex row f (pushTokens st)\<rparr>" and s: "s = raw"
    by simp_all
  from f(1) have index: "unique_index tokenIndex f" by unfold_locales
  show "s = raw" by (fact s)
  show "\<exists>p. findToken u d st' = Some p \<and> pSecret p = Some (hash raw)"
    unfolding findToken_index st' using row f by (simp add: unique_index.find_upsert_row [OF index] split: option.splits)
  show "findToken v e st' = findToken v e st" if "(v, e) \<noteq> (u, d)"
    unfolding findToken_index st' using row that by (auto simp: unique_index.find_upsert_row [OF index])
qed

lemma presented: "presentedSecret (Some (''PushSecret '' @ s)) = trim s"
  by (simp add: presentedSecret_def)

lemma verify_stored:
  assumes "findToken u d st = Some p" and "pSecret p = Some h" and "h \<noteq> []" and "presentedSecret header = s" and "s \<noteq> []"
  shows "verifyPushSecretAuth hash header u d st =
    (if h = hash s then (Inr (), st)
     else if h = s then (Inr (), st\<lparr>pushTokens := update_where (\<lambda>p. pUser p = u \<and> pDevice p = d)
                        (\<lambda>p. p\<lparr>pSecret := Some (hash s)\<rparr>) (pushTokens st)\<rparr>)
     else (Inl (Forbidden ''Invalid push secret''), st))"
  using assms by (simp add: verifyPushSecretAuth_def truthy_def orEmpty_def)


text \<open>
  C36: The digest that is stored authenticates. The comparison kept for secrets stored in clear accepts
  the stored digest itself as a secret, so whoever reads the table can act for every device in it; and
  since it then stores the digest of the digest, the device that holds the true secret is refused from
  then on. The digest is relied on to be free of surrounding blanks and to have no short cycle at the
  secret.
\<close>

theorem stored_digest_authenticates:
  assumes "registerPushToken hash raw body userId st = (Inr s, st')"
    and "sanitizeQueryValue userId = Inr u" and "sanitizeQueryValue (tbDevice body) = Inr d"
    and "trim raw = raw" and "raw \<noteq> []" and "trim (hash raw) = hash raw" and "hash raw \<noteq> []"
    and "hash (hash raw) \<notin> {[], raw, hash raw}"
  shows "\<exists>st''. verifyPushSecretAuth hash (Some (''PushSecret '' @ hash raw)) u d st' = (Inr (), st'')
    \<and> (\<exists>err. verifyPushSecretAuth hash (Some (''PushSecret '' @ s)) u d st'' = (Inl err, st''))"
proof -
  note reg = register_token [OF assms(1-3)]
  from reg(2) obtain p where p: "findToken u d st' = Some p" "pSecret p = Some (hash raw)" by blast
  let ?f = "\<lambda>p. p\<lparr>pSecret := Some (hash (hash raw))\<rparr>"
  let ?st = "st'\<lparr>pushTokens := update_where (\<lambda>p. pUser p = u \<and> pDevice p = d) ?f (pushTokens st')\<rparr>"
  have "unique_index tokenIndex ?f" by unfold_locales (simp add: tokenIndex_def)
  note upd = unique_index.find_update_key [OF this, of "(u, d)" "(u, d)"]
  have "verifyPushSecretAuth hash (Some (''PushSecret '' @ hash raw)) u d st' = (Inr (), ?st)"
    unfolding verify_stored [OF p assms(7) presented [of "hash raw", unfolded assms(6)] assms(7), of hash]
    using assms(8) by auto
  moreover have found: "findToken u d ?st = Some (?f p)"
    using upd p(1) unfolding findToken_index tokenIndex_def by simp
  have "hash (hash raw) \<noteq> []" "pSecret (?f p) = Some (hash (hash raw))" using assms(8) by simp_all
  note again = verify_stored [OF found this(2) this(1) presented [of raw, unfolded assms(4)] assms(5), of hash]
  have "verifyPushSecretAuth hash (Some (''PushSecret '' @ s)) u d ?st = (Inl (Forbidden ''Invalid push secret''), ?st)"
    unfolding reg(1) again using assms(8) by simp
  ultimately show ?thesis by blast
qed

section \<open>An addition from the background\<close>

lemma pushCommitBody_refused:
  "\<exists>err. validateCommit e (pushCommitBody g d base) st = (Inl err, st, [])"
proof -
  have "\<exists>err. commitRequest (pushCommitBody g d base) = Inl err"
    by (cases "sanitizeQueryValue (Some (JStr g))"; cases "sanitizeQueryValue (Some (JStr d))")
      (auto simp: commitRequest_def pushCommitBody_def truthy_def result_simps)
  then show ?thesis by (auto simp: validateCommit_def)
qed

lemma verify_keeps: "verifyPushSecretAuth hash header u d st = (r, st1) \<Longrightarrow> st1\<lparr>pushTokens := pushTokens st\<rparr> = st"
  by (auto simp: verifyPushSecretAuth_def Let_def split: if_splits option.splits)

text \<open>
  C37: An addition from the background that names its epoch never goes through. The handler passes the
  epoch gate the group, the device and the epoch but not the commit, and the gate refuses a commit
  without its content; so the request fails, no Welcome and no commit is sent, and nothing but the
  push token that authenticated it can change.
\<close>

theorem background_add_never_commits:
  assumes "isNumber (abBaseEpoch body)" and "sendWelcomeAndCommitPush hash e header body st = (r, st', eff)"
  shows "r \<noteq> Inr PushDone \<and> eff = [] \<and> st'\<lparr>pushTokens := pushTokens st\<rparr> = st"
proof -
  define ids where "ids = bind_r (sanitizeQueryValue (orBlank (abUser body))) (\<lambda>u.
           bind_r (sanitizeQueryValue (orBlank (abDevice body))) (\<lambda>d. Inr (u, d)))"
  define req where "req = bind_r (sanitizeQueryValue (orBlank (abGroup body))) (\<lambda>g.
           bind_r (sanitizeQueryValue (orBlank (abTargetUser body))) (\<lambda>tu.
           bind_r (sanitizeQueryValue (orBlank (abTargetDevice body))) (\<lambda>td.
             if strOrEmpty (abWelcome body) = [] then Inl (BadRequest ''welcomePayload required'')
             else if strOrEmpty (abCommit body) = [] then Inl (BadRequest ''commitPayload required'')
             else Inr (g, tu, td))))"
  note body = assms(2) [unfolded sendWelcomeAndCommitPush_def, folded ids_def req_def]
  show ?thesis
  proof (cases ids)
    case (Inl err)
    with body show ?thesis by auto
  next
    case ids: (Inr ud)
    obtain u d where ud: "ud = (u, d)" by fastforce
    obtain rv st1 where v: "verifyPushSecretAuth hash header u d st = (rv, st1)" by fastforce
    note body = body [unfolded ids ud sum.case prod.case v]
    note keep = verify_keeps [OF v]
    show ?thesis
    proof (cases "\<exists>x. rv = Inr x \<and> (\<exists>t. req = Inr t)")
      case False
      with body keep show ?thesis by (cases rv; cases req) auto
    next
      case True
      then obtain x g tu td where rv: "rv = Inr x" and req: "req = Inr (g, tu, td)" by (metis prod_cases3)
      obtain err where gate: "validateCommit e (pushCommitBody g d (abBaseEpoch body)) st1 = (Inl err, st1, [])"
        using pushCommitBody_refused by blast
      from body keep show ?thesis
        unfolding rv req sum.case prod.case gate using assms(1) by (cases "findMember g tu st1 = None") auto
    qed
  qed
qed

section \<open>Worked examples\<close>

definition demo_token :: push_body where
  "demo_token = \<lparr>tbToken = Some (JStr ''t''), tbDevice = Some (JStr ''d3''), tbPlatform = None, tbVoip = None, tbLocale = None\<rparr>"

lemma demo_registered:
  "\<exists>st'. registerPushToken (\<lambda>s. ''h'' @ s) ''r'' demo_token (Some (JStr ''cat'')) demo_store = (Inr ''r'', st')"
  using safe_demo(2,3) by (simp add: registerPushToken_def demo_token_def attempt_def textField_def trim_def js_ws_def strOrEmpty_def safeId_def)


theorem stored_digest_authenticates_witness:
  "\<exists>st' st''. registerPushToken (\<lambda>s. ''h'' @ s) ''r'' demo_token (Some (JStr ''cat'')) demo_store = (Inr ''r'', st')
     \<and> verifyPushSecretAuth (\<lambda>s. ''h'' @ s) (Some ''PushSecret hr'') ''cat'' ''d3'' st' = (Inr (), st'')
     \<and> (\<exists>err. verifyPushSecretAuth (\<lambda>s. ''h'' @ s) (Some ''PushSecret r'') ''cat'' ''d3'' st'' = (Inl err, st''))"
proof -
  from demo_registered obtain st' where reg:
    "registerPushToken (\<lambda>s. ''h'' @ s) ''r'' demo_token (Some (JStr ''cat'')) demo_store = (Inr ''r'', st')" by blast
  have "sanitizeQueryValue (Some (JStr ''cat'')) = Inr ''cat''" "sanitizeQueryValue (tbDevice demo_token) = Inr ''d3''"
    using safe_demo(2,3) by (simp_all add: safeId_def demo_token_def)
  from stored_digest_authenticates [OF reg this] obtain st'' err where
    "verifyPushSecretAuth (\<lambda>s. ''h'' @ s) (Some ''PushSecret hr'') ''cat'' ''d3'' st' = (Inr (), st'')"
    "verifyPushSecretAuth (\<lambda>s. ''h'' @ s) (Some ''PushSecret r'') ''cat'' ''d3'' st'' = (Inl err, st'')"
    by (auto simp: trim_def js_ws_def)
  with reg show ?thesis by blast
qed

definition demo_add :: add_body where
  "demo_add = \<lparr>abUser = Some (JStr ''cat''), abDevice = Some (JStr ''d3''), abGroup = Some (JStr ''g''),
     abTargetUser = Some (JStr ''bob''), abTargetDevice = Some (JStr ''d2''), abWelcome = Some (JStr ''w''),
     abRatchetTree = None, abCommit = Some (JStr ''c''), abBaseEpoch = Some (JNum 3)\<rparr>"

theorem background_add_never_commits_witness:
  "isNumber (abBaseEpoch demo_add)
   \<and> fst (sendWelcomeAndCommitPush (\<lambda>s. ''h'' @ s) demo_env (Some ''PushSecret r'') demo_add demo_store) \<noteq> Inr PushDone"
proof -
  obtain r st' eff where run:
    "sendWelcomeAndCommitPush (\<lambda>s. ''h'' @ s) demo_env (Some ''PushSecret r'') demo_add demo_store = (r, st', eff)"
    by (metis prod_cases3)
  have "isNumber (abBaseEpoch demo_add)" by (simp add: isNumber_def demo_add_def)
  with background_add_never_commits [OF this run] run show ?thesis by simp
qed

end
