(* ===== verification/Distribution.thy ===== *)
theory Distribution
  imports Commit_Log Group_Store Device_Registry
begin

text \<open>
  The routes other services call (\<open>controllers/internal.controller.ts\<close>): the groups that distribute
  the keys of a community or of a private salon, at most one per scope, and the deletion of an account.
  The secret shared by the services is an argument, as is the id the database draws for a new group.
  The route that pushes a notification only calls the push service and is not modelled.
\<close>

section \<open>Model\<close>

definition assertInternalSecret :: "string \<Rightarrow> string option \<Rightarrow> (http_error, unit) result" where
  "assertInternalSecret secret header =
     (if secret = [] \<or> orEmpty header \<noteq> secret then Inl (Forbidden []) else Inr ())"

definition groupInvitePreview ::
  "string \<Rightarrow> int \<Rightarrow> string \<Rightarrow> string option \<Rightarrow> delivery \<Rightarrow> (http_error, invite_preview) result" where
  "groupInvitePreview secret now token header st =
     bind_r (assertInternalSecret secret header) (\<lambda>_. Inr (resolveGroupInvitePreview now token st))"

definition userDeviceCount :: "string \<Rightarrow> int \<Rightarrow> string option \<Rightarrow> string \<Rightarrow> delivery \<Rightarrow> (http_error, nat) result" where
  "userDeviceCount secret now header user st =
     bind_r (assertInternalSecret secret header) (\<lambda>_.
       Inr (countIn (\<lambda>k. kUser k = user \<and> now - RETENTION_WINDOW_MS \<le> kCreatedAt k) (keyPackages st)))"

datatype dist_scope = Workspace | Channel

definition assertDistributionScope :: "string option \<Rightarrow> (http_error, dist_scope) result" where
  "assertDistributionScope scope =
     (if scope = Some ''workspace'' then Inr Workspace
      else if scope = Some ''channel'' then Inr Channel
      else Inl (BadRequest ''scope''))"

text \<open>The column of a scope, and the condition it gives.\<close>

definition scopeColumn :: "dist_scope \<Rightarrow> group_row \<Rightarrow> string option" where
  "scopeColumn sc r = (case sc of Workspace \<Rightarrow> gDistributionWorkspaceId r | Channel \<Rightarrow> gDistributionChannelId r)"

definition distributionWhere :: "dist_scope \<Rightarrow> string \<Rightarrow> group_row \<Rightarrow> bool" where
  "distributionWhere sc sid r \<longleftrightarrow> scopeColumn sc r = Some sid"

definition findDistribution :: "dist_scope \<Rightarrow> string \<Rightarrow> delivery \<Rightarrow> group_row option" where
  "findDistribution sc sid st = find (distributionWhere sc sid) (groups st)"

text \<open>The insertion: the partial unique index on the column refuses a second row of the scope.\<close>

definition insertDistribution :: "env \<Rightarrow> string \<Rightarrow> dist_scope \<Rightarrow> string \<Rightarrow> delivery \<Rightarrow> delivery option" where
  "insertDistribution e newId sc sid st =
     (if list_ex (distributionWhere sc sid) (groups st) then None
      else Some (st\<lparr>groups := groups st @ [\<lparr>gId = newId, gName = None, gImageMediaId = None, gIsGroup = True,
        gDistributionWorkspaceId = (case sc of Workspace \<Rightarrow> Some sid | Channel \<Rightarrow> None),
        gDistributionChannelId = (case sc of Workspace \<Rightarrow> None | Channel \<Rightarrow> Some sid),
        gActiveEpoch = 0, gDeletedAt = None, gUpdatedAt = eNow e\<rparr>]\<rparr>))"

text \<open>From the insertion on: a request that lost the race reads the row of the winner.\<close>

definition createAbsent ::
  "env \<Rightarrow> string \<Rightarrow> dist_scope \<Rightarrow> string \<Rightarrow> delivery \<Rightarrow> (http_error, string \<times> bool) result \<times> delivery" where
  "createAbsent e newId sc sid st =
     (case insertDistribution e newId sc sid st of
        Some st' \<Rightarrow> (Inr (newId, True), st')
      | None \<Rightarrow> (case findDistribution sc sid st of
                   None \<Rightarrow> (Inl (ServerError ''insert''), st)
                 | Some raced \<Rightarrow> (Inr (gId raced, False), st)))"

definition createDistributionGroup ::
  "string \<Rightarrow> env \<Rightarrow> string \<Rightarrow> string option \<Rightarrow> string option \<Rightarrow> string option \<Rightarrow> delivery
     \<Rightarrow> (http_error, string \<times> bool) result \<times> delivery" where
  "createDistributionGroup secret e newId header scope scopeId st =
     attempt
       (bind_r (assertInternalSecret secret header) (\<lambda>_.
        bind_r (assertDistributionScope scope) (\<lambda>sc.
          let sid = trim (orEmpty scopeId) in
          if sid = [] then Inl (BadRequest ''scopeId is required'') else Inr (sc, sid))))
       (\<lambda>(sc, sid). case findDistribution sc sid st of
            Some existing \<Rightarrow> (Inr (gId existing, False), st)
          | None \<Rightarrow> createAbsent e newId sc sid st) st"

record dist_view =
  dvGroup :: string
  dvInfo :: "string option"
  dvBase :: "int option"
  dvEpoch :: nat
  dvDevices :: "string list option"

definition scopeOf :: "string \<Rightarrow> string option \<Rightarrow> string option \<Rightarrow> (http_error, dist_scope) result" where
  "scopeOf secret header scope =
     bind_r (assertInternalSecret secret header) (\<lambda>_. assertDistributionScope scope)"

definition getDistributionGroup ::
  "string \<Rightarrow> string option \<Rightarrow> string \<Rightarrow> string option \<Rightarrow> string option \<Rightarrow> delivery
     \<Rightarrow> (http_error, dist_view option) result" where
  "getDistributionGroup secret scope sid header user st =
     bind_r (scopeOf secret header scope) (\<lambda>sc.
       Inr (case findDistribution sc sid st of
              None \<Rightarrow> None
            | Some gr \<Rightarrow>
                (let info = readGroupInfo (gId gr) st; asked = toLowerCase (trim (orEmpty user)) in
                 Some \<lparr>dvGroup = gId gr, dvInfo = map_option fst info, dvBase = map_option (fst \<circ> snd) info,
                       dvEpoch = gActiveEpoch gr,
                       dvDevices = (if asked = [] then None
                         else Some (map dDevice (filter (\<lambda>m. dGroup m = gId gr \<and> dUser m = asked) (devices st))))\<rparr>)))"

record publish_body =
  ubGroupInfo :: "json option"
  ubBaseEpoch :: "json option"
  ubUser :: "string option"
  ubDevice :: "string option"

text \<open>
  The base goes to an integer column: a number that is not one is refused by the database, unless the
  base that is stored is already ahead of it.
\<close>

definition publishBase :: "string \<Rightarrow> string \<Rightarrow> rat \<Rightarrow> delivery \<Rightarrow> (http_error, bool) result \<times> delivery" where
  "publishBase g info base st =
     (if isInteger (JNum base) then (case putGroupInfo g info \<lfloor>base\<rfloor> st of (stored, st') \<Rightarrow> (Inr stored, st'))
      else (case findInfo g st of
              Some existing \<Rightarrow> if of_int (iBase existing) \<ge> base then (Inr False, st) else (Inl (ServerError ''integer''), st)
            | None \<Rightarrow> (Inl (ServerError ''integer''), st)))"

definition publishRequest ::
  "string \<Rightarrow> string option \<Rightarrow> string option \<Rightarrow> string \<Rightarrow> publish_body \<Rightarrow> delivery
     \<Rightarrow> (http_error, string \<times> string \<times> rat \<times> string \<times> string) result" where
  "publishRequest secret header scope sid body st =
     bind_r (assertInternalSecret secret header) (\<lambda>_.
       case (ubGroupInfo body, ubBaseEpoch body) of
         (Some (JStr info), Some (JNum base)) \<Rightarrow>
           if \<not> truthy (ubUser body) \<or> \<not> truthy (ubDevice body) then Inl (BadRequest ''userId and deviceId'')
           else bind_r (assertDistributionScope scope) (\<lambda>sc.
             case findDistribution sc sid st of
               None \<Rightarrow> Inl (BadRequest ''No distribution group'')
             | Some gr \<Rightarrow> Inr (gId gr, info, base, orEmpty (ubUser body), orEmpty (ubDevice body)))
       | _ \<Rightarrow> Inl (BadRequest ''groupInfo and baseEpoch''))"

definition publishDistributionGroupInfo ::
  "string \<Rightarrow> env \<Rightarrow> string option \<Rightarrow> string \<Rightarrow> string option \<Rightarrow> publish_body \<Rightarrow> delivery
     \<Rightarrow> (http_error, bool) result \<times> delivery" where
  "publishDistributionGroupInfo secret e scope sid header body st =
     attempt (publishRequest secret header scope sid body st)
       (\<lambda>(g, info, base, user, device).
          case publishBase g info base st of
            (Inl err, st1) \<Rightarrow> (Inl err, st1)
          | (Inr stored, st1) \<Rightarrow> (Inr stored, fst (activateDeviceMembership e user device g False st1))) st"

record eviction =
  evEvicted :: bool
  evMemberships :: nat
  evQueued :: nat
  evRoutes :: nat

definition evictFromDistributionGroup ::
  "string \<Rightarrow> string option \<Rightarrow> string \<Rightarrow> string \<Rightarrow> string option \<Rightarrow> delivery
     \<Rightarrow> (http_error, eviction) result \<times> delivery" where
  "evictFromDistributionGroup secret scope sid user header st =
     attempt (scopeOf secret header scope)
       (\<lambda>sc. case findDistribution sc sid st of
            None \<Rightarrow> (Inr \<lparr>evEvicted = False, evMemberships = 0, evQueued = 0, evRoutes = 0\<rparr>, st)
          | Some gr \<Rightarrow>
              (let g = gId gr;
                   mine = (\<lambda>m. dGroup m = g \<and> dUser m = user);
                   mineQ = (\<lambda>q. qGroup q = Some g \<and> qRecipient q = user);
                   toRemove = filter (\<lambda>k. prefix (user @ '':'') k) (routing st g);
                   st1 = st\<lparr>devices := delete_where mine (devices st), queue := delete_where mineQ (queue st)\<rparr>
               in (Inr \<lparr>evEvicted = True, evMemberships = countIn mine (devices st),
                        evQueued = countIn mineQ (queue st), evRoutes = length toRemove\<rparr>,
                   if toRemove = [] then st1 else srem g toRemove st1))) st"

definition deleteDistributionGroup ::
  "string \<Rightarrow> env \<Rightarrow> string option \<Rightarrow> string \<Rightarrow> string option \<Rightarrow> delivery \<Rightarrow> (http_error, bool) result \<times> delivery" where
  "deleteDistributionGroup secret e scope sid header st =
     attempt (scopeOf secret header scope)
       (\<lambda>sc. case findDistribution sc sid st of
            None \<Rightarrow> (Inr False, st)
          | Some gr \<Rightarrow>
              (let st1 = st\<lparr>groups := update_where (\<lambda>r. gId r = gId gr)
                     (\<lambda>r. r\<lparr>gDeletedAt := Some (eNow e), gDistributionWorkspaceId := None,
                            gDistributionChannelId := None, gUpdatedAt := eNow e\<rparr>) (groups st)\<rparr>
               in (Inr True, deleteGroupRedisKeys [gId gr] (snd (deleteGroupOwnedRows [gId gr] True st1))))) st"

section \<open>The deletion of an account\<close>

definition dmsOf :: "string \<Rightarrow> delivery \<Rightarrow> string list" where
  "dmsOf user st =
     map gId (filter (\<lambda>r. gId r \<in> set (map mGroup (filter (\<lambda>m. mUser m = user) (members st))) \<and> \<not> gIsGroup r) (groups st))"

definition multiGroupsOf :: "string \<Rightarrow> delivery \<Rightarrow> string list" where
  "multiGroupsOf user st =
     map gId (filter (\<lambda>r. gId r \<in> set (map mGroup (filter (\<lambda>m. mUser m = user) (members st))) \<and> gIsGroup r) (groups st))"

definition deleteDms :: "env \<Rightarrow> string list \<Rightarrow> delivery \<Rightarrow> delivery" where
  "deleteDms e dms st =
     (if dms = [] then st
      else deleteGroupRedisKeys dms (snd (deleteGroupOwnedRows dms True
        (st\<lparr>groups := update_where (\<lambda>r. gId r \<in> set dms)
              (\<lambda>r. r\<lparr>gDeletedAt := Some (eNow e), gUpdatedAt := eNow e\<rparr>) (groups st)\<rparr>))))"

definition unrouteFrom :: "string \<Rightarrow> string list \<Rightarrow> delivery \<Rightarrow> delivery" where
  "unrouteFrom user multi st =
     (let ds = map kDevice (filter (\<lambda>k. kUser k = user) (keyPackages st)) in
      if ds = [] then st else fold (\<lambda>g. srem g (map (memberKey user) ds)) multi st)"

definition deleteOwnRecords :: "string \<Rightarrow> delivery \<Rightarrow> delivery" where
  "deleteOwnRecords user st =
     st\<lparr>keyPackages := delete_where (\<lambda>k. kUser k = user) (keyPackages st),
        oneTimeKeyPackages := delete_where (\<lambda>k. oUser k = user) (oneTimeKeyPackages st),
        members := delete_where (\<lambda>m. mUser m = user) (members st),
        devices := delete_where (\<lambda>m. dUser m = user) (devices st),
        queue := delete_where (\<lambda>q. qRecipient q = user) (queue st),
        pushTokens := delete_where (\<lambda>p. pUser p = user) (pushTokens st),
        pinVerifiers := delete_where (\<lambda>p. nUser p = user) (pinVerifiers st),
        revokedDevices := delete_where (\<lambda>r. rUser r = user) (revokedDevices st)\<rparr>"

definition deleteUserData ::
  "string \<Rightarrow> env \<Rightarrow> string \<Rightarrow> string option \<Rightarrow> delivery \<Rightarrow> (http_error, unit) result \<times> delivery" where
  "deleteUserData secret e user header st =
     attempt (assertInternalSecret secret header)
       (\<lambda>_. (Inr (), deleteOwnRecords user (unrouteFrom user (multiGroupsOf user st) (deleteDms e (dmsOf user st) st)))) st"

section \<open>Requests that create the group of a scope at the same time\<close>

definition scopeGroups :: "dist_scope \<Rightarrow> string \<Rightarrow> delivery \<Rightarrow> string list" where
  "scopeGroups sc sid st = map gId (filter (distributionWhere sc sid) (groups st))"

lemma findDistribution_scope:
  "findDistribution sc sid st = None \<longleftrightarrow> scopeGroups sc sid st = []"
  "findDistribution sc sid st = Some r \<Longrightarrow> \<exists>gs. scopeGroups sc sid st = gId r # gs"
proof -
  have "(find p rs = None) = (filter p rs = [])" "find p rs = Some r \<Longrightarrow> \<exists>qs. filter p rs = r # qs"
    for p and rs :: "group_row list"
    by (induction rs) (auto split: if_splits)
  then show "findDistribution sc sid st = None \<longleftrightarrow> scopeGroups sc sid st = []"
    "findDistribution sc sid st = Some r \<Longrightarrow> \<exists>gs. scopeGroups sc sid st = gId r # gs"
    unfolding findDistribution_def scopeGroups_def by (simp, fastforce)
qed

lemma createAbsent_scope:
  "scopeGroups sc sid st = [] \<Longrightarrow>
     \<exists>st'. createAbsent e newId sc sid st = (Inr (newId, True), st') \<and> scopeGroups sc sid st' = [newId]"
  "scopeGroups sc sid st = [g] \<Longrightarrow> createAbsent e newId sc sid st = (Inr (g, False), st)"
proof -
  assume "scopeGroups sc sid st = []"
  then have none: "filter (distributionWhere sc sid) (groups st) = []" by (simp add: scopeGroups_def)
  then have "\<not> list_ex (distributionWhere sc sid) (groups st)" by (simp add: list_ex_iff filter_empty_conv)
  with none show "\<exists>st'. createAbsent e newId sc sid st = (Inr (newId, True), st') \<and> scopeGroups sc sid st' = [newId]"
    by (simp add: createAbsent_def insertDistribution_def scopeGroups_def distributionWhere_def scopeColumn_def split: dist_scope.split)
next
  assume one: "scopeGroups sc sid st = [g]"
  then obtain r where r: "findDistribution sc sid st = Some r" using findDistribution_scope(1) [of sc sid st] by auto
  with one findDistribution_scope(2) [OF r] have "gId r = g" by simp
  moreover have "list_ex (distributionWhere sc sid) (groups st)"
    using find_Some_iff_mem [OF r [unfolded findDistribution_def]] by (auto simp: list_ex_iff)
  ultimately show "createAbsent e newId sc sid st = (Inr (g, False), st)"
    using r by (simp add: createAbsent_def insertDistribution_def)
qed

text \<open>
  Any number of requests for one scope: each reads the scope, and one that found nothing inserts later.
  In between, every other operation of the service may run that leaves the rows of the scope alone.
\<close>

datatype create_pc = Asking | Missing | Told string bool | Failed

record create_world =
  cwState :: delivery
  cwPc :: "nat \<Rightarrow> create_pc"

definition readScope :: "dist_scope \<Rightarrow> string \<Rightarrow> delivery \<Rightarrow> create_pc" where
  "readScope sc sid st = (case findDistribution sc sid st of None \<Rightarrow> Missing | Some r \<Rightarrow> Told (gId r) False)"

definition answered :: "(http_error, string \<times> bool) result \<Rightarrow> create_pc" where
  "answered r = (case r of Inl _ \<Rightarrow> Failed | Inr (g, c) \<Rightarrow> Told g c)"

inductive create_step :: "(nat \<Rightarrow> env) \<Rightarrow> (nat \<Rightarrow> string) \<Rightarrow> dist_scope \<Rightarrow> string \<Rightarrow> create_world \<Rightarrow> create_world \<Rightarrow> bool"
  for envs ids sc sid where
  reads: "cwPc w i = Asking \<Longrightarrow>
     create_step envs ids sc sid w (w\<lparr>cwPc := (cwPc w)(i := readScope sc sid (cwState w))\<rparr>)"
| inserts: "cwPc w i = Missing \<Longrightarrow> createAbsent (envs i) (ids i) sc sid (cwState w) = (r, st') \<Longrightarrow>
     create_step envs ids sc sid w (w\<lparr>cwState := st', cwPc := (cwPc w)(i := answered r)\<rparr>)"
| others: "scopeGroups sc sid st' = scopeGroups sc sid (cwState w) \<Longrightarrow>
     create_step envs ids sc sid w (w\<lparr>cwState := st'\<rparr>)"

definition create_inv :: "dist_scope \<Rightarrow> string \<Rightarrow> create_world \<Rightarrow> bool" where
  "create_inv sc sid w \<longleftrightarrow>
     scopeGroups sc sid (cwState w) = [] \<and> (\<forall>i. cwPc w i \<in> {Asking, Missing})
   \<or> (\<exists>g j. scopeGroups sc sid (cwState w) = [g] \<and> cwPc w j = Told g True
        \<and> (\<forall>i. i \<noteq> j \<longrightarrow> cwPc w i \<in> {Asking, Missing, Told g False}))"

lemma create_inv_step:
  assumes "create_step envs ids sc sid w w'" and "create_inv sc sid w"
  shows "create_inv sc sid w'"
  using assms
proof (induction rule: create_step.induct)
  case (reads w i)
  have empty: "readScope sc sid (cwState w) = Missing" if "scopeGroups sc sid (cwState w) = []"
    using that findDistribution_scope(1) [of sc sid "cwState w"] by (simp add: readScope_def)
  have full: "readScope sc sid (cwState w) = Told g False" if "scopeGroups sc sid (cwState w) = [g]" for g
    using that findDistribution_scope [of sc sid "cwState w"] by (auto simp: readScope_def split: option.split)
  from reads(2) [unfolded create_inv_def] show ?case
  proof (elim disjE conjE exE)
    assume "scopeGroups sc sid (cwState w) = []" and "\<forall>i. cwPc w i \<in> {Asking, Missing}"
    with empty show ?thesis by (simp add: create_inv_def)
  next
    fix g j
    assume one: "scopeGroups sc sid (cwState w) = [g]" and j: "cwPc w j = Told g True"
      and pcs: "\<forall>i. i \<noteq> j \<longrightarrow> cwPc w i \<in> {Asking, Missing, Told g False}"
    have "i \<noteq> j" using reads(1) j by auto
    with one j pcs full [OF one] show ?thesis by (auto simp: create_inv_def intro!: exI [of _ j])
  qed
next
  case (inserts w i r st')
  from inserts(3) [unfolded create_inv_def] show ?case
  proof (elim disjE conjE exE)
    assume none: "scopeGroups sc sid (cwState w) = []" and pcs: "\<forall>i. cwPc w i \<in> {Asking, Missing}"
    from createAbsent_scope(1) [OF none, of "envs i" "ids i"] inserts(2)
    have "r = Inr (ids i, True)" "scopeGroups sc sid st' = [ids i]" by auto
    with pcs show ?thesis by (auto simp: create_inv_def answered_def)
  next
    fix g j
    assume one: "scopeGroups sc sid (cwState w) = [g]" and j: "cwPc w j = Told g True"
      and pcs: "\<forall>i. i \<noteq> j \<longrightarrow> cwPc w i \<in> {Asking, Missing, Told g False}"
    from createAbsent_scope(2) [OF one, of "envs i" "ids i"] inserts(2) have "r = Inr (g, False)" "st' = cwState w" by auto
    moreover have "i \<noteq> j" using inserts(1) j by auto
    ultimately show ?thesis using one j pcs by (auto simp: create_inv_def answered_def intro!: exI [of _ j])
  qed
next
  case (others st' w)
  then show ?case by (simp add: create_inv_def)
qed

lemma create_inv_steps: "(create_step envs ids sc sid)\<^sup>*\<^sup>* w w' \<Longrightarrow> create_inv sc sid w \<Longrightarrow> create_inv sc sid w'"
  by (induction rule: rtranclp_induct) (blast intro: create_inv_step)+

text \<open>
  C38: One group per scope, however the requests interleave. When several requests ask for the group of a
  scope that has none, as soon as one of them is answered exactly one request is told that it created
  the group, every request answered is told the same group, and that group is the only one of the scope.
\<close>

theorem one_group_per_scope:
  assumes "(create_step envs ids sc sid)\<^sup>*\<^sup>* \<lparr>cwState = st, cwPc = (\<lambda>_. Asking)\<rparr> w"
    and "findDistribution sc sid st = None" and "cwPc w i = Told g c"
  shows "scopeGroups sc sid (cwState w) = [g] \<and> (\<exists>!j. cwPc w j = Told g True)
    \<and> (\<forall>j g' c'. cwPc w j = Told g' c' \<longrightarrow> g' = g)"
proof -
  have "create_inv sc sid \<lparr>cwState = st, cwPc = (\<lambda>_. Asking)\<rparr>"
    using assms(2) findDistribution_scope(1) [of sc sid st] by (simp add: create_inv_def)
  from create_inv_steps [OF assms(1) this] assms(3) obtain h j where
    one: "scopeGroups sc sid (cwState w) = [h]" and j: "cwPc w j = Told h True"
    and others: "\<And>k. k \<noteq> j \<Longrightarrow> cwPc w k \<in> {Asking, Missing, Told h False}"
    unfolding create_inv_def by (metis create_pc.distinct(3) create_pc.distinct(7) insertE singletonD)
  have told: "k = j \<and> b \<or> f = h \<and> \<not> b" if "cwPc w k = Told f b" for k f b
    using others [of k] that j by (cases "k = j") auto
  have same: "f = h" if "cwPc w k = Told f b" for k f b using told [OF that] that j by auto
  have "\<exists>!k. cwPc w k = Told h True" using j told by blast
  with one same assms(3) show ?thesis by metis
qed

section \<open>The end of a scope\<close>

lemma update_where_mem: "r \<in> set (update_where q f rs) \<Longrightarrow> \<exists>r0 \<in> set rs. r = (if q r0 then f r0 else r0)"
  by (auto simp: update_where_def)

lemma owned_residue:
  "\<not> residue g (deleteGroupRedisKeys [g] (snd (deleteGroupOwnedRows [g] b st)))"
  by (simp add: residue_def deleteGroupRedisKeys_def deleteGroupOwnedRows_def list_ex_delete_where)

lemma owned_groups [simp]: "groups (deleteGroupRedisKeys gs (snd (deleteGroupOwnedRows gs b st))) = groups st"
  by (simp add: deleteGroupRedisKeys_def deleteGroupOwnedRows_def)

text \<open>
  A scope is released with its group. After the group of a scope is deleted by the route meant for
  it, the scope has no group, the group has nothing left in the tables or in Redis but a tombstone, and
  the next request creates a new group.
\<close>

theorem scope_released:
  assumes "deleteDistributionGroup secret e scope sid header st = (Inr True, st')"
    and "assertDistributionScope scope = Inr sc" and "scopeGroups sc sid st = [g]"
    and "trim sid = sid" and "sid \<noteq> []"
  shows "scopeGroups sc sid st' = [] \<and> \<not> residue g st'
    \<and> (\<forall>r. findGroup g st' = Some r \<longrightarrow> gDeletedAt r = Some (eNow e))
    \<and> (\<exists>st''. createDistributionGroup secret e2 newId header scope (Some sid) st' = (Inr (newId, True), st''))"
proof -
  from assms(3) obtain gr where gr: "findDistribution sc sid st = Some gr"
    using findDistribution_scope(1) [of sc sid st] by auto
  with assms(3) findDistribution_scope(2) [OF gr] have g: "gId gr = g" by simp
  have ok: "assertInternalSecret secret header = Inr ()"
    using assms(1) by (cases "assertInternalSecret secret header") (simp_all add: deleteDistributionGroup_def attempt_def scopeOf_def)
  define f where "f = (\<lambda>r :: group_row. r\<lparr>gDeletedAt := Some (eNow e), gDistributionWorkspaceId := None,
                            gDistributionChannelId := None, gUpdatedAt := eNow e\<rparr>)"
  define st1 where "st1 = st\<lparr>groups := update_where (\<lambda>r. gId r = g) f (groups st)\<rparr>"
  have st': "st' = deleteGroupRedisKeys [g] (snd (deleteGroupOwnedRows [g] True st1))"
    using assms(1) unfolding deleteDistributionGroup_def attempt_def scopeOf_def ok
    by (simp add: assms(2) gr g st1_def f_def)
  have rows: "groups st' = update_where (\<lambda>r. gId r = g) f (groups st)" by (simp add: st' st1_def)
  have only: "gId r = g" if "r \<in> set (groups st)" "distributionWhere sc sid r" for r
  proof -
    from that have "gId r \<in> set (scopeGroups sc sid st)" by (auto simp: scopeGroups_def)
    with assms(3) show ?thesis by simp
  qed
  have gone: "\<not> distributionWhere sc sid (f r)" for r
    by (simp add: f_def distributionWhere_def scopeColumn_def split: dist_scope.split)
  have "\<not> distributionWhere sc sid r" if "r \<in> set (groups st')" for r
  proof -
    from that obtain r0 where "r0 \<in> set (groups st)" "r = (if gId r0 = g then f r0 else r0)"
      unfolding rows by (blast dest: update_where_mem)
    with only [of r0] gone show ?thesis by (cases "gId r0 = g") auto
  qed
  then have none: "scopeGroups sc sid st' = []" by (simp add: scopeGroups_def filter_empty_conv)
  moreover have "gDeletedAt r = Some (eNow e)" if found: "findGroup g st' = Some r" for r
  proof -
    from findGroup_Some [OF found] obtain r0 where "r = (if gId r0 = g then f r0 else r0)" "gId r = g"
      unfolding rows by (blast dest: update_where_mem)
    then show ?thesis by (cases "gId r0 = g") (simp_all add: f_def)
  qed
  moreover have "\<exists>st''. createDistributionGroup secret e2 newId header scope (Some sid) st' = (Inr (newId, True), st'')"
  proof -
    have "findDistribution sc sid st' = None" using none findDistribution_scope(1) [of sc sid st'] by simp
    with createAbsent_scope(1) [OF none, of e2 newId] show ?thesis
      unfolding createDistributionGroup_def attempt_def orEmpty_def ok
      using assms(2,4,5) by (elim exE conjE) simp
  qed
  moreover have "\<not> residue g st'" unfolding st' by (rule owned_residue)
  ultimately show ?thesis by simp
qed

text \<open>
  C39: A group of keys deleted by the ordinary route keeps its scope. The route that deletes a
  conversation takes any group and leaves the scope columns as they are; from then on a request for the
  group of the scope is handed the dead group, not a new one, and no message can be queued on it.
\<close>

theorem tombstone_keeps_scope:
  assumes "deleteGroup e groupId st = (Inr (), st')" and "sanitizeQueryValue groupId = Inr g"
    and "scopeGroups sc sid st = [g]" and "assertDistributionScope scope = Inr sc"
    and "assertInternalSecret secret header = Inr ()" and "trim sid = sid" and "sid \<noteq> []" and "g \<noteq> []"
  shows "createDistributionGroup secret e2 newId header scope (Some sid) st' = (Inr (g, False), st')
    \<and> enqueueForLiveGroup ids rows (Some g) st' = (Inl (Gone ''group_deleted''), st')"
  using assms(1)
proof (rule deleteGroup_Inr)
  fix k
  assume "sanitizeQueryValue groupId = Inr k"
    and rows: "groups st' = update_where (\<lambda>r. gId r = k) (\<lambda>r. r\<lparr>gDeletedAt := Some (eNow e), gUpdatedAt := eNow e\<rparr>) (groups st)"
  with assms(2) have k: "k = g" by simp
  have "scopeGroups sc sid st' = scopeGroups sc sid st"
  proof -
    have "map gId (filter (distributionWhere sc sid) (update_where q (\<lambda>r. r\<lparr>gDeletedAt := x, gUpdatedAt := t\<rparr>) rs)) =
        map gId (filter (distributionWhere sc sid) rs)" for q x t and rs :: "group_row list"
      by (induction rs) (auto simp: update_where_def distributionWhere_def scopeColumn_def split: dist_scope.split)
    then show ?thesis by (simp add: scopeGroups_def rows)
  qed
  with assms(3) have one: "scopeGroups sc sid st' = [g]" by simp
  then obtain gr where gr: "findDistribution sc sid st' = Some gr"
    using findDistribution_scope(1) [of sc sid st'] by auto
  with one findDistribution_scope(2) [OF gr] have "gId gr = g" by simp
  then have "createDistributionGroup secret e2 newId header scope (Some sid) st' = (Inr (g, False), st')"
    using gr assms(4-7) by (simp add: createDistributionGroup_def attempt_def orEmpty_def)
  moreover have "gDeletedAt r \<noteq> None" if "findGroup g st' = Some r" for r
  proof -
    from findGroup_Some [OF that] obtain r0 where
      "r = (if gId r0 = g then r0\<lparr>gDeletedAt := Some (eNow e), gUpdatedAt := eNow e\<rparr> else r0)" "gId r = g"
      unfolding rows k by (blast dest: update_where_mem)
    then show ?thesis by (cases "gId r0 = g") simp_all
  qed
  then have "enqueueForLiveGroup ids rows (Some g) st' = (Inl (Gone ''group_deleted''), st')" for rows
    using assms(8) by (cases "findGroup g st'") (simp_all add: enqueueForLiveGroup_def truthy_def orEmpty_def)
  ultimately show ?thesis by simp
qed

section \<open>What is left of a deleted account\<close>

lemma unrouteFrom_sel [simp]:
  "keyPackages (unrouteFrom u gs st) = keyPackages st" "oneTimeKeyPackages (unrouteFrom u gs st) = oneTimeKeyPackages st"
  "members (unrouteFrom u gs st) = members st" "devices (unrouteFrom u gs st) = devices st"
  "queue (unrouteFrom u gs st) = queue st" "pushTokens (unrouteFrom u gs st) = pushTokens st"
  "revokedDevices (unrouteFrom u gs st) = revokedDevices st" "groups (unrouteFrom u gs st) = groups st"
  "commitLog (unrouteFrom u gs st) = commitLog st" "groupInfos (unrouteFrom u gs st) = groupInfos st"
  using fold_srem_sel [where ?gs = gs] by (simp_all add: unrouteFrom_def Let_def)

lemma unrouteFrom_routing:
  "set (routing (unrouteFrom u gs st) h) = set (routing st h) -
     (if h \<in> set gs then {memberKey u (kDevice k) |k. k \<in> set (keyPackages st) \<and> kUser k = u} else {})"
proof -
  let ?ds = "map kDevice (filter (\<lambda>k. kUser k = u) (keyPackages st))"
  have ks: "set (map (memberKey u) ?ds) = {memberKey u (kDevice k) |k. k \<in> set (keyPackages st) \<and> kUser k = u}"
    by auto
  show ?thesis
  proof (cases "?ds = []")
    case True
    with ks have "{memberKey u (kDevice k) |k. k \<in> set (keyPackages st) \<and> kUser k = u} = {}" by simp
    moreover have "unrouteFrom u gs st = st" unfolding unrouteFrom_def Let_def True by simp
    ultimately show ?thesis by auto
  next
    case False
    then have "unrouteFrom u gs st = fold (\<lambda>g. srem g (map (memberKey u) ?ds)) gs st"
      unfolding unrouteFrom_def Let_def by (rule if_not_P)
    then show ?thesis using fold_srem_routing [of "map (memberKey u) ?ds" gs st h] unfolding ks by simp
  qed
qed

lemma deleteDms_sel:
  "members (deleteDms e dms st) = filter (\<lambda>m. mGroup m \<notin> set dms) (members st)"
  "devices (deleteDms e dms st) = filter (\<lambda>m. dGroup m \<notin> set dms) (devices st)"
  "queue (deleteDms e dms st) = filter (\<lambda>q. \<not> queuedIn dms q) (queue st)"
  "commitLog (deleteDms e dms st) = filter (\<lambda>m. cGroup m \<notin> set dms) (commitLog st)"
  "keyPackages (deleteDms e dms st) = keyPackages st"
  "oneTimeKeyPackages (deleteDms e dms st) = oneTimeKeyPackages st"
  "pushTokens (deleteDms e dms st) = pushTokens st" "revokedDevices (deleteDms e dms st) = revokedDevices st"
  "groups (deleteDms e dms st) = update_where (\<lambda>r. gId r \<in> set dms)
     (\<lambda>r. r\<lparr>gDeletedAt := Some (eNow e), gUpdatedAt := eNow e\<rparr>) (groups st)"
  "routing (deleteDms e dms st) h = (if h \<in> set dms then [] else routing st h)"
  by (simp_all add: deleteDms_def deleteGroupOwnedRows_def deleteGroupRedisKeys_def delete_where_def
      update_where_def queuedIn_def filter_id_conv split: option.split)

lemma deleteUserData_Inr:
  "deleteUserData secret e user header st = (Inr (), st') \<Longrightarrow>
     st' = deleteOwnRecords user (unrouteFrom user (multiGroupsOf user st) (deleteDms e (dmsOf user st) st))"
  by (cases "assertInternalSecret secret header") (simp_all add: deleteUserData_def attempt_def)

lemma deleteDms_exact:
  "deleteDms e dms st = st\<lparr>
     groups := map (\<lambda>r. if gId r \<in> set dms then r\<lparr>gDeletedAt := Some (eNow e), gUpdatedAt := eNow e\<rparr> else r) (groups st),
     members := filter (\<lambda>m. mGroup m \<notin> set dms) (members st),
     devices := filter (\<lambda>m. dGroup m \<notin> set dms) (devices st),
     queue := filter (\<lambda>q. \<not> queuedIn dms q) (queue st),
     commitLog := filter (\<lambda>c. cGroup c \<notin> set dms) (commitLog st),
     groupInfos := filter (\<lambda>i. iGroup i \<notin> set dms) (groupInfos st),
     invites := filter (\<lambda>v. vGroup v \<notin> set dms) (invites st),
     routing := (\<lambda>g. if g \<in> set dms then [] else routing st g),
     history := (\<lambda>g. if g \<in> set dms then [] else history st g),
     pendingWelcome := (\<lambda>g. if g \<in> set dms then [] else pendingWelcome st g)\<rparr>"
proof (cases "dms = []")
  case True
  then have "queuedIn dms q = False" for q by (simp add: queuedIn_def split: option.split)
  with True show ?thesis by (simp add: deleteDms_def)
next
  case False
  then show ?thesis
    by (intro delivery.equality)
      (simp_all add: deleteDms_def deleteGroupOwnedRows_def deleteGroupRedisKeys_def delete_where_def update_where_def fun_eq_iff)
qed

lemma unrouteFrom_exact:
  "unrouteFrom u gs st = st\<lparr>routing := (\<lambda>g. if g \<in> set gs
     then filter (\<lambda>k. \<nexists>r. r \<in> set (keyPackages st) \<and> kUser r = u \<and> k = memberKey u (kDevice r)) (routing st g)
     else routing st g)\<rparr>"
proof -
  let ?ds = "map kDevice (filter (\<lambda>k. kUser k = u) (keyPackages st))"
  have mem: "k \<in> set (map (memberKey u) ?ds) \<longleftrightarrow> (\<exists>r. r \<in> set (keyPackages st) \<and> kUser r = u \<and> k = memberKey u (kDevice r))" for k
    by auto
  have "unrouteFrom u gs st = fold (\<lambda>g. srem g (map (memberKey u) ?ds)) gs st"
  proof (cases "?ds = []")
    case True
    have "fold (\<lambda>g. srem g []) gs st = st" by (simp add: fold_srem cong: if_cong)
    then show ?thesis unfolding unrouteFrom_def Let_def True by simp
  next
    case False
    then show ?thesis unfolding unrouteFrom_def Let_def by (rule if_not_P)
  qed
  then show ?thesis unfolding fold_srem mem .
qed


text \<open>
  A deleted account stays in the routing set of every group it has no member row in. Its devices sit
  in the groups that distribute keys without such a row, so the keys of these sets are left behind, while
  the seats that justified them are deleted.
\<close>

theorem deleted_account_stays_routed:
  assumes "deleteUserData secret e user header st = (Inr (), st')"
    and "\<forall>m \<in> set (members st). \<not> (mGroup m = g \<and> mUser m = user)"
  shows "set (routing st' g) = set (routing st g) \<and> (\<forall>m \<in> set (devices st'). dUser m \<noteq> user)"
proof -
  note st' = deleteUserData_Inr [OF assms(1)]
  from assms(2) have "g \<notin> set (dmsOf user st)" "g \<notin> set (multiGroupsOf user st)"
    by (auto simp: dmsOf_def multiGroupsOf_def)
  then show ?thesis by (simp add: st' deleteOwnRecords_def unrouteFrom_routing deleteDms_sel delete_where_def)
qed

section \<open>Worked examples\<close>

definition demo_dist :: delivery where
  "demo_dist = demo_store\<lparr>groups := [demo_group ''g'', (demo_group ''k'')\<lparr>gDistributionWorkspaceId := Some ''w''\<rparr>],
     devices := [demo_device ''ann'' ''d1'' ''k'' Active],
     routing := (\<lambda>_. [])(''k'' := [memberKey ''ann'' ''d1''])\<rparr>"

lemma demo_scope: "assertDistributionScope (Some ''workspace'') = Inr Workspace"
  "assertInternalSecret ''s'' (Some ''s'') = Inr ()" "trim ''w'' = ''w''"
  by (simp_all add: assertDistributionScope_def assertInternalSecret_def orEmpty_def trim_def js_ws_def)

lemma demo_scopeGroups: "scopeGroups Workspace ''w'' demo_dist = [''k'']"
  by (simp add: scopeGroups_def demo_dist_def demo_group_def distributionWhere_def scopeColumn_def)

lemma demo_created:
  "createAbsent demo_env ''n'' Workspace ''w'' demo_store = (Inr (''n'', True), the (insertDistribution demo_env ''n'' Workspace ''w'' demo_store))"
  by (simp add: createAbsent_def insertDistribution_def demo_store_def demo_group_def distributionWhere_def scopeColumn_def)

theorem one_group_per_scope_witness:
  "\<exists>w. (create_step (\<lambda>_. demo_env) (\<lambda>_. ''n'') Workspace ''w'')\<^sup>*\<^sup>* \<lparr>cwState = demo_store, cwPc = (\<lambda>_. Asking)\<rparr> w
     \<and> cwPc w 0 = Told ''n'' True \<and> scopeGroups Workspace ''w'' (cwState w) = [''n'']"
proof -
  have none: "findDistribution Workspace ''w'' demo_store = None"
    by (simp add: findDistribution_def demo_store_def demo_group_def distributionWhere_def scopeColumn_def)
  let ?w0 = "\<lparr>cwState = demo_store, cwPc = (\<lambda>_. Asking)\<rparr>"
  let ?w1 = "?w0\<lparr>cwPc := (cwPc ?w0)(0 := readScope Workspace ''w'' (cwState ?w0))\<rparr>"
  let ?st = "the (insertDistribution demo_env ''n'' Workspace ''w'' demo_store)"
  let ?w2 = "?w1\<lparr>cwState := ?st, cwPc := (cwPc ?w1)(0 := answered (Inr (''n'', True)))\<rparr>"
  have "create_step (\<lambda>_. demo_env) (\<lambda>_. ''n'') Workspace ''w'' ?w0 ?w1" by (rule create_step.reads) simp
  moreover have "create_step (\<lambda>_. demo_env) (\<lambda>_. ''n'') Workspace ''w'' ?w1 ?w2"
    using demo_created none by (intro create_step.inserts) (simp_all add: readScope_def)
  ultimately have run: "(create_step (\<lambda>_. demo_env) (\<lambda>_. ''n'') Workspace ''w'')\<^sup>*\<^sup>* ?w0 ?w2"
    by (rule rtranclp.rtrancl_into_rtrancl [OF r_into_rtranclp])
  have pc: "cwPc ?w2 0 = Told ''n'' True" by (simp add: answered_def)
  from one_group_per_scope [OF run none pc] run pc show ?thesis by blast
qed

theorem scope_released_witness:
  "\<exists>st'. deleteDistributionGroup ''s'' demo_env (Some ''workspace'') ''w'' (Some ''s'') demo_dist = (Inr True, st')
     \<and> scopeGroups Workspace ''w'' st' = [] \<and> \<not> residue ''k'' st'"
proof -
  obtain r where "findDistribution Workspace ''w'' demo_dist = Some r"
    using demo_scopeGroups findDistribution_scope(1) [of Workspace "''w''" demo_dist] by auto
  then have "\<exists>st'. deleteDistributionGroup ''s'' demo_env (Some ''workspace'') ''w'' (Some ''s'') demo_dist = (Inr True, st')"
    by (simp add: deleteDistributionGroup_def attempt_def scopeOf_def demo_scope Let_def)
  then obtain st' where run:
    "deleteDistributionGroup ''s'' demo_env (Some ''workspace'') ''w'' (Some ''s'') demo_dist = (Inr True, st')" ..
  from scope_released [OF run demo_scope(1) demo_scopeGroups demo_scope(3)] run show ?thesis by blast
qed

theorem tombstone_keeps_scope_witness:
  "\<exists>st'. deleteGroup demo_env (Some (JStr ''k'')) demo_dist = (Inr (), st')
     \<and> createDistributionGroup ''s'' demo_env ''n'' (Some ''s'') (Some ''workspace'') (Some ''w'') st' = (Inr (''k'', False), st')"
proof -
  have k: "sanitizeQueryValue (Some (JStr ''k'')) = Inr ''k''"
    by (simp add: sanitizeQueryValue_def SAFE_QUERY_VALUE_REGEX_def safe_char_def alnum_def trim_def js_ws_def)
  then have "\<exists>st'. deleteGroup demo_env (Some (JStr ''k'')) demo_dist = (Inr (), st')" by (simp add: deleteGroup_def Let_def)
  then obtain st' where run: "deleteGroup demo_env (Some (JStr ''k'')) demo_dist = (Inr (), st')" ..
  from tombstone_keeps_scope [OF run k demo_scopeGroups demo_scope(1) demo_scope(2,3)] run show ?thesis by blast
qed

lemma demo_deletion: "\<exists>st'. deleteUserData ''s'' demo_env ''ann'' (Some ''s'') demo_dist = (Inr (), st')"
  by (simp add: deleteUserData_def attempt_def demo_scope)


theorem deleted_account_stays_routed_witness:
  "\<exists>st'. deleteUserData ''s'' demo_env ''ann'' (Some ''s'') demo_dist = (Inr (), st')
     \<and> memberKey ''ann'' ''d1'' \<in> set (routing st' ''k'')"
proof -
  obtain st' where run: "deleteUserData ''s'' demo_env ''ann'' (Some ''s'') demo_dist = (Inr (), st')"
    using demo_deletion by blast
  have "\<forall>m \<in> set (members demo_dist). \<not> (mGroup m = ''k'' \<and> mUser m = ''ann'')" by (simp add: demo_dist_def demo_defs)
  from deleted_account_stays_routed [OF run this] have "set (routing st' ''k'') = set (routing demo_dist ''k'')" by blast
  then show ?thesis using run by (simp add: demo_dist_def)
qed

end
