(* ===== verification/Maintenance.thy ===== *)
theory Maintenance
  imports Commit_Log Device_Registry
begin

text \<open>
  The periodic jobs of the delivery service (\<open>app.controller.ts\<close>) and the sweep that runs each of them
  once after a start. Two jobs read the instant a row was last written, a column no request reads: it is
  an argument of these jobs, a function of the row. The pages of keys that Redis \<open>SCAN\<close> returns are an
  argument too; Redis documents that a full iteration returns every key present throughout.
  The two reports change nothing; what they name in the log is their result.
\<close>

section \<open>Jobs\<close>

text \<open>The instant before which a device, a message or a tombstone is out of the window.\<close>

definition retentionCutoff :: "int \<Rightarrow> int" where
  "retentionCutoff now = now - RETENTION_WINDOW_MS"

definition liveDeviceKeys :: "int \<Rightarrow> delivery \<Rightarrow> string list" where
  "liveDeviceKeys now st =
     map (\<lambda>k. memberKey (kUser k) (kDevice k))
       (filter (\<lambda>k. kDevice k \<in> set (map dDevice (filter (\<lambda>m. dStatus m = Active) (devices st)))
          \<and> retentionCutoff now \<le> kCreatedAt k) (keyPackages st))"

definition resetDevice :: "device_row \<Rightarrow> delivery \<Rightarrow> delivery" where
  "resetDevice m st =
     srem (dGroup m) [deviceKey m]
       (st\<lparr>devices := update_where (\<lambda>r. deviceIndex r = deviceIndex m) (\<lambda>r. r\<lparr>dStatus := Pending\<rparr>) (devices st)\<rparr>)"

definition detectStaleDevices :: "int \<Rightarrow> delivery \<Rightarrow> delivery" where
  "detectStaleDevices now st =
     (let candidates = filter (\<lambda>m. dStatus m = Active) (devices st); live = liveDeviceKeys now st
      in fold resetDevice (filter (\<lambda>m. deviceKey m \<notin> set live) candidates) st)"

definition cleanupExpiredQueuedMessages :: "int \<Rightarrow> delivery \<Rightarrow> delivery" where
  "cleanupExpiredQueuedMessages now st =
     st\<lparr>queue := delete_where (\<lambda>q. qCreatedAt q < retentionCutoff now) (queue st)\<rparr>"

definition expiredDevices :: "int \<Rightarrow> delivery \<Rightarrow> (string \<times> string) list" where
  "expiredDevices now st =
     (let expired = filter (\<lambda>k. kCreatedAt k < retentionCutoff now) (keyPackages st);
          active = map dDevice (filter (\<lambda>m. dStatus m = Active) (devices st))
      in map (\<lambda>k. (kUser k, kDevice k)) (filter (\<lambda>k. kDevice k \<notin> set active) expired))"

definition orphanDevices :: "delivery \<Rightarrow> (string \<times> string) list" where
  "orphanDevices st =
     map (\<lambda>m. (dUser m, dDevice m))
       (filter (\<lambda>m. \<not> list_ex (\<lambda>k. kDevice k = dDevice m \<and> kUser k = dUser m) (keyPackages st)) (devices st))"

text \<open>
  The map of the devices to purge is keyed by the text of the pair: a second device with the same text
  takes the place of the first.
\<close>

definition staleDevices :: "int \<Rightarrow> delivery \<Rightarrow> (string \<times> string) list" where
  "staleDevices now st =
     fold (\<lambda>p ps. upsert_row (\<lambda>(u, d). memberKey u d) p (\<lambda>_. p) ps) (expiredDevices now st @ orphanDevices st) []"

definition cleanupStaleDevices :: "int \<Rightarrow> delivery \<Rightarrow> delivery" where
  "cleanupStaleDevices now st = fold (\<lambda>(u, d) s. snd (purgeDeviceFootprint u d s)) (staleDevices now st) st"

definition STALE_PENDING_INVITATION_MS :: int where
  "STALE_PENDING_INVITATION_MS = 14 * 24 * 60 * 60 * 1000"

definition dropPendingSeat :: "device_row \<Rightarrow> delivery \<Rightarrow> delivery" where
  "dropPendingSeat m st =
     srem (dGroup m) [deviceKey m]
       (st\<lparr>devices := delete_where (\<lambda>r. dUser r = dUser m \<and> deviceIndex r = deviceIndex m) (devices st)\<rparr>)"

definition cleanupStalePendingInvitations :: "(device_row \<Rightarrow> int) \<Rightarrow> int \<Rightarrow> delivery \<Rightarrow> delivery" where
  "cleanupStalePendingInvitations writtenAt now st =
     fold dropPendingSeat (filter (\<lambda>m. dStatus m = Pending \<and> writtenAt m < now - STALE_PENDING_INVITATION_MS) (devices st)) st"

definition TOMBSTONE_MAX_AGE_MS :: int where
  "TOMBSTONE_MAX_AGE_MS = 90 * 24 * 60 * 60 * 1000"

definition deadSince :: "int \<Rightarrow> group_row \<Rightarrow> bool" where
  "deadSince cutoff r \<longleftrightarrow> (case gDeletedAt r of None \<Rightarrow> False | Some t \<Rightarrow> t < cutoff)"

definition cleanupSoftDeletedGroups :: "int \<Rightarrow> delivery \<Rightarrow> delivery" where
  "cleanupSoftDeletedGroups now st =
     (let ids = map gId (filter (deadSince (now - TOMBSTONE_MAX_AGE_MS)) (groups st)) in
      if ids = [] then st
      else let st1 = snd (deleteGroupOwnedRows ids False st)
           in deleteGroupRedisKeys ids (st1\<lparr>groups := delete_where (\<lambda>r. gId r \<in> set ids) (groups st1)\<rparr>))"

definition PUSH_TOKEN_MAX_AGE_MS :: int where
  "PUSH_TOKEN_MAX_AGE_MS = 90 * 24 * 60 * 60 * 1000"

definition cleanupStalePushTokens :: "(push_row \<Rightarrow> int) \<Rightarrow> int \<Rightarrow> delivery \<Rightarrow> delivery" where
  "cleanupStalePushTokens writtenAt now st =
     st\<lparr>pushTokens := delete_where (\<lambda>p. writtenAt p < now - PUSH_TOKEN_MAX_AGE_MS) (pushTokens st)\<rparr>"

definition cleanupExpiredRevocations :: "int \<Rightarrow> delivery \<Rightarrow> delivery" where
  "cleanupExpiredRevocations now st =
     st\<lparr>revokedDevices := delete_where (\<lambda>r. rRevokedAt r < activeRevocationCutoff now) (revokedDevices st)\<rparr>"

text \<open>The groups named by the keys of the scan that are in no row.\<close>

definition cleanupOrphanedRedisGroups :: "string list list \<Rightarrow> delivery \<Rightarrow> delivery" where
  "cleanupOrphanedRedisGroups pages st =
     (let orphaned = concat (map (filter (\<lambda>g. g \<notin> set (map gId (groups st)))) pages)
      in st\<lparr>routing := (\<lambda>g. if g \<in> set orphaned then [] else routing st g)\<rparr>)"

definition cleanupOrphanedMemberRows :: "delivery \<Rightarrow> delivery" where
  "cleanupOrphanedMemberRows st =
     (let known = set (map gId (groups st));
          ids = uniq (filter (\<lambda>g. g \<notin> known) (map mGroup (members st)) @ filter (\<lambda>g. g \<notin> known) (map dGroup (devices st)))
      in if ids = [] then st else snd (purgeOrphanGroups ids st))"

section \<open>The report on the depth of the queue\<close>

definition QUEUE_DEPTH_WARN_PER_DEVICE :: nat where
  "QUEUE_DEPTH_WARN_PER_DEVICE = 2000"

definition QUEUE_DEPTH_REPORT_TOP_N :: nat where
  "QUEUE_DEPTH_REPORT_TOP_N = 5"

definition QUEUE_BYTES_WARN_PER_DEVICE :: nat where
  "QUEUE_BYTES_WARN_PER_DEVICE = 32 * 1024 * 1024"

record queue_depth =
  qdDevice :: string
  qdDepth :: nat
  qdBytes :: nat
  qdOldest :: int

text \<open>The sum of the lengths of the payloads; a row without one counts for nothing.\<close>

definition queuedBytes :: "queued_row list \<Rightarrow> nat" where
  "queuedBytes rows = sum_list (map (\<lambda>q. case qProto q of None \<Rightarrow> 0 | Some p \<Rightarrow> length p) rows)"

definition depthOf :: "string \<Rightarrow> delivery \<Rightarrow> queue_depth" where
  "depthOf d st =
     (let rows = filter (\<lambda>q. qDevice q = d) (queue st)
      in \<lparr>qdDevice = d, qdDepth = length rows, qdBytes = queuedBytes rows, qdOldest = Min (set (map qCreatedAt rows))\<rparr>)"

definition heaviestQueues :: "delivery \<Rightarrow> queue_depth list" where
  "heaviestQueues st =
     take QUEUE_DEPTH_REPORT_TOP_N
       (sort_key (\<lambda>r. - int (qdBytes r)) (map (\<lambda>d. depthOf d st) (uniq (map qDevice (queue st)))))"

text \<open>The devices warned about, each with the last upload of a key package; of several the last read counts.\<close>

definition reportQueueDepth :: "delivery \<Rightarrow> (queue_depth \<times> int option) list" where
  "reportQueueDepth st =
     map (\<lambda>r. (r, map_option kCreatedAt (find (\<lambda>k. kDevice k = qdDevice r) (rev (keyPackages st)))))
       (filter (\<lambda>r. qdDepth r \<ge> QUEUE_DEPTH_WARN_PER_DEVICE \<or> qdBytes r \<ge> QUEUE_BYTES_WARN_PER_DEVICE) (heaviestQueues st))"

section \<open>The report on devices without a leaf\<close>

definition STRANDED_PENDING_MEMBERSHIP_MS :: int where
  "STRANDED_PENDING_MEMBERSHIP_MS = 60 * 60 * 1000"

definition strandedPending :: "(device_row \<Rightarrow> int) \<Rightarrow> int \<Rightarrow> delivery \<Rightarrow> device_row list" where
  "strandedPending writtenAt now st =
     filter (\<lambda>m. dStatus m = Pending \<and> writtenAt m < now - STRANDED_PENDING_MEMBERSHIP_MS) (devices st)"

definition owedAWelcome :: "delivery \<Rightarrow> device_row \<Rightarrow> bool" where
  "owedAWelcome st m \<longleftrightarrow>
     list_ex (\<lambda>q. qIsWelcome q = Some True \<and> qDevice q = dDevice m \<and> qGroup q = Some (dGroup m)) (queue st)"

text \<open>The memberships that wait for a Welcome, those never added, those removed and not added back.\<close>

definition reportStrandedDeviceMemberships ::
  "(device_row \<Rightarrow> int) \<Rightarrow> int \<Rightarrow> delivery \<Rightarrow> device_row list \<times> device_row list \<times> device_row list" where
  "reportStrandedDeviceMemberships writtenAt now st =
     (let pending = strandedPending writtenAt now st; stranded = filter (\<lambda>m. \<not> owedAWelcome st m) pending
      in (filter (owedAWelcome st) pending, filter (\<lambda>m. dKickedAt m = None) stranded,
          filter (\<lambda>m. dKickedAt m \<noteq> None) stranded))"

section \<open>The sweep\<close>

definition runInitialSweep ::
  "(device_row \<Rightarrow> int) \<Rightarrow> (push_row \<Rightarrow> int) \<Rightarrow> string list list \<Rightarrow> int \<Rightarrow> delivery \<Rightarrow> delivery" where
  "runInitialSweep seatAt tokenAt pages now st =
     (let st1 = detectStaleDevices now st;
          st2 = cleanupExpiredQueuedMessages now st1;
          st3 = cleanupStaleDevices now st2;
          st4 = cleanupOrphanedRedisGroups pages st3;
          st5 = cleanupSoftDeletedGroups now st4;
          st6 = cleanupStalePushTokens tokenAt now st5;
          st7 = cleanupOrphanedMemberRows st6;
          st8 = cleanupStalePendingInvitations seatAt now st7;
          st9 = cleanupExpiredRevocations now st8
      in snd (pruneExpiredCommitLog now st9))"

section \<open>What each job leaves\<close>

lemma fold_resetDevice:
  "devices (fold resetDevice ms st) =
     map (\<lambda>r. if deviceIndex r \<in> deviceIndex ` set ms then r\<lparr>dStatus := Pending\<rparr> else r) (devices st)"
  "groups (fold resetDevice ms st) = groups st" "members (fold resetDevice ms st) = members st"
  "queue (fold resetDevice ms st) = queue st" "keyPackages (fold resetDevice ms st) = keyPackages st"
  "revokedDevices (fold resetDevice ms st) = revokedDevices st"
  "set (routing (fold resetDevice ms st) g) \<subseteq> set (routing st g)"
proof (induction ms arbitrary: st)
  case (Cons m ms)
  have reset: "devices (resetDevice m st) = map (\<lambda>r. if deviceIndex r = deviceIndex m then r\<lparr>dStatus := Pending\<rparr> else r) (devices st)" for st
    by (simp add: resetDevice_def update_where_def)
  have keep: "groups (resetDevice m st) = groups st" "members (resetDevice m st) = members st"
    "queue (resetDevice m st) = queue st" "keyPackages (resetDevice m st) = keyPackages st"
    "revokedDevices (resetDevice m st) = revokedDevices st" "set (routing (resetDevice m st) g) \<subseteq> set (routing st g)" for st
    by (auto simp: resetDevice_def table_simps)
  { case 1 show ?case by (auto simp: Cons.IH reset deviceIndex_def) }
  { case 2 show ?case by (simp add: Cons.IH keep) }
  { case 3 show ?case by (simp add: Cons.IH keep) }
  { case 4 show ?case by (simp add: Cons.IH keep) }
  { case 5 show ?case by (simp add: Cons.IH keep) }
  { case 6 show ?case by (simp add: Cons.IH keep) }
  { case 7 show ?case using Cons.IH(7) [of "resetDevice m st"] keep(6) [of st] by simp }
qed simp_all

lemma fold_dropPendingSeat:
  "devices (fold dropPendingSeat ms st) =
     filter (\<lambda>r. (dUser r, deviceIndex r) \<notin> (\<lambda>m. (dUser m, deviceIndex m)) ` set ms) (devices st)"
  "groups (fold dropPendingSeat ms st) = groups st" "members (fold dropPendingSeat ms st) = members st"
  "queue (fold dropPendingSeat ms st) = queue st" "keyPackages (fold dropPendingSeat ms st) = keyPackages st"
  "revokedDevices (fold dropPendingSeat ms st) = revokedDevices st"
  "set (routing (fold dropPendingSeat ms st) g) \<subseteq> set (routing st g)"
proof (induction ms arbitrary: st)
  case (Cons m ms)
  have drop: "devices (dropPendingSeat m st) = filter (\<lambda>r. (dUser r, deviceIndex r) \<noteq> (dUser m, deviceIndex m)) (devices st)" for st
    by (auto simp: dropPendingSeat_def delete_where_def)
  have keep: "groups (dropPendingSeat m st) = groups st" "members (dropPendingSeat m st) = members st"
    "queue (dropPendingSeat m st) = queue st" "keyPackages (dropPendingSeat m st) = keyPackages st"
    "revokedDevices (dropPendingSeat m st) = revokedDevices st" "set (routing (dropPendingSeat m st) g) \<subseteq> set (routing st g)" for st
    by (auto simp: dropPendingSeat_def table_simps)
  { case 1 show ?case by (auto simp: Cons.IH drop intro: filter_cong) }
  { case 2 show ?case by (simp add: Cons.IH keep) }
  { case 3 show ?case by (simp add: Cons.IH keep) }
  { case 4 show ?case by (simp add: Cons.IH keep) }
  { case 5 show ?case by (simp add: Cons.IH keep) }
  { case 6 show ?case by (simp add: Cons.IH keep) }
  { case 7 show ?case using Cons.IH(7) [of "dropPendingSeat m st"] keep(6) [of st] by simp }
qed simp_all

lemma fold_purge:
  "devices (fold (\<lambda>(u, d) s. snd (purgeDeviceFootprint u d s)) ps st) = filter (\<lambda>r. (dUser r, dDevice r) \<notin> set ps) (devices st)"
  "keyPackages (fold (\<lambda>(u, d) s. snd (purgeDeviceFootprint u d s)) ps st) = filter (\<lambda>k. (kUser k, kDevice k) \<notin> set ps) (keyPackages st)"
  "queue (fold (\<lambda>(u, d) s. snd (purgeDeviceFootprint u d s)) ps st) = filter (\<lambda>q. (qRecipient q, qDevice q) \<notin> set ps) (queue st)"
  "groups (fold (\<lambda>(u, d) s. snd (purgeDeviceFootprint u d s)) ps st) = groups st"
  "members (fold (\<lambda>(u, d) s. snd (purgeDeviceFootprint u d s)) ps st) = members st"
  "revokedDevices (fold (\<lambda>(u, d) s. snd (purgeDeviceFootprint u d s)) ps st) = revokedDevices st"
  "set (routing (fold (\<lambda>(u, d) s. snd (purgeDeviceFootprint u d s)) ps st) g) \<subseteq> set (routing st g)"
proof (induction ps arbitrary: st)
  case (Cons p ps)
  obtain u d where p: "p = (u, d)" by fastforce
  have sel: "devices (snd (purgeDeviceFootprint u d st)) = filter (\<lambda>r. (dUser r, dDevice r) \<noteq> (u, d)) (devices st)"
    "keyPackages (snd (purgeDeviceFootprint u d st)) = filter (\<lambda>k. (kUser k, kDevice k) \<noteq> (u, d)) (keyPackages st)"
    "queue (snd (purgeDeviceFootprint u d st)) = filter (\<lambda>q. (qRecipient q, qDevice q) \<noteq> (u, d)) (queue st)"
    "groups (snd (purgeDeviceFootprint u d st)) = groups st" "members (snd (purgeDeviceFootprint u d st)) = members st"
    "revokedDevices (snd (purgeDeviceFootprint u d st)) = revokedDevices st"
    "set (routing (snd (purgeDeviceFootprint u d st)) g) \<subseteq> set (routing st g)" for st
    using purge_sel [of u d st, OF surjective_pairing] by (simp_all add: delete_where_def)
  { case 1 show ?case by (auto simp: Cons.IH p sel intro: filter_cong) }
  { case 2 show ?case by (auto simp: Cons.IH p sel intro: filter_cong) }
  { case 3 show ?case by (auto simp: Cons.IH p sel intro: filter_cong) }
  { case 4 show ?case by (simp add: Cons.IH p sel) }
  { case 5 show ?case by (simp add: Cons.IH p sel) }
  { case 6 show ?case by (simp add: Cons.IH p sel) }
  { case 7 show ?case using Cons.IH(7) [of "snd (purgeDeviceFootprint u d st)"] sel(7) [of st] by (simp add: p) }
qed simp_all

lemma owned_tables:
  assumes "st' = deleteGroupRedisKeys gs (snd (deleteGroupOwnedRows gs b st))"
  shows "groups st' = groups st" "keyPackages st' = keyPackages st" "revokedDevices st' = revokedDevices st"
    "members st' = filter (\<lambda>m. mGroup m \<notin> set gs) (members st)"
    "devices st' = filter (\<lambda>m. dGroup m \<notin> set gs) (devices st)"
    "queue st' = filter (\<lambda>q. \<not> queuedIn gs q) (queue st)"
    "routing st' g = (if g \<in> set gs then [] else routing st g)"
  unfolding assms
  by (simp_all add: deleteGroupRedisKeys_def deleteGroupOwnedRows_def delete_where_def queuedIn_def split: option.split)

definition deadGroups :: "int \<Rightarrow> delivery \<Rightarrow> string set" where
  "deadGroups now st = gId ` {r \<in> set (groups st). deadSince (now - TOMBSTONE_MAX_AGE_MS) r}"

lemma soft_deleted_tables:
  assumes "st' = cleanupSoftDeletedGroups now st"
  shows "groups st' = filter (\<lambda>r. gId r \<notin> deadGroups now st) (groups st)"
    "keyPackages st' = keyPackages st" "revokedDevices st' = revokedDevices st"
    "members st' = filter (\<lambda>m. mGroup m \<notin> deadGroups now st) (members st)"
    "devices st' = filter (\<lambda>m. dGroup m \<notin> deadGroups now st) (devices st)"
    "queue st' = filter (\<lambda>q. \<forall>g. qGroup q = Some g \<longrightarrow> g \<notin> deadGroups now st) (queue st)"
    "routing st' g = (if g \<in> deadGroups now st then [] else routing st g)"
proof -
  define ids where "ids = map gId (filter (deadSince (now - TOMBSTONE_MAX_AGE_MS)) (groups st))"
  have dead: "deadGroups now st = set ids" by (simp add: deadGroups_def ids_def)
  have queued: "(\<not> queuedIn ids q) = (\<forall>g. qGroup q = Some g \<longrightarrow> g \<notin> set ids)" for q
    by (simp add: queuedIn_def split: option.split)
  define st1 where "st1 = snd (deleteGroupOwnedRows ids False st)"
  have st': "st' = (if ids = [] then st
      else deleteGroupRedisKeys ids (st1\<lparr>groups := delete_where (\<lambda>r. gId r \<in> set ids) (groups st1)\<rparr>))"
    unfolding assms cleanupSoftDeletedGroups_def ids_def [symmetric] Let_def st1_def by simp
  show "groups st' = filter (\<lambda>r. gId r \<notin> deadGroups now st) (groups st)"
    "keyPackages st' = keyPackages st" "revokedDevices st' = revokedDevices st"
    "members st' = filter (\<lambda>m. mGroup m \<notin> deadGroups now st) (members st)"
    "devices st' = filter (\<lambda>m. dGroup m \<notin> deadGroups now st) (devices st)"
    "queue st' = filter (\<lambda>q. \<forall>g. qGroup q = Some g \<longrightarrow> g \<notin> deadGroups now st) (queue st)"
    "routing st' g = (if g \<in> deadGroups now st then [] else routing st g)"
    unfolding dead queued [symmetric]
    by (simp_all add: st' st1_def deleteGroupRedisKeys_def deleteGroupOwnedRows_def delete_where_def queuedIn_def
        split: option.split)
qed

definition knownGroups :: "delivery \<Rightarrow> string set" where
  "knownGroups st = gId ` set (groups st)"

lemma orphan_row_tables:
  assumes "st' = cleanupOrphanedMemberRows st"
  shows "groups st' = groups st" "keyPackages st' = keyPackages st" "revokedDevices st' = revokedDevices st"
    "members st' = filter (\<lambda>m. mGroup m \<in> knownGroups st) (members st)"
    "devices st' = filter (\<lambda>m. dGroup m \<in> knownGroups st) (devices st)"
    "set (queue st') \<subseteq> set (queue st)"
    "q \<in> set (queue st) \<Longrightarrow> (\<forall>g. qGroup q = Some g \<longrightarrow> g \<in> knownGroups st) \<Longrightarrow> q \<in> set (queue st')"
    "set (routing st' g) \<subseteq> set (routing st g)"
proof -
  define ids where "ids = uniq (filter (\<lambda>g. g \<notin> set (map gId (groups st))) (map mGroup (members st))
      @ filter (\<lambda>g. g \<notin> set (map gId (groups st))) (map dGroup (devices st)))"
  have ids: "set ids = {g. g \<notin> knownGroups st \<and> (g \<in> mGroup ` set (members st) \<or> g \<in> dGroup ` set (devices st))}"
    by (auto simp: ids_def knownGroups_def)
  have none: "filter (\<lambda>g. g \<notin> set (map gId (filter (\<lambda>r. gId r \<in> set ids) (groups st)))) ids = ids"
    using ids by (auto simp: filter_id_conv knownGroups_def)
  define st1 where "st1 = deleteGroupRedisKeys ids (snd (deleteGroupOwnedRows ids False st))"
  note own = owned_tables [OF st1_def]
  have st': "st' = (if ids = [] then st else st1)"
    unfolding assms cleanupOrphanedMemberRows_def ids_def [symmetric] Let_def st1_def purgeOrphanGroups_def none by simp
  have same: "filter (\<lambda>m. mGroup m \<notin> set ids) (members st) = filter (\<lambda>m. mGroup m \<in> knownGroups st) (members st)"
    "filter (\<lambda>m. dGroup m \<notin> set ids) (devices st) = filter (\<lambda>m. dGroup m \<in> knownGroups st) (devices st)"
    by (auto simp: ids intro!: filter_cong)
  show "groups st' = groups st" "keyPackages st' = keyPackages st" "revokedDevices st' = revokedDevices st"
    using own by (simp_all add: st')
  show "members st' = filter (\<lambda>m. mGroup m \<in> knownGroups st) (members st)"
    "devices st' = filter (\<lambda>m. dGroup m \<in> knownGroups st) (devices st)"
    using own same by (cases "ids = []"; simp add: st')+
  show "set (queue st') \<subseteq> set (queue st)" "set (routing st' g) \<subseteq> set (routing st g)"
    using own by (simp_all add: st')
  show "q \<in> set (queue st) \<Longrightarrow> (\<forall>g. qGroup q = Some g \<longrightarrow> g \<in> knownGroups st) \<Longrightarrow> q \<in> set (queue st')"
    using own ids by (auto simp: st' queuedIn_def split: option.split)
qed

lemma set_fold_upsert:
  assumes "inj_on key (set xs \<union> set acc)"
  shows "set (fold (\<lambda>p ps. upsert_row key p (\<lambda>_. p) ps) xs acc) = set xs \<union> set acc"
  using assms
proof (induction xs arbitrary: acc)
  case (Cons p xs)
  have "set (upsert_row key p (\<lambda>_. p) acc) = insert p (set acc)"
  proof (cases "key p \<in> key ` set acc")
    case True
    then obtain q where q: "q \<in> set acc" "key q = key p" by auto
    have same: "r = p" if "r \<in> set acc" "key r = key p" for r
      using inj_onD [OF Cons.prems that(2)] that(1) by simp
    with q have "q = p" by blast
    with same show ?thesis using True q by (auto simp: upsert_row_def table_simps)
  qed (auto simp: upsert_row_def)
  moreover have "inj_on key (set xs \<union> insert p (set acc))" using Cons.prems by simp
  ultimately show ?case using Cons.IH by simp
qed simp

lemma set_staleDevices:
  assumes "colonFreeUsers st"
  shows "set (staleDevices now st) = set (expiredDevices now st) \<union> set (orphanDevices st)"
proof -
  let ?key = "\<lambda>(u, d). memberKey u d"
  have free: "CHR '':'' \<notin> set (fst p)" if "p \<in> set (expiredDevices now st @ orphanDevices st)" for p
    using that assms by (auto simp: expiredDevices_def orphanDevices_def colonFreeUsers_def Let_def)
  have "inj_on ?key (set (expiredDevices now st @ orphanDevices st) \<union> set [])"
  proof (rule inj_onI)
    fix p q
    assume "p \<in> set (expiredDevices now st @ orphanDevices st) \<union> set []"
      and "q \<in> set (expiredDevices now st @ orphanDevices st) \<union> set []" and "?key p = ?key q"
    then show "p = q" using free memberKey_inject [of "fst p" "fst q" "snd p" "snd q"] by (auto simp: case_prod_beta prod_eq_iff)
  qed
  from set_fold_upsert [OF this] show ?thesis by (simp add: staleDevices_def)
qed

section \<open>What the sweep guarantees\<close>

text \<open>The states of the sweep, one per job that changes a table of interest.\<close>

lemma sweep_states:
  obtains st1 st3 st4 st5 st7 where
    "st1 = fold resetDevice (filter (\<lambda>m. deviceKey m \<notin> set (liveDeviceKeys now st)) (filter (\<lambda>m. dStatus m = Active) (devices st))) st"
    "st3 = cleanupStaleDevices now (cleanupExpiredQueuedMessages now st1)"
    "st4 = cleanupOrphanedRedisGroups pages st3"
    "st5 = cleanupSoftDeletedGroups now st4"
    "st7 = cleanupOrphanedMemberRows (cleanupStalePushTokens tokenAt now st5)"
    "runInitialSweep seatAt tokenAt pages now st =
       snd (pruneExpiredCommitLog now (cleanupExpiredRevocations now (cleanupStalePendingInvitations seatAt now st7)))"
  by (simp add: runInitialSweep_def detectStaleDevices_def Let_def)

lemma prune_sel [simp]:
  "groups (snd (pruneExpiredCommitLog t st)) = groups st" "members (snd (pruneExpiredCommitLog t st)) = members st"
  "devices (snd (pruneExpiredCommitLog t st)) = devices st" "queue (snd (pruneExpiredCommitLog t st)) = queue st"
  "keyPackages (snd (pruneExpiredCommitLog t st)) = keyPackages st"
  "revokedDevices (snd (pruneExpiredCommitLog t st)) = revokedDevices st" "routing (snd (pruneExpiredCommitLog t st)) = routing st"
  by (simp_all add: pruneExpiredCommitLog_def Let_def)

text \<open>The rows of the device table in the end, in terms of those before.\<close>

lemma sweep_tables:
  fixes seatAt tokenAt pages now st
  defines "st' \<equiv> runInitialSweep seatAt tokenAt pages now st"
    and "stale \<equiv> deviceIndex ` {m \<in> set (devices st). dStatus m = Active \<and> deviceKey m \<notin> set (liveDeviceKeys now st)}"
  obtains ps ms where
    "ps = staleDevices now (cleanupExpiredQueuedMessages now (detectStaleDevices now st))"
    "devices st' = filter (\<lambda>r. (dUser r, dDevice r) \<notin> set ps \<and> dGroup r \<notin> deadGroups now st \<and> dGroup r \<in> knownGroups st'
        \<and> (dUser r, deviceIndex r) \<notin> (\<lambda>m. (dUser m, deviceIndex m)) ` set ms)
      (map (\<lambda>r. if deviceIndex r \<in> stale then r\<lparr>dStatus := Pending\<rparr> else r) (devices st))"
    "\<forall>m \<in> set ms. dStatus m = Pending \<and> seatAt m < now - STALE_PENDING_INVITATION_MS \<and> (\<exists>r \<in> set (devices st). m = r \<and> deviceIndex r \<notin> stale \<or> m = r\<lparr>dStatus := Pending\<rparr> \<and> deviceIndex r \<in> stale)"
    "keyPackages st' = filter (\<lambda>k. (kUser k, kDevice k) \<notin> set ps) (keyPackages st)"
    "groups st' = filter (\<lambda>r. gId r \<notin> deadGroups now st) (groups st)"
    "members st' = filter (\<lambda>m. mGroup m \<notin> deadGroups now st \<and> mGroup m \<in> knownGroups st') (members st)"
    "revokedDevices st' = filter (\<lambda>r. activeRevocationCutoff now \<le> rRevokedAt r) (revokedDevices st)"
    "set (queue st') \<subseteq> {q \<in> set (queue st). retentionCutoff now \<le> qCreatedAt q}"
    "\<forall>g. (\<forall>g. routing st g \<noteq> [] \<longrightarrow> g \<in> set (concat pages)) \<longrightarrow> g \<notin> knownGroups st' \<longrightarrow> routing st' g = []"
proof -
  obtain st1 st3 st4 st5 st7 where s1: "st1 = fold resetDevice (filter (\<lambda>m. deviceKey m \<notin> set (liveDeviceKeys now st)) (filter (\<lambda>m. dStatus m = Active) (devices st))) st"
    and s3: "st3 = cleanupStaleDevices now (cleanupExpiredQueuedMessages now st1)"
    and s4: "st4 = cleanupOrphanedRedisGroups pages st3"
    and s5: "st5 = cleanupSoftDeletedGroups now st4"
    and s7: "st7 = cleanupOrphanedMemberRows (cleanupStalePushTokens tokenAt now st5)"
    and s: "st' = snd (pruneExpiredCommitLog now (cleanupExpiredRevocations now (cleanupStalePendingInvitations seatAt now st7)))"
    unfolding st'_def by (rule sweep_states)
  have ids: "deviceIndex ` set (filter (\<lambda>m. deviceKey m \<notin> set (liveDeviceKeys now st)) (filter (\<lambda>m. dStatus m = Active) (devices st))) = stale"
    by (auto simp: stale_def)
  note t1 = fold_resetDevice [of "filter (\<lambda>m. deviceKey m \<notin> set (liveDeviceKeys now st)) (filter (\<lambda>m. dStatus m = Active) (devices st))" st,
      folded s1, unfolded ids]
  define ps where "ps = staleDevices now (cleanupExpiredQueuedMessages now st1)"
  note t3 = fold_purge [of ps "cleanupExpiredQueuedMessages now st1", folded cleanupStaleDevices_def [of now "cleanupExpiredQueuedMessages now st1", folded ps_def] s3]
  have t2: "devices (cleanupExpiredQueuedMessages now st1) = devices st1" "keyPackages (cleanupExpiredQueuedMessages now st1) = keyPackages st"
    "groups (cleanupExpiredQueuedMessages now st1) = groups st" "members (cleanupExpiredQueuedMessages now st1) = members st"
    "revokedDevices (cleanupExpiredQueuedMessages now st1) = revokedDevices st" "routing (cleanupExpiredQueuedMessages now st1) = routing st1"
    "queue (cleanupExpiredQueuedMessages now st1) = filter (\<lambda>q. retentionCutoff now \<le> qCreatedAt q) (queue st)"
    by (simp_all add: cleanupExpiredQueuedMessages_def t1 delete_where_def not_less)
  have t4: "devices st4 = devices st3" "keyPackages st4 = keyPackages st3" "groups st4 = groups st" "members st4 = members st"
    "revokedDevices st4 = revokedDevices st" "queue st4 = queue st3"
    by (simp_all add: s4 cleanupOrphanedRedisGroups_def Let_def t3 t2)
  have dead: "deadGroups now st4 = deadGroups now st" by (simp add: deadGroups_def t4)
  note t5 = soft_deleted_tables [OF s5, unfolded dead]
  let ?st6 = "cleanupStalePushTokens tokenAt now st5"
  have t6: "devices ?st6 = devices st5" "keyPackages ?st6 = keyPackages st5" "groups ?st6 = groups st5" "members ?st6 = members st5"
    "revokedDevices ?st6 = revokedDevices st5" "queue ?st6 = queue st5" "routing ?st6 = routing st5"
    by (simp_all add: cleanupStalePushTokens_def)
  note t7 = orphan_row_tables [OF s7]
  define ms where "ms = filter (\<lambda>m. dStatus m = Pending \<and> seatAt m < now - STALE_PENDING_INVITATION_MS) (devices st7)"
  note t8 = fold_dropPendingSeat [of ms st7, folded cleanupStalePendingInvitations_def [of seatAt now st7, folded ms_def]]
  have t9: "devices st' = devices (cleanupStalePendingInvitations seatAt now st7)"
    "keyPackages st' = keyPackages st7" "groups st' = groups st7" "members st' = members st7" "queue st' = queue st7"
    "revokedDevices st' = filter (\<lambda>r. activeRevocationCutoff now \<le> rRevokedAt r) (revokedDevices st7)"
    "set (routing st' g) \<subseteq> set (routing st7 g)" for g
    using t8(7) [of g] by (simp_all add: s cleanupExpiredRevocations_def t8 delete_where_def not_less)
  have groups: "groups st' = filter (\<lambda>r. gId r \<notin> deadGroups now st) (groups st)" by (simp add: t9 t7 t6 t5 t4)
  have known: "knownGroups ?st6 = knownGroups st'" by (simp add: knownGroups_def groups t6 t5 t4)
  show thesis
  proof (rule that [of ps ms])
    show "ps = staleDevices now (cleanupExpiredQueuedMessages now (detectStaleDevices now st))"
      by (simp add: ps_def s1 detectStaleDevices_def Let_def)
    show "devices st' = filter (\<lambda>r. (dUser r, dDevice r) \<notin> set ps \<and> dGroup r \<notin> deadGroups now st \<and> dGroup r \<in> knownGroups st'
        \<and> (dUser r, deviceIndex r) \<notin> (\<lambda>m. (dUser m, deviceIndex m)) ` set ms)
      (map (\<lambda>r. if deviceIndex r \<in> stale then r\<lparr>dStatus := Pending\<rparr> else r) (devices st))"
      unfolding t9 t8 t7 known t6 t5 t4 t3 t2 t1 by (simp add: filter_filter conj_ac)
    show "\<forall>m \<in> set ms. dStatus m = Pending \<and> seatAt m < now - STALE_PENDING_INVITATION_MS \<and> (\<exists>r \<in> set (devices st). m = r \<and> deviceIndex r \<notin> stale \<or> m = r\<lparr>dStatus := Pending\<rparr> \<and> deviceIndex r \<in> stale)"
      unfolding ms_def t7 known t6 t5 t4 t3 t2 t1 by auto
    show "keyPackages st' = filter (\<lambda>k. (kUser k, kDevice k) \<notin> set ps) (keyPackages st)"
      by (simp add: t9 t7 t6 t5 t4 t3 t2)
    show "members st' = filter (\<lambda>m. mGroup m \<notin> deadGroups now st \<and> mGroup m \<in> knownGroups st') (members st)"
      unfolding t9 t7 known t6 t5 t4 by (simp add: filter_filter conj_commute)
    show "revokedDevices st' = filter (\<lambda>r. activeRevocationCutoff now \<le> rRevokedAt r) (revokedDevices st)"
      by (simp add: t9 t7 t6 t5 t4)
    show "set (queue st') \<subseteq> {q \<in> set (queue st). retentionCutoff now \<le> qCreatedAt q}"
      using t7(6) by (auto simp: t9 t6 t5 t4 t3 t2)
    show "\<forall>g. (\<forall>g. routing st g \<noteq> [] \<longrightarrow> g \<in> set (concat pages)) \<longrightarrow> g \<notin> knownGroups st' \<longrightarrow> routing st' g = []"
    proof (intro allI impI)
      fix g
      assume scan: "\<forall>g. routing st g \<noteq> [] \<longrightarrow> g \<in> set (concat pages)" and unknown: "g \<notin> knownGroups st'"
      have "routing st5 g = []"
      proof (cases "g \<in> deadGroups now st")
        case False
        with unknown have "g \<notin> set (map gId (groups st3))" by (auto simp: knownGroups_def groups t3 t2)
        moreover have "set (routing st3 g) \<subseteq> set (routing st g)" using t3(7) [of g] t1(7) [of g] t2(6) by auto
        ultimately show ?thesis using scan by (cases "routing st g = []") (auto simp: t5(7) s4 cleanupOrphanedRedisGroups_def Let_def)
      qed (simp add: t5(7))
      with t7(8) [of g] t9(7) [of g] t6(7) show "routing st' g = []" by simp
    qed
  qed (fact groups)
qed

lemma detect_active:
  assumes "m \<in> set (devices (detectStaleDevices now st))" and "dStatus m = Active" and "colonFreeUsers st"
  shows "m \<in> set (devices st) \<and> (\<exists>k \<in> set (keyPackages st). kUser k = dUser m \<and> kDevice k = dDevice m \<and> retentionCutoff now \<le> kCreatedAt k)"
proof -
  from assms(1,2) have m: "m \<in> set (devices st)" and live: "deviceKey m \<in> set (liveDeviceKeys now st)"
    by (auto simp: detectStaleDevices_def Let_def fold_resetDevice split: if_splits)
  from live obtain k where k: "k \<in> set (keyPackages st)" "retentionCutoff now \<le> kCreatedAt k"
      "memberKey (dUser m) (dDevice m) = memberKey (kUser k) (kDevice k)"
    by (auto simp: liveDeviceKeys_def deviceKey_def)
  moreover from assms(3) m k(1) have "CHR '':'' \<notin> set (dUser m)" "CHR '':'' \<notin> set (kUser k)" by (auto simp: colonFreeUsers_def)
  ultimately show ?thesis using m memberKey_inject by metis
qed

text \<open>The jobs that bound a table by the instant its rows were written.\<close>

lemma later_jobs_tokens:
  "pushTokens (cleanupOrphanedMemberRows st) = pushTokens st"
  "pushTokens (fold dropPendingSeat ms st) = pushTokens st"
proof -
  show "pushTokens (cleanupOrphanedMemberRows st) = pushTokens st"
    by (simp add: cleanupOrphanedMemberRows_def purgeOrphanGroups_def deleteGroupRedisKeys_def deleteGroupOwnedRows_def Let_def)
  show "pushTokens (fold dropPendingSeat ms st) = pushTokens st"
    by (induction ms arbitrary: st) (simp_all add: dropPendingSeat_def srem_def)
qed

lemma prune_window:
  assumes "r \<in> set (commitLog (snd (pruneExpiredCommitLog t st)))"
  shows "t - COMMIT_LOG_RETENTION_MS \<le> cCreatedAt r"
    and "gr \<in> set (groups st) \<Longrightarrow> gId gr = cGroup r \<Longrightarrow> int (gActiveEpoch gr) - int COMMIT_LOG_MAX_PER_GROUP \<le> int (cBase r)"
  using assms by (auto simp: pruneExpiredCommitLog_def Let_def delete_where_def list_ex_iff not_less)

lemma sweep_windows:
  assumes "st' = runInitialSweep seatAt tokenAt pages now st"
  shows "\<forall>p \<in> set (pushTokens st'). now - PUSH_TOKEN_MAX_AGE_MS \<le> tokenAt p"
    and "\<forall>m \<in> set (devices st'). dStatus m = Pending \<longrightarrow> now - STALE_PENDING_INVITATION_MS \<le> seatAt m"
    and "\<forall>r \<in> set (commitLog st'). now - COMMIT_LOG_RETENTION_MS \<le> cCreatedAt r
      \<and> (\<forall>gr \<in> set (groups st'). gId gr = cGroup r \<longrightarrow> int (gActiveEpoch gr) - int COMMIT_LOG_MAX_PER_GROUP \<le> int (cBase r))"
proof -
  obtain st5 st7 where s7: "st7 = cleanupOrphanedMemberRows (cleanupStalePushTokens tokenAt now st5)"
    and s: "st' = snd (pruneExpiredCommitLog now (cleanupExpiredRevocations now (cleanupStalePendingInvitations seatAt now st7)))"
    unfolding assms by (rule sweep_states) blast
  define st8 where "st8 = cleanupExpiredRevocations now (cleanupStalePendingInvitations seatAt now st7)"
  define ms where "ms = filter (\<lambda>m. dStatus m = Pending \<and> seatAt m < now - STALE_PENDING_INVITATION_MS) (devices st7)"
  have tokens: "pushTokens st' = filter (\<lambda>p. now - PUSH_TOKEN_MAX_AGE_MS \<le> tokenAt p) (pushTokens st5)"
    by (simp add: s s7 cleanupExpiredRevocations_def cleanupStalePendingInvitations_def cleanupStalePushTokens_def
        later_jobs_tokens pruneExpiredCommitLog_def Let_def delete_where_def not_less)
  then show "\<forall>p \<in> set (pushTokens st'). now - PUSH_TOKEN_MAX_AGE_MS \<le> tokenAt p" by simp
  have "devices st' = devices (fold dropPendingSeat ms st7)"
    by (simp add: s cleanupExpiredRevocations_def cleanupStalePendingInvitations_def ms_def)
  then have seats: "devices st' = filter (\<lambda>r. (dUser r, deviceIndex r) \<notin> (\<lambda>m. (dUser m, deviceIndex m)) ` set ms) (devices st7)"
    by (simp only: fold_dropPendingSeat)
  show "\<forall>m \<in> set (devices st'). dStatus m = Pending \<longrightarrow> now - STALE_PENDING_INVITATION_MS \<le> seatAt m"
  proof (intro ballI impI)
    fix m
    assume m: "m \<in> set (devices st')" and pending: "dStatus m = Pending"
    from m seats have "m \<in> set (devices st7)" and "m \<notin> set ms" by auto
    with pending show "now - STALE_PENDING_INVITATION_MS \<le> seatAt m" by (simp add: ms_def not_less)
  qed
  have st': "st' = snd (pruneExpiredCommitLog now st8)" by (simp add: s st8_def)
  show "\<forall>r \<in> set (commitLog st'). now - COMMIT_LOG_RETENTION_MS \<le> cCreatedAt r
      \<and> (\<forall>gr \<in> set (groups st'). gId gr = cGroup r \<longrightarrow> int (gActiveEpoch gr) - int COMMIT_LOG_MAX_PER_GROUP \<le> int (cBase r))"
    using prune_window [of _ now st8] unfolding st' prune_sel by blast
qed



section \<open>Worked examples\<close>

lemma demo_colonFree: "colonFreeUsers demo_store"
  by (simp add: colonFreeUsers_def demo_defs)

definition demo_queued :: "string \<Rightarrow> string option \<Rightarrow> queued_row" where
  "demo_queued d p = \<lparr>qId = [], qRecipient = ''cat'', qDevice = d, qProto = p, qIsWelcome = None, qIsCommit = None,
     qSender = None, qSenderDevice = None, qGroup = Some ''g'', qType = None, qContent = None, qRatchetTree = None, qCreatedAt = 1\<rparr>"

definition demo_expired :: delivery where
  "demo_expired = demo_store\<lparr>queue := [demo_queued ''d3'' None]\<rparr>"



section \<open>A deep queue of small messages\<close>

lemma take_sort_rank:
  fixes f :: "'a \<Rightarrow> int"
  assumes "x \<in> set (take n (sort_key f xs))"
  shows "card {y \<in> set xs. f y < f x} < n"
proof -
  let ?ys = "sort_key f xs"
  obtain i where i: "i < length ?ys" "i < n" "?ys ! i = x" using assms by (auto simp: in_set_conv_nth)
  have "{y \<in> set xs. f y < f x} \<subseteq> (\<lambda>j. ?ys ! j) ` {..<i}"
  proof
    fix y assume "y \<in> {y \<in> set xs. f y < f x}"
    then have y: "y \<in> set ?ys" "f y < f x" by simp_all
    from y(1) [unfolded in_set_conv_nth] obtain j where j: "j < length ?ys" "?ys ! j = y" by blast
    have "j < i"
    proof (rule ccontr)
      assume "\<not> j < i"
      moreover have "sorted (map f ?ys)" by simp
      ultimately have "map f ?ys ! i \<le> map f ?ys ! j" using j(1) by (intro sorted_nth_mono) simp_all
      with i j y show False by simp
    qed
    with j show "y \<in> (\<lambda>j. ?ys ! j) ` {..<i}" by blast
  qed
  then have "card {y \<in> set xs. f y < f x} \<le> card {..<i}" by (meson card_image_le card_mono finite_imageI finite_lessThan le_trans)
  with i(2) show ?thesis by simp
qed

text \<open>
  A deep queue of small messages goes unreported. The report ranks the devices by the size of their
  queue and looks at the five largest only; a device that five others outweigh is not named, however
  many messages wait for it.
\<close>

theorem deep_queue_unreported:
  assumes "QUEUE_DEPTH_REPORT_TOP_N \<le> card {e \<in> set (map qDevice (queue st)). qdBytes (depthOf d st) < qdBytes (depthOf e st)}"
  shows "d \<notin> qdDevice ` fst ` set (reportQueueDepth st)"
proof
  assume "d \<in> qdDevice ` fst ` set (reportQueueDepth st)"
  then obtain r where r: "r \<in> set (heaviestQueues st)" "qdDevice r = d" by (auto simp: reportQueueDepth_def)
  let ?ds = "uniq (map qDevice (queue st))" and ?f = "\<lambda>r. - int (qdBytes r)"
  have ds: "set ?ds = set (map qDevice (queue st))" by simp
  have dev: "qdDevice (depthOf e st) = e" for e by (simp add: depthOf_def Let_def)
  have inj: "inj_on (\<lambda>d. depthOf d st) A" for A by (rule inj_on_inverseI [of _ qdDevice]) (rule dev)
  have "r \<in> set (map (\<lambda>d. depthOf d st) ?ds)" using r(1) unfolding heaviestQueues_def by (auto dest: in_set_takeD)
  then have r': "r = depthOf d st" using r(2) dev by auto
  have "card {y \<in> set (map (\<lambda>d. depthOf d st) ?ds). ?f y < ?f r} < QUEUE_DEPTH_REPORT_TOP_N"
    using r(1) unfolding heaviestQueues_def by (rule take_sort_rank)
  also have "{y \<in> set (map (\<lambda>d. depthOf d st) ?ds). ?f y < ?f r} =
      (\<lambda>d. depthOf d st) ` {e \<in> set (map qDevice (queue st)). qdBytes (depthOf d st) < qdBytes (depthOf e st)}"
    unfolding r' list.set_map ds by auto
  finally show False using assms by (simp add: card_image [OF inj])
qed

definition demo_deep :: delivery where
  "demo_deep = demo_store\<lparr>queue := replicate 2000 (demo_queued ''x'' None) @ map (\<lambda>d. demo_queued d (Some ''AAAA''))
     [''a'', ''b'', ''c'', ''d'', ''e'']\<rparr>"

theorem deep_queue_unreported_witness:
  "QUEUE_DEPTH_WARN_PER_DEVICE \<le> qdDepth (depthOf ''x'' demo_deep) \<and> ''x'' \<notin> qdDevice ` fst ` set (reportQueueDepth demo_deep)"
proof
  have x: "filter (\<lambda>q. qDevice q = ''x'') (queue demo_deep) = replicate 2000 (demo_queued ''x'' None)"
    by (simp add: demo_deep_def demo_queued_def)
  then show "QUEUE_DEPTH_WARN_PER_DEVICE \<le> qdDepth (depthOf ''x'' demo_deep)"
    by (simp add: depthOf_def Let_def QUEUE_DEPTH_WARN_PER_DEVICE_def)
  have "qdBytes (depthOf ''x'' demo_deep) = 0"
    by (simp add: depthOf_def Let_def x queuedBytes_def demo_queued_def sum_list_replicate)
  moreover have "qdBytes (depthOf e demo_deep) = 4" if "e \<in> {''a'', ''b'', ''c'', ''d'', ''e''}" for e
    using that by (auto simp: depthOf_def Let_def demo_deep_def demo_queued_def queuedBytes_def)
  ultimately have "{''a'', ''b'', ''c'', ''d'', ''e''} \<subseteq> {e \<in> set (map qDevice (queue demo_deep)).
      qdBytes (depthOf ''x'' demo_deep) < qdBytes (depthOf e demo_deep)}"
    by (auto simp: demo_deep_def demo_queued_def)
  then have "card {''a'', ''b'', ''c'', ''d'', ''e''} \<le> card {e \<in> set (map qDevice (queue demo_deep)).
      qdBytes (depthOf ''x'' demo_deep) < qdBytes (depthOf e demo_deep)}"
    by (rule card_mono [rotated]) simp
  then show "''x'' \<notin> qdDevice ` fst ` set (reportQueueDepth demo_deep)"
    by (intro deep_queue_unreported) (simp add: QUEUE_DEPTH_REPORT_TOP_N_def)
qed

end
