(* ===== verification/Store_Invariant.thy ===== *)
theory Store_Invariant
  imports Pending_Queue Pin_Verifier Push_Access Distribution Maintenance
begin

text \<open>
  What every request to the delivery service keeps of the store: the unique indexes of the tables, and,
  for the requests that are not about groups as such, the table of groups and the commit log. One lemma
  per request; the theory \<open>Service\<close> puts them together.
\<close>

section \<open>Unique indexes\<close>

definition keyed :: "delivery \<Rightarrow> bool" where
  "keyed st \<longleftrightarrow>
     distinct (map gId (groups st)) \<and> distinct (map memberIndex (members st)) \<and> distinct (map deviceIndex (devices st))
   \<and> distinct (map commitIndex (commitLog st)) \<and> distinct (map iGroup (groupInfos st))
   \<and> distinct (map dismissIndex (dismissed st)) \<and> distinct (map kpIndex (keyPackages st))
   \<and> distinct (map tokenIndex (pushTokens st)) \<and> distinct (map nUser (pinVerifiers st))
   \<and> distinct (map revokedIndex (revokedDevices st))"

lemma keys_delete [table_simps]: "distinct (map key rs) \<Longrightarrow> distinct (map key (delete_where p rs))"
  by (simp add: delete_where_def distinct_map_filter)

lemma keys_update [table_simps]:
  "(\<And>r. key (f r) = key r) \<Longrightarrow> map key (update_where p f rs) = map key rs"
  by (simp add: update_where_def)

lemma keys_ignore [table_simps]: "distinct (map key rs) \<Longrightarrow> distinct (map key (insert_or_ignore key r rs))"
  by (auto simp: insert_or_ignore_def)

lemma keys_upsert [table_simps]:
  "(\<And>r. key (f r) = key r) \<Longrightarrow> distinct (map key rs) \<Longrightarrow> distinct (map key (upsert_row key r f rs))"
  by (auto simp: upsert_row_def keys_update)

lemmas indexes = memberIndex_def deviceIndex_def commitIndex_def dismissIndex_def kpIndex_def tokenIndex_def revokedIndex_def

section \<open>Requests that leave the groups alone\<close>

definition liveId :: "string \<Rightarrow> delivery \<Rightarrow> bool" where
  "liveId g st \<longleftrightarrow> (\<exists>r \<in> set (groups st). gId r = g \<and> gDeletedAt r = None)"

definition ordinary :: "delivery \<Rightarrow> delivery \<Rightarrow> bool" where
  "ordinary st st' \<longleftrightarrow> groups st' = groups st \<and> commitLog st' = commitLog st
     \<and> (\<forall>q \<in> set (queue st'). q \<in> set (queue st) \<or> (\<exists>g. qGroup q = Some g \<and> liveId g st))
     \<and> (keyed st \<longrightarrow> keyed st')"

lemma ordinary_refl [simp]: "ordinary st st"
  by (simp add: ordinary_def)

lemma ordinary_trans: "ordinary st st1 \<Longrightarrow> ordinary st1 st2 \<Longrightarrow> ordinary st st2"
  unfolding ordinary_def liveId_def by metis

text \<open>The columns the indexes and the queue do not see.\<close>

lemma ordinary_fields [simp]:
  "ordinary st (st1\<lparr>routing := a\<rparr>) = ordinary st st1" "ordinary st (st1\<lparr>history := b\<rparr>) = ordinary st st1"
  "ordinary st (st1\<lparr>pendingWelcome := c\<rparr>) = ordinary st st1" "ordinary st (st1\<lparr>pendingNotify := d\<rparr>) = ordinary st st1"
  "ordinary st (st1\<lparr>commitLock := l\<rparr>) = ordinary st st1" "ordinary st (st1\<lparr>addLock := m\<rparr>) = ordinary st st1"
  "ordinary st (st1\<lparr>invites := i\<rparr>) = ordinary st st1" "ordinary st (st1\<lparr>oneTimeKeyPackages := j\<rparr>) = ordinary st st1"
  "ordinary st (sadd g ks st1) = ordinary st st1" "ordinary st (srem g ks st1) = ordinary st st1"
  by (simp_all add: ordinary_def keyed_def sadd_def srem_def)

lemma ordinary_tables:
  "ordinary st st1 \<Longrightarrow> (distinct (map memberIndex (members st1)) \<Longrightarrow> distinct (map memberIndex ms)) \<Longrightarrow> ordinary st (st1\<lparr>members := ms\<rparr>)"
  "ordinary st st1 \<Longrightarrow> (distinct (map deviceIndex (devices st1)) \<Longrightarrow> distinct (map deviceIndex ds)) \<Longrightarrow> ordinary st (st1\<lparr>devices := ds\<rparr>)"
  "ordinary st st1 \<Longrightarrow> (distinct (map iGroup (groupInfos st1)) \<Longrightarrow> distinct (map iGroup is)) \<Longrightarrow> ordinary st (st1\<lparr>groupInfos := is\<rparr>)"
  "ordinary st st1 \<Longrightarrow> (distinct (map dismissIndex (dismissed st1)) \<Longrightarrow> distinct (map dismissIndex xs)) \<Longrightarrow> ordinary st (st1\<lparr>dismissed := xs\<rparr>)"
  "ordinary st st1 \<Longrightarrow> (distinct (map kpIndex (keyPackages st1)) \<Longrightarrow> distinct (map kpIndex ks)) \<Longrightarrow> ordinary st (st1\<lparr>keyPackages := ks\<rparr>)"
  "ordinary st st1 \<Longrightarrow> (distinct (map tokenIndex (pushTokens st1)) \<Longrightarrow> distinct (map tokenIndex ps)) \<Longrightarrow> ordinary st (st1\<lparr>pushTokens := ps\<rparr>)"
  "ordinary st st1 \<Longrightarrow> (distinct (map nUser (pinVerifiers st1)) \<Longrightarrow> distinct (map nUser ns)) \<Longrightarrow> ordinary st (st1\<lparr>pinVerifiers := ns\<rparr>)"
  "ordinary st st1 \<Longrightarrow> (distinct (map revokedIndex (revokedDevices st1)) \<Longrightarrow> distinct (map revokedIndex rs)) \<Longrightarrow> ordinary st (st1\<lparr>revokedDevices := rs\<rparr>)"
  "ordinary st st1 \<Longrightarrow> set qs \<subseteq> set (queue st1) \<Longrightarrow> ordinary st (st1\<lparr>queue := qs\<rparr>)"
  by (auto simp: ordinary_def keyed_def)

lemma attempt_ordinary:
  "attempt r k st = (res, st') \<Longrightarrow> (\<And>x res st'. r = Inr x \<Longrightarrow> k x = (res, st') \<Longrightarrow> ordinary st st') \<Longrightarrow> ordinary st st'"
  by (erule attempt_cases) auto

lemma stable_ordinary:
  assumes "stable st' = stable st" and "devices st' = devices st"
    and "\<And>q. q \<in> set (queue st') \<Longrightarrow> q \<in> set (queue st) \<or> (\<exists>g. qGroup q = Some g \<and> liveId g st)"
  shows "ordinary st st'"
  using assms by (simp add: ordinary_def stable_def keyed_def)

lemma grows_live: "queue_grows st st' new \<Longrightarrow> q \<in> set (queue st') \<Longrightarrow> q \<in> set (queue st) \<or> (\<exists>g. qGroup q = Some g \<and> liveId g st)"
  by (auto simp: queue_grows_def liveId_def dest!: findGroup_Some)

lemma ordinary_trimmed: "ordinary st st' \<Longrightarrow> trimmedIds st' = trimmedIds st"
  by (simp add: ordinary_def trimmedIds_def)

section \<open>Messages, Welcomes, activation\<close>

lemma sendMessage_ordinary: "sendMessage e auth body st = (r, st', eff) \<Longrightarrow> trimmedIds st \<Longrightarrow> ordinary st st'"
  using sendMessage_grows grows_live by (intro stable_ordinary) (blast dest: sendMessage_stable)+

lemma upsertDevice_ordinary: "ordinary st st1 \<Longrightarrow> ordinary st (upsertDevice row st1)"
  unfolding upsertDevice_def by (rule ordinary_tables) (auto intro!: keys_upsert simp: deviceIndex_def)

lemma activate_ordinary:
  assumes "activateDeviceMembership e u d g again st = (st', eff)" and "g \<noteq> [] \<or> \<not> again"
  shows "ordinary st st'"
proof -
  define st2 where "st2 = sadd g [memberKey u d] (upsertDevice \<lparr>dUser = u, dDevice = d, dGroup = g, dStatus = Active,
                                dKickedAt = None, dCreatedAt = eNow e\<rparr> st)"
  have st2: "ordinary st st2" by (simp add: st2_def upsertDevice_ordinary)
  have redeliver: "ordinary st2 st3"
    if "redeliverMissedDuringActivationWindow e u d g since st2 = (r, st3, eff)" "g \<noteq> []" for since r st3 eff
    using redeliver_grows [OF that] grows_live redeliver_stable [OF that(1)] by (intro stable_ordinary) blast+
  have "st' = st \<or> st' = st2 \<or> g \<noteq> [] \<and> (\<exists>since r eff. redeliverMissedDuringActivationWindow e u d g since st2 = (r, st', eff))"
    using assms unfolding activateDeviceMembership_def Let_def st2_def [symmetric]
    by (auto split: if_splits prod.splits)
  with st2 redeliver ordinary_trans show ?thesis by (metis ordinary_refl)
qed

lemma enqueue_ordinary:
  assumes "enqueueForLiveGroup ids rows (Some g) st = (r, st')" and "g \<noteq> []" and "\<And>q. q \<in> set rows \<Longrightarrow> qGroup q = Some g"
  shows "ordinary st st'"
proof -
  obtain new where new: "queue_grows st st' new"
    using enqueue_grows [OF assms(1)] assms(2,3) by (auto simp: truthy_def orEmpty_def)
  then have "devices st' = devices st" by (simp add: queue_grows_def)
  from stable_ordinary [OF enqueue_stable [OF assms(1)] this grows_live [OF new]] show ?thesis .
qed

lemma outcome_ordinary:
  "(case r of Inl err \<Rightarrow> (Inl err, st, []) | Inr x \<Rightarrow> k x) = (res, st', eff) \<Longrightarrow>
     (\<And>x res st' eff. r = Inr x \<Longrightarrow> k x = (res, st', eff) \<Longrightarrow> ordinary st st') \<Longrightarrow> ordinary st st'"
  by (cases r) auto

lemma sendWelcome_ordinary: "sendWelcome e auth body st = (r, st', eff) \<Longrightarrow> ordinary st st'"
  unfolding sendWelcome_def
proof (erule outcome_ordinary)
  fix x res st' eff
  assume "bind_r (sanitizeQueryValue (wbTargetDevice body)) (\<lambda>device.
           bind_r (sanitizeOptionalQueryValue (wbTargetUser body)) (\<lambda>user.
           bind_r (sanitizeOptionalQueryValue (wbSenderUser body)) (\<lambda>sender.
           bind_r (sanitizeQueryValue (wbGroup body)) (\<lambda>g.
           bind_r (sanitizeOptionalQueryValue auth) (\<lambda>auth.
           if (case auth of None \<Rightarrow> False | Some a \<Rightarrow> findMember g a st = None)
           then Inl (Forbidden ''not a member'')
           else (case find (\<lambda>k. kDevice k = device
                       \<and> (case user of None \<Rightarrow> True | Some u \<Rightarrow> kUser k = u)) (keyPackages st) of
                   None \<Rightarrow> Inl (ServerError ''device not found'')
                 | Some k \<Rightarrow> Inr (device, (case sender of None \<Rightarrow> ''system'' | Some s \<Rightarrow> s), g, kUser k))))))) = Inr x"
  then obtain d sender g target where x: "x = (d, sender, g, target)" and g: "g \<noteq> []"
    by (auto simp: result_simps dest: sanitize_ne split: if_splits option.splits)
  let ?row = "\<lparr>qId = [], qRecipient = target, qDevice = d, qProto = Some (wbPayload body),
                      qIsWelcome = Some True, qIsCommit = None, qSender = Some sender, qSenderDevice = None,
                      qGroup = Some g, qType = None, qContent = None, qRatchetTree = wbRatchetTree body,
                      qCreatedAt = eNow e\<rparr>"
  obtain r1 st1 where enq: "enqueueForLiveGroup (eIds e) [?row] (Some g) st = (r1, st1)" by fastforce
  have "ordinary st st1" by (rule enqueue_ordinary [OF enq g]) simp
  moreover assume "(case x of (device, sender, g, target) \<Rightarrow>
          (let row = \<lparr>qId = [], qRecipient = target, qDevice = device, qProto = Some (wbPayload body),
                      qIsWelcome = Some True, qIsCommit = None, qSender = Some sender, qSenderDevice = None,
                      qGroup = Some g, qType = None, qContent = None, qRatchetTree = wbRatchetTree body,
                      qCreatedAt = eNow e\<rparr>
           in case enqueueForLiveGroup (eIds e) [row] (Some g) st of
                (Inl err, st1) \<Rightarrow> (Inl err, st1, [])
              | (Inr saved, st1) \<Rightarrow>
                  (let eff = map (\<lambda>q. if eOnline e (memberKey target device) then Publish q else Push q True) saved;
                       st2 = upsertDevice \<lparr>dUser = target, dDevice = device, dGroup = g, dStatus = Pending,
                                           dKickedAt = None, dCreatedAt = eNow e\<rparr> st1;
                       st3 = sadd g [memberKey target device] st2
                   in (Inr (), st3, eff)))) = (res, st', eff)"
  ultimately show "ordinary st st'" by (cases r1) (auto simp: x enq Let_def upsertDevice_ordinary)
qed

lemma putGroupInfo_ordinary: "ordinary st (snd (putGroupInfo g info base st))"
  by (auto simp: putGroupInfo_def split: option.splits intro!: ordinary_tables keys_ignore) (simp add: keys_update)

lemma storeGroupInfo_ordinary: "storeGroupInfo g u info base st = (r, st') \<Longrightarrow> ordinary st st'"
  using putGroupInfo_ordinary [of st g info base] by (auto simp: storeGroupInfo_def split: if_splits prod.splits)

lemma routedMembers_ordinary: "routedMembers g st = (ms, st') \<Longrightarrow> ordinary st st'"
  by (auto simp: routedMembers_def Let_def split: if_splits)

lemma notifyHistoryRequest_ordinary: "notifyHistoryRequest e shuffle auth body st = (r, st', fs) \<Longrightarrow> ordinary st st'"
  by (auto simp: notifyHistoryRequest_def split: sum.splits prod.splits option.splits dest!: routedMembers_ordinary)

lemma notifyBaseRefreshRequest_ordinary: "notifyBaseRefreshRequest e shuffle auth body st = (r, st', fs) \<Longrightarrow> ordinary st st'"
  by (auto simp: notifyBaseRefreshRequest_def split: sum.splits prod.splits option.splits dest!: routedMembers_ordinary)

lemma notifyWelcomeRequest_ordinary: "notifyWelcomeRequest e auth body st = (r, st', fs) \<Longrightarrow> ordinary st st'"
  by (auto simp: notifyWelcomeRequest_def storeWelcomeRequest_def Let_def split: sum.splits prod.splits option.splits
      dest!: routedMembers_ordinary)

lemma acquireAddLock_ordinary: "acquireAddLock now u g d ttl st = (r, st') \<Longrightarrow> ordinary st st'"
  by (auto simp: acquireAddLock_def Let_def split: sum.splits prod.splits)

lemma releaseAddLock_ordinary: "releaseAddLock now u g d st = (r, st') \<Longrightarrow> ordinary st st'"
  by (auto simp: releaseAddLock_def Let_def split: sum.splits prod.splits)

section \<open>Members and seats\<close>

lemma dismissGroup_ordinary: "dismissGroup u g h a st = (r, st') \<Longrightarrow> ordinary st st'"
  unfolding dismissGroup_def by (erule attempt_ordinary) (auto intro!: ordinary_tables keys_ignore)

lemma undismissGroup_ordinary: "undismissGroup u g h a st = (r, st') \<Longrightarrow> ordinary st st'"
  unfolding undismissGroup_def by (erule attempt_ordinary) (auto intro!: ordinary_tables keys_delete)

lemma addGroupMember_ordinary: "addGroupMember e blocks g u h a st = (r, st') \<Longrightarrow> ordinary st st'"
  unfolding addGroupMember_def
  by (erule attempt_ordinary) (auto intro!: ordinary_tables keys_upsert seatDevices_distinct simp: memberIndex_def)

lemma removeGroupMember_ordinary: "removeGroupMember g u h a st = (r, st') \<Longrightarrow> ordinary st st'"
  unfolding removeGroupMember_def by (erule attempt_ordinary) (auto intro!: ordinary_tables keys_delete)

lemma createGroupInvite_ordinary: "createGroupInvite i token g h a ex mx st = (r, st') \<Longrightarrow> ordinary st st'"
  unfolding createGroupInvite_def by (erule attempt_ordinary) auto

lemma askForWelcomes_ordinary: "askForWelcomes e g u ds st = (st', fs) \<Longrightarrow> ordinary st st'"
proof (induction ds arbitrary: st st' fs)
  case (Cons d ds)
  obtain r st1 fs1 where one: "notifyWelcomeRequest e (Some (JStr u))
      \<lparr>pbGroup = Some (JStr g), pbUser = Some (JStr u), pbDevice = Some (JStr d), pbExclude = None\<rparr> st = (r, st1, fs1)"
    by (metis prod_cases3)
  obtain st2 fs2 where rest: "askForWelcomes e g u ds st1 = (st2, fs2)" by fastforce
  from Cons.prems one rest have "st' = st2" by simp
  with Cons.IH [OF rest] notifyWelcomeRequest_ordinary [OF one] ordinary_trans show ?case by blast
qed simp

lemma acceptGroupInvite_ordinary: "acceptGroupInvite e token h st = (r, st', fs) \<Longrightarrow> ordinary st st'"
proof -
  assume run: "acceptGroupInvite e token h st = (r, st', fs)"
  have "st' = st \<or> (\<exists>g u v ds fs. askForWelcomes e g u ds (st\<lparr>
                   members := insert_or_ignore memberIndex
                     \<lparr>mGroup = g, mUser = u, mRole = Member, mJoinedAt = eNow e\<rparr> (members st),
                   devices := seatDevices (eNow e) u g ds (devices st),
                   invites := update_where (\<lambda>x. vId x = v) (\<lambda>x. x\<lparr>vUses := vUses x + 1\<rparr>) (invites st)\<rparr>) = (st', fs))"
    using run unfolding acceptGroupInvite_def Let_def
    by (auto split: sum.splits if_splits prod.splits)
  then show ?thesis
  proof
    assume "\<exists>g u v ds fs. askForWelcomes e g u ds (st\<lparr>
                   members := insert_or_ignore memberIndex
                     \<lparr>mGroup = g, mUser = u, mRole = Member, mJoinedAt = eNow e\<rparr> (members st),
                   devices := seatDevices (eNow e) u g ds (devices st),
                   invites := update_where (\<lambda>x. vId x = v) (\<lambda>x. x\<lparr>vUses := vUses x + 1\<rparr>) (invites st)\<rparr>) = (st', fs)"
    then obtain g u v ds fs where ask: "askForWelcomes e g u ds (st\<lparr>
                   members := insert_or_ignore memberIndex
                     \<lparr>mGroup = g, mUser = u, mRole = Member, mJoinedAt = eNow e\<rparr> (members st),
                   devices := seatDevices (eNow e) u g ds (devices st),
                   invites := update_where (\<lambda>x. vId x = v) (\<lambda>x. x\<lparr>vUses := vUses x + 1\<rparr>) (invites st)\<rparr>) = (st', fs)"
      by blast
    show "ordinary st st'"
      by (rule ordinary_trans [OF _ askForWelcomes_ordinary [OF ask]])
        (auto intro!: ordinary_tables keys_ignore seatDevices_distinct)
  qed simp
qed

lemma updateInvitationStatus_ordinary: "updateInvitationStatus e d u g s h a st = (r, st') \<Longrightarrow> ordinary st st'"
  unfolding updateInvitationStatus_def
proof (erule attempt_ordinary)
  fix x res st'
  assume "(\<lambda>(d, u, g, s).
          (Inr s,
           case findDevice d g st of
             None \<Rightarrow> st\<lparr>devices := devices st @ [\<lparr>dUser = u, dDevice = d, dGroup = g, dStatus = s,
                          dKickedAt = None, dCreatedAt = eNow e\<rparr>]\<rparr>
           | Some _ \<Rightarrow> st\<lparr>devices := update_where (\<lambda>r. deviceIndex r = (d, g))
                 (\<lambda>r. r\<lparr>dStatus := s, dKickedAt := (if s = Active then None else dKickedAt r)\<rparr>) (devices st)\<rparr>)) x = (res, st')"
  then show "ordinary st st'"
    by (auto simp: findDevice_def find_None_iff deviceIndex_def keys_update
        split: prod.splits option.splits intro!: ordinary_tables)
qed

lemma kickStaleUser_ordinary: "kickStaleUser e u g h a st = (r, st') \<Longrightarrow> ordinary st st'"
  unfolding kickStaleUser_def by (erule attempt_ordinary) (auto intro!: ordinary_tables simp: keys_update deviceIndex_def)

lemma kickStaleDevice_ordinary: "kickStaleDevice e d u g h a st = (r, st') \<Longrightarrow> ordinary st st'"
  unfolding kickStaleDevice_def
  by (erule attempt_ordinary) (auto intro!: ordinary_tables simp: keys_update deviceIndex_def split: if_splits)

lemma dropSeat_ordinary: "dropSeat u d g st = (r, st') \<Longrightarrow> ordinary st st'"
  by (auto simp: dropSeat_def Let_def intro!: ordinary_tables keys_delete)

lemma deleteDeviceMembership_ordinary: "deleteDeviceMembership u d g st = (r, st') \<Longrightarrow> ordinary st st'"
  unfolding deleteDeviceMembership_def by (erule attempt_ordinary) (auto dest: dropSeat_ordinary)

lemma forceLeave_ordinary: "forceLeave g d h st = (r, st') \<Longrightarrow> ordinary st st'"
  unfolding forceLeave_def by (erule attempt_ordinary) (auto dest: dropSeat_ordinary)

lemma fold_srem_ordinary: "ordinary st (fold (\<lambda>g s. srem g ks s) gs st1) = ordinary st st1"
  by (induction gs arbitrary: st1) simp_all

lemma deleteAllDeviceMemberships_ordinary: "deleteAllDeviceMemberships u d st = (r, st') \<Longrightarrow> ordinary st st'"
  unfolding deleteAllDeviceMemberships_def
  by (erule attempt_ordinary) (auto simp: fold_srem_ordinary Let_def intro!: ordinary_tables keys_delete)

lemma acknowledgeMessages_ordinary: "acknowledgeMessages u d ids h a st = (r, st') \<Longrightarrow> ordinary st st'"
  unfolding acknowledgeMessages_def
  by (erule attempt_ordinary) (auto simp: Let_def table_simps intro!: ordinary_tables split: if_splits)

section \<open>Devices and PIN\<close>

lemma putKeyPackage_ordinary: "ordinary st st1 \<Longrightarrow> ordinary st (putKeyPackage now u d p n os v st1)"
  unfolding putKeyPackage_def
  by (rule ordinary_tables) (auto simp: findKeyPackage_def find_None_iff kpIndex_def keys_update split: option.split)

lemma seatInGroups_distinct:
  "distinct (map deviceIndex rows) \<Longrightarrow> distinct (map deviceIndex (seatInGroups now u d gs rows))"
  unfolding seatInGroups_def by (induction gs arbitrary: rows) (simp_all add: keys_ignore)

lemma registerDevice_ordinary: "registerDevice now body h a st = (r, st') \<Longrightarrow> ordinary st st'"
  unfolding registerDevice_def
  by (erule attempt_ordinary) (auto simp: Let_def intro!: ordinary_tables seatInGroups_distinct putKeyPackage_ordinary)

lemma registerDevicePrekeys_ordinary: "registerDevicePrekeys e u d p h a st = (r, st') \<Longrightarrow> ordinary st st'"
  unfolding registerDevicePrekeys_def by (erule attempt_ordinary) auto

lemma updateDeviceMetadata_ordinary: "updateDeviceMetadata u d n os v h a st = (r, st') \<Longrightarrow> ordinary st st'"
  unfolding updateDeviceMetadata_def by (erule attempt_ordinary) (auto intro!: ordinary_tables simp: keys_update kpIndex_def)

lemma resolve_ordinary: "resolveKeyPackagePayloadForDevice now u d st = (p, st') \<Longrightarrow> ordinary st st'"
  by (auto simp: resolveKeyPackagePayloadForDevice_def popOneTime_def split: if_splits option.splits list.splits)

lemma getDeviceKeyPackage_ordinary: "getDeviceKeyPackage now u d st = (r, st') \<Longrightarrow> ordinary st st'"
  unfolding getDeviceKeyPackage_def
  by (erule attempt_ordinary) (auto split: prod.splits if_splits dest: resolve_ordinary)

lemma resolveEach_ordinary: "resolveEach now ks st = (rows, st') \<Longrightarrow> ordinary st st'"
proof (induction ks arbitrary: st rows st')
  case (Cons k ks)
  obtain p st1 where one: "resolveKeyPackagePayloadForDevice now (kUser k) (kDevice k) st = (p, st1)" by fastforce
  obtain rows2 st2 where rest: "resolveEach now ks st1 = (rows2, st2)" by fastforce
  from Cons.prems one rest have "st' = st2" by simp
  with Cons.IH [OF rest] resolve_ordinary [OF one] ordinary_trans show ?case by blast
qed simp

lemma getUserDevices_ordinary: "getUserDevices names now u st = (rows, st') \<Longrightarrow> ordinary st st'"
  by (auto simp: getUserDevices_def Let_def split: prod.splits dest: resolveEach_ordinary)

lemma purgeDevicePrekeys_ordinary: "purgeDevicePrekeys u d h a st = (r, st') \<Longrightarrow> ordinary st st'"
  unfolding purgeDevicePrekeys_def by (erule attempt_ordinary) (auto simp: Let_def)

lemma pruneDevicePrekeys_ordinary: "pruneDevicePrekeys u d ids h a st = (r, st') \<Longrightarrow> ordinary st st'"
  unfolding pruneDevicePrekeys_def by (erule attempt_ordinary) (auto simp: Let_def)

lemma purge_ordinary: "ordinary st (snd (purgeDeviceFootprint u d st))"
  by (auto simp: purgeDeviceFootprint_def Let_def fold_srem_ordinary fold_srem_sel table_simps intro!: ordinary_tables keys_delete)

lemma fold_purge_ordinary: "ordinary st (fold (\<lambda>p s. snd (purgeDeviceFootprint (f p) (g p) s)) ps st)"
proof (induction ps arbitrary: st)
  case (Cons p ps)
  show ?case using ordinary_trans [OF purge_ordinary Cons.IH] by simp
qed simp

lemma ban_ordinary:
  "purgeDeviceFootprint u d st = (c, st1) \<Longrightarrow>
     ordinary st (st1\<lparr>revokedDevices := upsert_row revokedIndex row (\<lambda>r. r\<lparr>rRevokedAt := now\<rparr>) (revokedDevices st1)\<rparr>)"
  using purge_ordinary [of st u d] by (intro ordinary_tables keys_upsert) (simp_all add: revokedIndex_def)

lemma deleteDevice_ordinary: "deleteDevice now u d h a st = (r, st') \<Longrightarrow> ordinary st st'"
  unfolding deleteDevice_def by (erule attempt_ordinary) (auto split: prod.splits dest: ban_ordinary)

lemma checkPinVerifier_ordinary: "checkPinVerifier now u v d h a st = (r, st') \<Longrightarrow> ordinary st st'"
  unfolding checkPinVerifier_def
  by (erule attempt_ordinary, auto simp: findPin_def find_None_iff setVerifier_def keys_update
      split: option.splits if_splits intro!: ordinary_tables keys_delete, blast)

lemma getPinSalt_ordinary: "getPinSalt s u h a st = (r, st') \<Longrightarrow> ordinary st st'"
  unfolding getPinSalt_def
  by (erule attempt_ordinary)
    (auto simp: findPin_def find_None_iff Let_def table_simps keys_delete split: option.splits if_splits
      intro!: ordinary_tables)

lemma changePin_ordinary: "changePin u old new h a st = (r, st') \<Longrightarrow> ordinary st st'"
  unfolding changePin_def by (erule attempt_ordinary) (auto simp: setVerifier_def keys_update intro!: ordinary_tables)

lemma resetPin_ordinary: "resetPin u h a st = (r, st') \<Longrightarrow> ordinary st st'"
  unfolding resetPin_def
  by (erule attempt_ordinary)
    (auto simp: Let_def intro!: ordinary_tables keys_delete fold_purge_ordinary [where f = "\<lambda>_. _" and g = "\<lambda>d. d"])

section \<open>The push service\<close>

lemma verifyPushSecretAuth_ordinary: "verifyPushSecretAuth hash header u d st = (r, st') \<Longrightarrow> ordinary st st'"
  by (auto simp: verifyPushSecretAuth_def Let_def keys_update tokenIndex_def split: if_splits option.splits
      intro!: ordinary_tables)

lemma registerPushToken_ordinary: "registerPushToken hash raw body u st = (r, st') \<Longrightarrow> ordinary st st'"
  unfolding registerPushToken_def
  by (erule attempt_ordinary) (auto simp: Let_def tokenIndex_def intro!: ordinary_tables keys_upsert)

lemma unregisterPushToken_ordinary: "unregisterPushToken d u st = (r, st') \<Longrightarrow> ordinary st st'"
  unfolding unregisterPushToken_def by (erule attempt_ordinary) (auto intro!: ordinary_tables keys_delete)

lemma withSecret_ordinary:
  assumes "withSecret hash header u d st k = (r, st')" and "\<And>u d st1 r st'. k u d st1 = (r, st') \<Longrightarrow> ordinary st1 st'"
  shows "ordinary st st'"
  using assms unfolding withSecret_def
  by (auto split: sum.splits prod.splits dest!: verifyPushSecretAuth_ordinary intro: ordinary_trans)

lemma refreshPushTokenViaSecret_ordinary: "refreshPushTokenViaSecret hash header u d t v st = (r, st') \<Longrightarrow> ordinary st st'"
  unfolding refreshPushTokenViaSecret_def
  by (erule withSecret_ordinary) (auto simp: Let_def keys_update tokenIndex_def split: if_splits intro!: ordinary_tables)

lemma fetchProtoForPush_ordinary: "fetchProtoForPush hash header m u d st = (r, st') \<Longrightarrow> ordinary st st'"
  unfolding fetchProtoForPush_def by (auto split: sum.splits prod.splits option.splits dest!: verifyPushSecretAuth_ordinary)

lemma acquireAddLockPush_ordinary: "acquireAddLockPush hash now header u d g st = (r, st') \<Longrightarrow> ordinary st st'"
  unfolding acquireAddLockPush_def by (auto split: sum.splits prod.splits dest!: verifyPushSecretAuth_ordinary)

lemma releaseAddLockPush_ordinary: "releaseAddLockPush hash now header u d g st = (r, st') \<Longrightarrow> ordinary st st'"
  unfolding releaseAddLockPush_def Let_def by (auto split: sum.splits prod.splits dest!: verifyPushSecretAuth_ordinary)

lemma getKeyPackagePush_ordinary: "getKeyPackagePush hash header u d tu td st = (r, st') \<Longrightarrow> ordinary st st'"
  unfolding getKeyPackagePush_def by (erule withSecret_ordinary) auto

lemma getCommitsPush_ordinary: "getCommitsPush hash header u d g s st = (r, st') \<Longrightarrow> ordinary st st'"
  unfolding getCommitsPush_def by (erule withSecret_ordinary) auto

lemma markMembershipActivePush_ordinary:
  assumes "markMembershipActivePush hash e header u d g st = (r, st', eff)"
  shows "ordinary st st'"
  using assms unfolding markMembershipActivePush_def
proof (rule outcome_ordinary)
  fix x res st' eff
  assume "bind_r (sanitizeQueryValue (orBlank u)) (\<lambda>u.
           bind_r (sanitizeQueryValue (orBlank d)) (\<lambda>d.
           bind_r (sanitizeQueryValue (orBlank g)) (\<lambda>g. Inr (u, d, g)))) = Inr x"
  then obtain u' d' g' where x: "x = (u', d', g')" and g: "g' \<noteq> []" by (auto simp: result_simps dest: sanitize_ne)
  obtain r1 st1 where v: "verifyPushSecretAuth hash header u' d' st = (r1, st1)" by fastforce
  obtain st2 eff2 where act: "activateDeviceMembership e u' d' g' True st1 = (st2, eff2)" by fastforce
  assume "(case x of (u, d, g) \<Rightarrow> case verifyPushSecretAuth hash header u d st of
             (Inl err, st1) \<Rightarrow> (Inl err, st1, [])
           | (Inr _, st1) \<Rightarrow> (case activateDeviceMembership e u d g True st1 of (st2, eff) \<Rightarrow> (Inr (), st2, eff)))
       = (res, st', eff)"
  then have "st' = st1 \<or> st' = st2" by (auto simp: x v act split: sum.splits)
  with verifyPushSecretAuth_ordinary [OF v] activate_ordinary [OF act] g ordinary_trans show "ordinary st st'" by blast
qed

lemma sendMessagePush_ordinary:
  assumes "sendMessagePush hash e header u d g p s du st = (r, st', eff)" and "trimmedIds st"
  shows "ordinary st st'"
  using assms(1) unfolding sendMessagePush_def
proof (rule outcome_ordinary)
  fix x :: "string \<times> string" and res st' eff
  obtain u' d' where x: "x = (u', d')" by fastforce
  obtain r1 st1 where v: "verifyPushSecretAuth hash header u' d' st = (r1, st1)" by fastforce
  note st1 = verifyPushSecretAuth_ordinary [OF v]
  have send: "ordinary st1 st'" if "sendMessage e None body st1 = (res, st', eff)" for body res st' eff
    using sendMessage_ordinary [OF that] assms(2) ordinary_trimmed [OF st1] by simp
  assume "(case x of (u, d) \<Rightarrow> case verifyPushSecretAuth hash header u d st of
        (Inl err, st1) \<Rightarrow> (Inl err, st1, [])
      | (Inr _, st1) \<Rightarrow>
     (case bind_r (sanitizeQueryValue (orBlank g)) (\<lambda>g.
             if strOrEmpty p = [] then Inl (BadRequest ''proto required'') else Inr g) of
        Inl err \<Rightarrow> (Inl err, st1, [])
      | Inr g \<Rightarrow>
          sendMessage e None
            \<lparr>sbGroup = Some g, sbSender = Some u, sbSenderDevice = Some d, sbProto = Some (strOrEmpty p),
             sbIsWelcome = None, sbIsCommit = None, sbSilent = Some (isTrue s), sbDurable = du,
             sbExclude = None, sbRecipients = None, sbContent = None, sbType = None\<rparr> st1)) = (res, st', eff)"
  then have "st' = st1 \<or> (\<exists>body res eff. sendMessage e None body st1 = (res, st', eff))"
    by (auto simp: x v split: sum.splits)
  with st1 send ordinary_trans show "ordinary st st'" by blast
qed

lemma pushWelcomeAndBroadcast_ordinary:
  assumes "pushWelcomeAndBroadcast e u d g tu td body st = (r, st', eff)" and "trimmedIds st"
  shows "ordinary st st'"
proof -
  define wb where "wb = \<lparr>wbTargetDevice = Some (JStr td), wbTargetUser = Some (JStr tu), wbSenderUser = Some (JStr u),
      wbPayload = strOrEmpty (abWelcome body), wbRatchetTree = abRatchetTree body, wbGroup = Some (JStr g)\<rparr>"
  obtain r1 st1 eff1 where 1: "sendWelcome e None wb st = (r1, st1, eff1)" by (metis prod_cases3)
  note st1 = sendWelcome_ordinary [OF 1]
  from assms(1) have "st' = st1 \<or> (\<exists>b r eff. sendMessage e None b st1 = (r, st', eff))"
    by (auto simp: pushWelcomeAndBroadcast_def wb_def [symmetric] 1 split: sum.splits prod.splits)
  with st1 sendMessage_ordinary ordinary_trimmed [OF st1] assms(2) ordinary_trans show ?thesis by metis
qed

lemma sendWelcomeAndCommitPush_ordinary:
  assumes "sendWelcomeAndCommitPush hash e header body st = (r, st', eff)" and "trimmedIds st"
  shows "ordinary st st'"
proof -
  define ids where "ids = bind_r (sanitizeQueryValue (orBlank (abUser body))) (\<lambda>u.
           bind_r (sanitizeQueryValue (orBlank (abDevice body))) (\<lambda>d. Inr (u, d)))"
  define req where "req = bind_r (sanitizeQueryValue (orBlank (abGroup body))) (\<lambda>g.
           bind_r (sanitizeQueryValue (orBlank (abTargetUser body))) (\<lambda>tu.
           bind_r (sanitizeQueryValue (orBlank (abTargetDevice body))) (\<lambda>td.
             if strOrEmpty (abWelcome body) = [] then Inl (BadRequest ''welcomePayload required'')
             else if strOrEmpty (abCommit body) = [] then Inl (BadRequest ''commitPayload required'')
             else Inr (g, tu, td))))"
  note body = assms(1) [unfolded sendWelcomeAndCommitPush_def, folded ids_def req_def]
  show ?thesis
  proof (cases ids)
    case (Inr ud)
    obtain u d where ud: "ud = (u, d)" by fastforce
    obtain rv st1 where v: "verifyPushSecretAuth hash header u d st = (rv, st1)" by fastforce
    note body = body [unfolded Inr ud sum.case prod.case v]
    note st1 = verifyPushSecretAuth_ordinary [OF v]
    then have trimmed: "trimmedIds st1" using assms(2) ordinary_trimmed by simp
    show ?thesis
    proof (cases "\<exists>x. rv = Inr x \<and> (\<exists>t. req = Inr t)")
      case False
      with body st1 show ?thesis by (cases rv; cases req) auto
    next
      case True
      then obtain x g tu td where rv: "rv = Inr x" and req: "req = Inr (g, tu, td)" by (metis prod_cases3)
      from body have "st' = st1 \<or> pushWelcomeAndBroadcast e u d g tu td body st1 = (r, st', eff)"
        using pushCommitBody_refused [of e g d "abBaseEpoch body" st1]
        unfolding rv req sum.case prod.case by (auto split: if_splits)
      with st1 pushWelcomeAndBroadcast_ordinary [OF _ trimmed] ordinary_trans show ?thesis by blast
    qed
  qed (use body in auto)
qed

section \<open>The other services and the jobs\<close>

lemma publishBase_ordinary: "publishBase g info b st = (r, st') \<Longrightarrow> ordinary st st'"
  using putGroupInfo_ordinary [of st g info "\<lfloor>b\<rfloor>"]
  by (auto simp: publishBase_def split: if_splits prod.splits option.splits)

lemma publishDistributionGroupInfo_ordinary:
  "publishDistributionGroupInfo secret e scope sid header body st = (r, st') \<Longrightarrow> ordinary st st'"
  unfolding publishDistributionGroupInfo_def
proof (erule attempt_ordinary)
  fix x :: "string \<times> string \<times> rat \<times> string \<times> string" and res st'
  obtain g info base u d where x: "x = (g, info, base, u, d)" by (metis prod_cases5)
  obtain r1 st1 where pub: "publishBase g info base st = (r1, st1)" by fastforce
  obtain st2 eff where act: "activateDeviceMembership e u d g False st1 = (st2, eff)" by fastforce
  assume "(case x of (g, info, base, user, device) \<Rightarrow>
          case publishBase g info base st of
            (Inl err, st1) \<Rightarrow> (Inl err, st1)
          | (Inr stored, st1) \<Rightarrow> (Inr stored, fst (activateDeviceMembership e user device g False st1))) = (res, st')"
  then have "st' = st1 \<or> st' = st2" by (auto simp: x pub act split: sum.splits)
  with publishBase_ordinary [OF pub] activate_ordinary [OF act] ordinary_trans show "ordinary st st'" by blast
qed

lemma evictFromDistributionGroup_ordinary:
  "evictFromDistributionGroup secret scope sid u header st = (r, st') \<Longrightarrow> ordinary st st'"
  unfolding evictFromDistributionGroup_def
  by (erule attempt_ordinary) (auto simp: Let_def table_simps split: option.splits if_splits intro!: ordinary_tables keys_delete)

lemma resetDevice_ordinary: "ordinary st (resetDevice m st)"
  by (auto simp: resetDevice_def keys_update deviceIndex_def intro!: ordinary_tables)

lemma dropPendingSeat_ordinary: "ordinary st (dropPendingSeat m st)"
  by (auto simp: dropPendingSeat_def intro!: ordinary_tables keys_delete)

lemma fold_ordinary: "(\<And>x st. ordinary st (f x st)) \<Longrightarrow> ordinary st (fold f xs st)"
proof (induction xs arbitrary: st)
  case (Cons x xs)
  show ?case using ordinary_trans [OF Cons.prems Cons.IH [OF Cons.prems]] by simp
qed simp

lemma job_ordinary:
  "ordinary st (detectStaleDevices now st)" "ordinary st (cleanupExpiredQueuedMessages now st)"
  "ordinary st (cleanupStaleDevices now st)" "ordinary st (cleanupStalePendingInvitations seatAt now st)"
  "ordinary st (cleanupStalePushTokens tokenAt now st)" "ordinary st (cleanupExpiredRevocations now st)"
  "ordinary st (cleanupOrphanedRedisGroups pages st)"
  by (auto simp: detectStaleDevices_def cleanupExpiredQueuedMessages_def cleanupStaleDevices_def
      cleanupStalePendingInvitations_def cleanupStalePushTokens_def cleanupExpiredRevocations_def
      cleanupOrphanedRedisGroups_def Let_def table_simps
      intro!: ordinary_tables keys_delete fold_ordinary resetDevice_ordinary dropPendingSeat_ordinary split: prod.split
      simp: purge_ordinary)

lemma commitFollowUp_ordinary:
  assumes "commitFollowUp e g d body st = (st', eff)" and "trimmedIds st"
  shows "ordinary st st'"
proof -
  define promote where "promote \<longleftrightarrow> truthy (cbSender body)
      \<and> (case findDevice d g st of None \<Rightarrow> True | Some m \<Rightarrow> dStatus m \<noteq> Active)"
  obtain st1 eff1 where 1: "(if promote
         then activateDeviceMembership e (orEmpty (cbSender body)) d g False st else (st, [])) = (st1, eff1)"
    by fastforce
  obtain r st2 eff2 where 2: "sendMessage e None (commitFanOutBody g d body) st1 = (r, st2, eff2)" by (metis prod_cases3)
  have st1: "ordinary st st1" using 1 activate_ordinary by (auto split: if_splits)
  have "st' = st2" using assms(1) by (simp add: commitFollowUp_def promote_def [symmetric] 1 2)
  with sendMessage_ordinary [OF 2] assms(2) ordinary_trimmed [OF st1] ordinary_trans [OF st1] show ?thesis by simp
qed

end
