(* ===== verification/Log_Refinement.thy ===== *)
theory Log_Refinement
  imports Store_Invariant
begin

text \<open>
  What the commit log promises, apart from tables and epochs that several rows repeat: every group has
  a log that starts somewhere, grows at one end and is cut at the other. The second part classifies what
  a request may do to the tables of groups, queued messages and commits, and shows that each of these
  changes keeps the tables consistent and what it does to the abstract log.
\<close>

section \<open>The abstract log\<close>

text \<open>The epoch the log starts at and the commits from there on.\<close>

type_synonym abs_log = "nat \<times> string list"

definition al_epoch :: "abs_log \<Rightarrow> nat" where
  "al_epoch l = fst l + length (snd l)"

text \<open>What a reader that is at epoch \<open>n\<close> is told.\<close>

definition al_since :: "nat \<Rightarrow> abs_log \<Rightarrow> commits_since" where
  "al_since n l =
     \<lparr>csCommits = (if n < fst l then [] else zip [n..<al_epoch l] (drop (n - fst l) (snd l))),
      csActiveEpoch = al_epoch l,
      csBelowFloor = (n < fst l \<and> snd l \<noteq> []),
      csGapAt = (if n < fst l \<and> snd l = [] then Some n else None)\<rparr>"

text \<open>
  The log of a group as those who write it see it: whether the group is closed, the epoch it is at, and
  the commits that are kept with the instant each was accepted, the last of them leading to that epoch.
\<close>

record group_log =
  lgClosed :: bool
  lgEpoch :: nat
  lgEntries :: "(int \<times> string) list"

definition lg_new :: group_log where
  "lg_new = \<lparr>lgClosed = False, lgEpoch = 0, lgEntries = []\<rparr>"

definition lg_commit :: "int \<Rightarrow> string \<Rightarrow> group_log \<Rightarrow> group_log" where
  "lg_commit t c l = l\<lparr>lgEpoch := lgEpoch l + 1, lgEntries := lgEntries l @ [(t, c)]\<rparr>"

definition lg_close :: "group_log \<Rightarrow> group_log" where
  "lg_close l = l\<lparr>lgClosed := True, lgEntries := []\<rparr>"

text \<open>Retention: the newest commits up to a number, and of these the ones inside the window.\<close>

definition lg_expire :: "int \<Rightarrow> group_log \<Rightarrow> group_log" where
  "lg_expire t l = l\<lparr>lgEntries := dropWhile (\<lambda>e. fst e < t - COMMIT_LOG_RETENTION_MS)
     (drop (length (lgEntries l) - COMMIT_LOG_MAX_PER_GROUP) (lgEntries l))\<rparr>"

text \<open>What may happen to logs without a commit, a new group or a deletion: they expire, closed ones go.\<close>

inductive upkeep :: "int \<Rightarrow> (string \<rightharpoonup> group_log) \<Rightarrow> (string \<rightharpoonup> group_log) \<Rightarrow> bool" for t where
  expires: "upkeep t A (\<lambda>g. map_option (lg_expire t) (A g))"
| forgets: "(\<And>g l. g \<in> G \<Longrightarrow> A g = Some l \<Longrightarrow> lgClosed l) \<Longrightarrow> upkeep t A (A |` (- G))"

section \<open>The log in the tables\<close>

definition ownCommits :: "string \<Rightarrow> delivery \<Rightarrow> commit_row list" where
  "ownCommits g st = sort_key cBase (filter (\<lambda>r. cGroup r = g) (commitLog st))"

definition absLog :: "delivery \<Rightarrow> string \<rightharpoonup> abs_log" where
  "absLog st g = map_option (\<lambda>gr. (gActiveEpoch gr - length (ownCommits g st), map cCommit (ownCommits g st))) (findGroup g st)"

definition viewLog :: "delivery \<Rightarrow> string \<rightharpoonup> group_log" where
  "viewLog st g = map_option (\<lambda>gr. \<lparr>lgClosed = (gDeletedAt gr \<noteq> None), lgEpoch = gActiveEpoch gr,
     lgEntries = map (\<lambda>r. (cCreatedAt r, cCommit r)) (ownCommits g st)\<rparr>) (findGroup g st)"

definition contiguous :: "nat \<Rightarrow> commit_row list \<Rightarrow> bool" where
  "contiguous epoch rows \<longleftrightarrow> map cBase rows = [epoch - length rows..<epoch]"

definition logOk :: "int \<Rightarrow> delivery \<Rightarrow> bool" where
  "logOk t st \<longleftrightarrow>
     (\<forall>gr \<in> set (groups st). contiguous (gActiveEpoch gr) (ownCommits (gId gr) st))
   \<and> (\<forall>r \<in> set (commitLog st). cGroup r \<in> gId ` set (groups st) \<and> cCreatedAt r \<le> t)
   \<and> (\<forall>r \<in> set (commitLog st). \<forall>r' \<in> set (commitLog st).
        cGroup r = cGroup r' \<and> cBase r \<le> cBase r' \<longrightarrow> cCreatedAt r \<le> cCreatedAt r')"

definition queueLive :: "delivery \<Rightarrow> bool" where
  "queueLive st \<longleftrightarrow> (\<forall>q \<in> set (queue st). \<exists>g. qGroup q = Some g \<and> liveId g st)"

definition consistent :: "int \<Rightarrow> delivery \<Rightarrow> bool" where
  "consistent t st \<longleftrightarrow> keyed st \<and> trimmedIds st \<and> queueLive st \<and> logOk t st"

lemma consistent_later: "consistent t st \<Longrightarrow> t \<le> t' \<Longrightarrow> consistent t' st"
  by (force simp: consistent_def logOk_def)

lemma contiguous_length: "contiguous e rows \<Longrightarrow> length rows \<le> e"
  unfolding contiguous_def by (drule arg_cong [where f = length]) simp

lemma contiguous_drop: "contiguous e rows \<Longrightarrow> contiguous e (drop n rows)"
  using contiguous_length [of e rows]
  by (cases "n \<le> length rows") (simp_all add: contiguous_def flip: drop_map)

lemma contiguous_snoc: "contiguous e rows \<Longrightarrow> cBase r = e \<Longrightarrow> contiguous (Suc e) (rows @ [r])"
  using contiguous_length [of e rows] by (simp add: contiguous_def Suc_diff_le)

lemma ownCommits_mem: "set (ownCommits g st) = {r \<in> set (commitLog st). cGroup r = g}"
  by (simp add: ownCommits_def)

lemma ownCommits_cong: "commitLog st' = commitLog st \<Longrightarrow> ownCommits g st' = ownCommits g st"
  by (simp add: ownCommits_def)

lemma ownCommits_clear:
  "commitLog st' = delete_where (\<lambda>r. cGroup r \<in> gs) (commitLog st) \<Longrightarrow>
     ownCommits g st' = (if g \<in> gs then [] else ownCommits g st)"
proof -
  assume "commitLog st' = delete_where (\<lambda>r. cGroup r \<in> gs) (commitLog st)"
  then have "filter (\<lambda>r. cGroup r = g) (commitLog st') = (if g \<in> gs then [] else filter (\<lambda>r. cGroup r = g) (commitLog st))"
    by (auto simp: delete_where_def filter_empty_conv intro: filter_cong)
  then show ?thesis by (simp add: ownCommits_def)
qed

section \<open>What a request may do to the tables\<close>

text \<open>An identifier drawn for a new group: a version 4 UUID, which nothing in the tables has yet.\<close>

definition drawn :: "string \<Rightarrow> delivery \<Rightarrow> bool" where
  "drawn g st \<longleftrightarrow> g \<noteq> [] \<and> trim g = g \<and> g \<notin> gId ` set (groups st) \<and> g \<notin> dGroup ` set (devices st)"

text \<open>What a change of the tables is to the logs: upkeep, a new log, logs closed, a commit of a group.\<close>

datatype log_event = Upkeep | Opens string | Closes "string set" | Commits string string

inductive table_step :: "int \<Rightarrow> log_event \<Rightarrow> delivery \<Rightarrow> delivery \<Rightarrow> bool" for t where
  kept: "ordinary st st' \<Longrightarrow> table_step t Upkeep st st'"
| edited: "(\<And>r. gId (f r) = gId r \<and> gDeletedAt (f r) = gDeletedAt r \<and> gActiveEpoch (f r) = gActiveEpoch r) \<Longrightarrow>
     table_step t Upkeep st (st\<lparr>groups := update_where p f (groups st)\<rparr>)"
| opened: "drawn (gId row) st \<Longrightarrow> gActiveEpoch row = 0 \<Longrightarrow> gDeletedAt row = None \<Longrightarrow> groups st' = groups st @ [row] \<Longrightarrow>
     queue st' = queue st \<Longrightarrow> commitLog st' = commitLog st \<Longrightarrow> (keyed st \<Longrightarrow> keyed st') \<Longrightarrow> table_step t (Opens (gId row)) st st'"
| buried: "(\<And>r. gId (f r) = gId r \<and> gActiveEpoch (f r) = gActiveEpoch r \<and> gDeletedAt (f r) \<noteq> None) \<Longrightarrow>
     groups st' = update_where (\<lambda>r. gId r \<in> gs) f (groups st) \<Longrightarrow>
     commitLog st' = delete_where (\<lambda>r. cGroup r \<in> gs) (commitLog st) \<Longrightarrow>
     (\<And>q. q \<in> set (queue st') \<Longrightarrow> q \<in> set (queue st) \<and> (\<forall>g \<in> gs. qGroup q \<noteq> Some g)) \<Longrightarrow>
     (keyed st \<Longrightarrow> keyed st') \<Longrightarrow> table_step t (Closes gs) st st'"
| forgotten: "(\<And>r. keyed st \<Longrightarrow> r \<in> set (groups st) \<Longrightarrow> gId r \<in> gs \<Longrightarrow> gDeletedAt r \<noteq> None) \<Longrightarrow>
     groups st' = delete_where (\<lambda>r. gId r \<in> gs) (groups st) \<Longrightarrow>
     commitLog st' = delete_where (\<lambda>r. cGroup r \<in> gs) (commitLog st) \<Longrightarrow>
     (\<And>q. q \<in> set (queue st') \<Longrightarrow> q \<in> set (queue st) \<and> (\<forall>g \<in> gs. qGroup q \<noteq> Some g)) \<Longrightarrow>
     (keyed st \<Longrightarrow> keyed st') \<Longrightarrow> table_step t Upkeep st st'"
| advanced: "findGroup g st = Some gr \<Longrightarrow>
     groups st' = update_where (\<lambda>r. gId r = g) (\<lambda>r. r\<lparr>gActiveEpoch := gActiveEpoch gr + 1, gUpdatedAt := t\<rparr>) (groups st) \<Longrightarrow>
     commitLog st' = insert_or_ignore commitIndex
         \<lparr>cGroup = g, cBase = gActiveEpoch gr, cCommit = c, cSenderDevice = d, cCreatedAt = t\<rparr> (commitLog st) \<Longrightarrow>
     queue st' = queue st \<Longrightarrow> (keyed st \<Longrightarrow> keyed st') \<Longrightarrow> table_step t (Commits g c) st st'"
| pruned: "table_step t Upkeep st (snd (pruneExpiredCommitLog t st))"

subsection \<open>Each keeps the tables consistent\<close>

lemma liveId_update:
  assumes "groups st' = update_where p f (groups st)" and "\<And>r. gId (f r) = gId r"
    and "\<And>r. gId r = g \<Longrightarrow> p r \<Longrightarrow> gDeletedAt (f r) = gDeletedAt r"
    and "liveId g st"
  shows "liveId g st'"
proof -
  obtain r where r: "r \<in> set (groups st)" "gId r = g" "gDeletedAt r = None" using assms(4) by (auto simp: liveId_def)
  then have "(if p r then f r else r) \<in> set (groups st')" unfolding assms(1) update_where_def by (simp only: list.set_map image_eqI)
  moreover have "gId (if p r then f r else r) = g" "gDeletedAt (if p r then f r else r) = None"
    using assms(2,3) r by simp_all
  ultimately show ?thesis unfolding liveId_def by blast
qed

lemma update_ids: "(\<And>r. gId (f r) = gId r) \<Longrightarrow> gId ` set (update_where p f rs) = gId ` set rs"
  using keys_update [of gId f p rs] by (metis set_map)

lemma table_step_keyed: "table_step t k st st' \<Longrightarrow> keyed st \<Longrightarrow> keyed st'"
proof (induction rule: table_step.induct)
  case (pruned st)
  then show ?case by (simp add: pruneExpiredCommitLog_def Let_def keyed_def keys_delete)
qed (auto simp: ordinary_def keyed_def keys_update)

lemma table_step_ids:
  assumes "table_step t k st st'"
  shows "gId ` set (groups st') \<subseteq> gId ` set (groups st) \<or> (\<exists>g. drawn g st \<and> gId ` set (groups st') = insert g (gId ` set (groups st)))"
  using assms
proof (cases rule: table_step.cases)
  case (edited f p)
  then have "gId ` set (groups st') = gId ` set (groups st)" by (simp add: update_ids)
  then show ?thesis by simp
next
  case (buried f gs)
  then have "gId ` set (groups st') = gId ` set (groups st)" by (simp add: update_ids)
  then show ?thesis by simp
next
  case (advanced g gr c d)
  then have "gId ` set (groups st') = gId ` set (groups st)" by (simp add: update_ids)
  then show ?thesis by simp
next
  case (forgotten gs)
  then show ?thesis by (auto simp: delete_where_def)
qed (auto simp: ordinary_def pruneExpiredCommitLog_def Let_def)

lemma table_step_trimmed:
  assumes "table_step t k st st'" and "trimmedIds st"
  shows "trimmedIds st'"
proof -
  have iff: "trimmedIds s \<longleftrightarrow> (\<forall>g \<in> gId ` set (groups s). trim g = g)" for s by (simp add: trimmedIds_def)
  from table_step_ids [OF assms(1)] show ?thesis
  proof (elim disjE exE conjE)
    assume "gId ` set (groups st') \<subseteq> gId ` set (groups st)"
    with assms(2) show ?thesis unfolding iff by (auto dest!: subsetD)
  next
    fix g
    assume "drawn g st" and "gId ` set (groups st') = insert g (gId ` set (groups st))"
    with assms(2) show ?thesis unfolding iff by (simp add: drawn_def)
  qed
qed

lemma table_step_queue: "table_step t k st st' \<Longrightarrow> queueLive st \<Longrightarrow> queueLive st'"
proof (induction rule: table_step.induct)
  case (kept st st')
  have "liveId g st'" if "liveId g st" for g using that kept(1) by (simp add: liveId_def ordinary_def)
  with kept show ?case unfolding ordinary_def queueLive_def by blast
next
  case (edited f st p)
  have "liveId g (st\<lparr>groups := update_where p f (groups st)\<rparr>)" if "liveId g st" for g
    using edited(1) by (intro liveId_update [OF _ _ _ that, where p = p and f = f]) auto
  with edited(2) show ?case unfolding queueLive_def by auto
next
  case (opened row st st')
  have "liveId g st'" if "liveId g st" for g using that opened(4) by (auto simp: liveId_def)
  with opened(5,8) show ?case unfolding queueLive_def by metis
next
  case (buried f st' gs st)
  have "liveId g st'" if "liveId g st" "g \<notin> gs" for g
    using that(2) buried(1) by (intro liveId_update [OF buried(2) _ _ that(1)]) auto
  with buried(4,6) show ?case unfolding queueLive_def by metis
next
  case (forgotten st gs st')
  have "liveId g st'" if "liveId g st" "g \<notin> gs" for g
    using that unfolding liveId_def forgotten(2) delete_where_def by auto
  with forgotten(4,6) show ?case unfolding queueLive_def by metis
next
  case (advanced g st gr st' c d)
  have "liveId h st'" if "liveId h st" for h
    by (rule liveId_update [OF advanced(2) _ _ that]) simp_all
  with advanced(4,6) show ?case unfolding queueLive_def by metis
next
  case (pruned st)
  then show ?case by (simp add: pruneExpiredCommitLog_def Let_def queueLive_def liveId_def)
qed

lemma logOkI:
  assumes "\<And>gr. gr \<in> set (groups st') \<Longrightarrow> contiguous (gActiveEpoch gr) (ownCommits (gId gr) st')"
    and "set (commitLog st') \<subseteq> set (commitLog st)" and "logOk t st"
    and "\<And>r. r \<in> set (commitLog st') \<Longrightarrow> cGroup r \<in> gId ` set (groups st) \<Longrightarrow> cGroup r \<in> gId ` set (groups st')"
  shows "logOk t st'"
  using assms unfolding logOk_def by blast

lemma logOkD:
  assumes "logOk t st"
  shows "gr \<in> set (groups st) \<Longrightarrow> contiguous (gActiveEpoch gr) (ownCommits (gId gr) st)"
    and "r \<in> set (commitLog st) \<Longrightarrow> cGroup r \<in> gId ` set (groups st)"
    and "r \<in> set (commitLog st) \<Longrightarrow> cCreatedAt r \<le> t"
    and "r \<in> set (commitLog st) \<Longrightarrow> r' \<in> set (commitLog st) \<Longrightarrow> cGroup r = cGroup r' \<Longrightarrow> cBase r \<le> cBase r'
      \<Longrightarrow> cCreatedAt r \<le> cCreatedAt r'"
  using assms unfolding logOk_def by blast+

lemma updated_row:
  assumes "x \<in> set (update_where p f rs)" and "\<And>r. gId (f r) = gId r \<and> gActiveEpoch (f r) = gActiveEpoch r"
  obtains r where "r \<in> set rs" "gId x = gId r" "gActiveEpoch x = gActiveEpoch r"
  using assms by (auto simp: update_where_def split: if_splits)

lemma drawn_empty:
  assumes "logOk t st" and "drawn g st"
  shows "ownCommits g st = []"
proof -
  have "filter (\<lambda>r. cGroup r = g) (commitLog st) = []"
    using assms(2) logOkD(2) [OF assms(1)] unfolding drawn_def filter_empty_conv by metis
  then show ?thesis by (simp add: ownCommits_def)
qed

lemma logOk_below:
  assumes "logOk t st" and "gr \<in> set (groups st)" and "r \<in> set (commitLog st)" and "cGroup r = gId gr"
  shows "cBase r < gActiveEpoch gr"
proof -
  have "cBase r \<in> set (map cBase (ownCommits (gId gr) st))" using assms(3,4) by (simp add: ownCommits_mem)
  with logOkD(1) [OF assms(1,2)] show ?thesis by (simp add: contiguous_def)
qed

lemma advanced_own:
  assumes "logOk t st" and "gr \<in> set (groups st)" and "gId gr = g" and "cGroup row = g" and "cBase row = gActiveEpoch gr"
    and "commitLog st' = insert_or_ignore commitIndex row (commitLog st)"
  shows "commitLog st' = commitLog st @ [row]"
    and "ownCommits h st' = (if h = g then ownCommits g st @ [row] else ownCommits h st)"
proof -
  have below: "cBase r < gActiveEpoch gr" if "r \<in> set (commitLog st)" "cGroup r = g" for r
    using logOk_below [OF assms(1,2) that(1)] that(2) assms(3) by simp
  then have "commitIndex row \<notin> commitIndex ` set (commitLog st)"
    using assms(4,5) by (fastforce simp: commitIndex_def)
  then show log: "commitLog st' = commitLog st @ [row]" by (simp add: assms(6) insert_or_ignore_def)
  show "ownCommits h st' = (if h = g then ownCommits g st @ [row] else ownCommits h st)"
    using below assms(4,5) by (auto simp: ownCommits_def log intro!: sort_key_append_last less_imp_le)
qed

lemma filter_sorted_dropWhile:
  "sorted (map f xs) \<Longrightarrow> filter (\<lambda>x. \<not> f x < (c :: int)) xs = dropWhile (\<lambda>x. f x < c) xs"
proof (induction xs)
  case (Cons x xs)
  then have "\<forall>y \<in> set xs. f x \<le> f y" and "sorted (map f xs)" by simp_all
  moreover have "filter (\<lambda>x. \<not> f x < c) xs = xs" if "\<not> f x < c" using calculation(1) that by (intro filter_True) auto
  ultimately show ?case using Cons.IH by (cases "f x < c") simp_all
qed simp

lemma filter_upt_drop: "map b xs = [k..<k + length xs] \<Longrightarrow> filter (\<lambda>x. k + n \<le> b x) xs = drop n xs"
proof (induction xs arbitrary: k n)
  case (Cons x xs)
  then have x: "b x = k" "map b xs = [Suc k..<Suc k + length xs]" by (simp_all add: upt_conv_Cons del: upt_Suc)
  show ?case
  proof (cases n)
    case 0
    have "\<forall>y \<in> set xs. Suc k \<le> b y"
    proof
      fix y assume "y \<in> set xs"
      then have "b y \<in> set (map b xs)" by simp
      then show "Suc k \<le> b y" unfolding x(2) set_upt by (simp only: atLeastLessThan_iff)
    qed
    then have "filter (\<lambda>y. k \<le> b y) xs = xs" by (intro filter_True) auto
    with 0 x(1) show ?thesis by simp
  next
    case (Suc m)
    with Cons.IH [OF x(2), of m] x(1) show ?thesis by simp
  qed
qed simp

text \<open>Retention keeps the newest commits of a group, and of these the ones inside the window.\<close>

lemma pruned_own:
  assumes "logOk t st" and "distinct (map gId (groups st))" and "gr \<in> set (groups st)"
  shows "ownCommits (gId gr) (snd (pruneExpiredCommitLog t st)) = dropWhile (\<lambda>r. cCreatedAt r < t - COMMIT_LOG_RETENTION_MS)
    (drop (length (ownCommits (gId gr) st) - COMMIT_LOG_MAX_PER_GROUP) (ownCommits (gId gr) st))"
proof -
  let ?own = "ownCommits (gId gr) st" and ?e = "gActiveEpoch gr" and ?cap = COMMIT_LOG_MAX_PER_GROUP
  define old where "old r \<longleftrightarrow> cCreatedAt r < t - COMMIT_LOG_RETENTION_MS" for r :: commit_row
  define over where "over r \<longleftrightarrow> list_ex (\<lambda>gr. gId gr = cGroup r
                    \<and> int (cBase r) < int (gActiveEpoch gr) - int COMMIT_LOG_MAX_PER_GROUP) (groups st)" for r :: commit_row
  have own: "map cBase ?own = [?e - length ?own..<?e]" and len: "length ?own \<le> ?e"
    using logOkD(1) [OF assms(1,3)] contiguous_length by (auto simp: contiguous_def)
  have log: "commitLog (snd (pruneExpiredCommitLog t st)) = filter (\<lambda>r. \<not> old r \<and> \<not> over r) (commitLog st)"
    by (simp add: pruneExpiredCommitLog_def Let_def delete_where_def old_def [symmetric] over_def [symmetric] conj_commute)
  have "ownCommits (gId gr) (snd (pruneExpiredCommitLog t st)) = filter (\<lambda>r. \<not> old r) (filter (\<lambda>r. \<not> over r) ?own)"
    by (simp add: ownCommits_def log filter_sort conj_ac)
  also have "filter (\<lambda>r. \<not> over r) ?own = filter (\<lambda>r. (?e - length ?own) + (length ?own - ?cap) \<le> cBase r) ?own"
  proof (rule filter_cong [OF refl])
    fix r assume "r \<in> set ?own"
    then have r: "cGroup r = gId gr" "cBase r \<in> set (map cBase ?own)" by (auto simp: ownCommits_mem)
    have same: "x = gr" if "x \<in> set (groups st)" "gId x = gId gr" for x
      using that assms(2,3) by (meson distinct_map inj_onD)
    have "over r \<longleftrightarrow> int (cBase r) < int ?e - int ?cap"
      using assms(3) same unfolding over_def list_ex_iff r(1) by auto
    moreover have "?e - length ?own \<le> cBase r" using r(2) unfolding own by simp
    ultimately show "(\<not> over r) = ((?e - length ?own) + (length ?own - ?cap) \<le> cBase r)" using len by linarith
  qed
  also have "\<dots> = drop (length ?own - ?cap) ?own" by (rule filter_upt_drop) (use own len in simp)
  also have "filter (\<lambda>r. \<not> old r) \<dots> = dropWhile old \<dots>"
    unfolding old_def
  proof (rule filter_sorted_dropWhile)
    have "sorted (map cBase ?own)" unfolding ownCommits_def by (rule sorted_sort_key)
    then have "sorted_wrt (\<lambda>r r'. cBase r \<le> cBase r') ?own" by (simp add: sorted_map)
    then have "sorted_wrt (\<lambda>r r'. cCreatedAt r \<le> cCreatedAt r') ?own"
      by (rule sorted_wrt_mono_rel [rotated]) (use logOkD(4) [OF assms(1)] in \<open>auto simp: ownCommits_mem\<close>)
    then show "sorted (map cCreatedAt (drop (length ?own - ?cap) ?own))" by (simp add: sorted_map sorted_wrt_drop)
  qed
  also have "old = (\<lambda>r. cCreatedAt r < t - COMMIT_LOG_RETENTION_MS)" by (simp add: fun_eq_iff old_def)
  finally show ?thesis .
qed

lemma dropWhile_is_drop: "\<exists>m. dropWhile p (drop n xs) = drop m xs"
proof -
  have "dropWhile p (drop n xs) = drop (length (takeWhile p (drop n xs))) (drop n xs)" by (rule dropWhile_eq_drop)
  then show ?thesis by (metis drop_drop)
qed

lemma advanced_log:
  assumes "logOk t st" and "gr \<in> set (groups st)" and "gId gr = g"
    and groups: "groups st' = update_where (\<lambda>r. gId r = g) (\<lambda>r. r\<lparr>gActiveEpoch := gActiveEpoch gr + 1, gUpdatedAt := t\<rparr>) (groups st)"
    and log: "commitLog st' = insert_or_ignore commitIndex
         \<lparr>cGroup = g, cBase = gActiveEpoch gr, cCommit = c, cSenderDevice = d, cCreatedAt = t\<rparr> (commitLog st)"
  shows "logOk t st'"
proof -
  define row where "row = \<lparr>cGroup = g, cBase = gActiveEpoch gr, cCommit = c, cSenderDevice = d, cCreatedAt = t\<rparr>"
  have row: "cGroup row = g" "cBase row = gActiveEpoch gr" "cCreatedAt row = t" by (simp_all add: row_def)
  note own = advanced_own [OF assms(1-3) row(1,2) log [folded row_def]]
  have old: "cGroup r \<in> gId ` set (groups st)" "cCreatedAt r \<le> t" if "r \<in> set (commitLog st)" for r
    using logOkD(2,3) [OF assms(1) that] .
  have "contiguous (gActiveEpoch x) (ownCommits (gId x) st')" if x: "x \<in> set (groups st')" for x
  proof -
    obtain r where r: "r \<in> set (groups st)"
      and x: "x = (if gId r = g then r\<lparr>gActiveEpoch := gActiveEpoch gr + 1, gUpdatedAt := t\<rparr> else r)"
      using x by (auto simp: groups update_where_def)
    show ?thesis
      using contiguous_snoc [OF logOkD(1) [OF assms(1,2)] row(2)] logOkD(1) [OF assms(1) r] assms(3)
      by (simp add: x own(2))
  qed
  moreover have "gId ` set (groups st') = gId ` set (groups st)" by (simp add: groups update_ids)
  moreover have "cCreatedAt r \<le> cCreatedAt r'"
    if "r \<in> set (commitLog st @ [row])" "r' \<in> set (commitLog st @ [row])" "cGroup r = cGroup r'" "cBase r \<le> cBase r'" for r r'
    using that logOkD(4) [OF assms(1), of r r'] old logOk_below [OF assms(1,2), of r'] row assms(3) by auto
  ultimately show ?thesis
    using old assms(2,3) row unfolding logOk_def own(1) by auto
qed

lemma table_step_log:
  assumes "table_step t k st st'" and "keyed st" and "logOk t st"
  shows "logOk t st'"
  using assms(1)
proof (cases rule: table_step.cases)
  case kept
  then have "groups st' = groups st" "commitLog st' = commitLog st" by (simp_all add: ordinary_def)
  with assms(3) show ?thesis by (simp add: logOk_def ownCommits_def)
next
  case (edited f p)
  then have log: "commitLog st' = commitLog st" and groups: "groups st' = update_where p f (groups st)" by simp_all
  show ?thesis
  proof (rule logOkI [OF _ _ assms(3)])
    fix gr assume "gr \<in> set (groups st')"
    then obtain r where "r \<in> set (groups st)" "gId gr = gId r" "gActiveEpoch gr = gActiveEpoch r"
      unfolding groups using edited(3) by (elim updated_row) simp_all
    with logOkD(1) [OF assms(3)] show "contiguous (gActiveEpoch gr) (ownCommits (gId gr) st')"
      by (simp add: ownCommits_cong [OF log])
  qed (simp_all add: log groups update_ids edited(3))
next
  case (opened row)
  note none = drawn_empty [OF assms(3) opened(2)]
  show ?thesis
    by (rule logOkI [OF _ _ assms(3)])
      (use none opened(3,5,7) logOkD(1) [OF assms(3)] in \<open>auto simp: ownCommits_cong [OF opened(7)] contiguous_def\<close>)
next
  case (buried f gs)
  show ?thesis
  proof (rule logOkI [OF _ _ assms(3)])
    fix gr assume "gr \<in> set (groups st')"
    then obtain r where "r \<in> set (groups st)" "gId gr = gId r" "gActiveEpoch gr = gActiveEpoch r"
      unfolding buried(3) using buried(2) by (elim updated_row) simp_all
    with logOkD(1) [OF assms(3)] show "contiguous (gActiveEpoch gr) (ownCommits (gId gr) st')"
      by (simp add: ownCommits_clear [OF buried(4)] contiguous_def)
  qed (simp_all add: buried(2,3,4) update_ids delete_where_def)
next
  case (forgotten gs)
  show ?thesis
    by (rule logOkI [OF _ _ assms(3)])
      (auto simp: forgotten(3,4) delete_where_def ownCommits_clear [OF forgotten(4)] logOkD(1) [OF assms(3)])
next
  case (advanced g gr c d)
  note gr = findGroup_Some [OF advanced(2)]
  show ?thesis by (rule advanced_log [OF assms(3) _ _ advanced(3,4)]) (use gr in auto)
next
  case pruned
  show ?thesis
  proof (rule logOkI [OF _ _ assms(3)])
    fix gr assume "gr \<in> set (groups st')"
    then have "gr \<in> set (groups st)" by (simp add: pruned pruneExpiredCommitLog_def Let_def)
    moreover have "distinct (map gId (groups st))" using assms(2) by (simp add: keyed_def)
    ultimately obtain n where "ownCommits (gId gr) st' = drop n (ownCommits (gId gr) st)"
      using pruned_own [OF assms(3)] pruned dropWhile_is_drop by metis
    with logOkD(1) [OF assms(3) \<open>gr \<in> set (groups st)\<close>] show "contiguous (gActiveEpoch gr) (ownCommits (gId gr) st')"
      using contiguous_drop by simp
  qed (auto simp: pruned pruneExpiredCommitLog_def Let_def delete_where_def)
qed

lemma table_step_consistent: "table_step t k st st' \<Longrightarrow> consistent t st \<Longrightarrow> consistent t st'"
  by (simp add: consistent_def table_step_keyed table_step_trimmed table_step_queue table_step_log)

subsection \<open>What each does to the logs\<close>

lemma viewLog_cong:
  assumes "\<And>g. map_option (\<lambda>r. (gDeletedAt r \<noteq> None, gActiveEpoch r)) (findGroup g st')
      = map_option (\<lambda>r. (gDeletedAt r \<noteq> None, gActiveEpoch r)) (findGroup g st)"
    and "\<And>g. ownCommits g st' = ownCommits g st"
  shows "viewLog st' = viewLog st"
proof
  fix g show "viewLog st' g = viewLog st g"
    using assms(1) [of g] by (cases "findGroup g st"; cases "findGroup g st'") (simp_all add: viewLog_def assms(2))
qed

lemma findGroup_update:
  assumes "groups st' = update_where p f (groups st)" and "\<And>r. gId (f r) = gId r"
  shows "findGroup g st' = map_option (\<lambda>r. if p r then f r else r) (findGroup g st)"
  unfolding findGroup_def assms(1) by (rule find_update_where) (simp add: assms(2))

lemma find_delete_where: "find p (delete_where q rs) = find (\<lambda>r. p r \<and> \<not> q r) rs"
  by (induction rs) (auto simp: delete_where_def)

lemma ordinary_view: "ordinary st st' \<Longrightarrow> viewLog st' = viewLog st"
  by (intro viewLog_cong) (simp_all add: ordinary_def findGroup_def ownCommits_def)

lemma edited_view:
  assumes "\<And>r. gId (f r) = gId r \<and> gDeletedAt (f r) = gDeletedAt r \<and> gActiveEpoch (f r) = gActiveEpoch r"
  shows "viewLog (st\<lparr>groups := update_where p f (groups st)\<rparr>) = viewLog st"
proof (rule viewLog_cong)
  fix g
  have "findGroup g (st\<lparr>groups := update_where p f (groups st)\<rparr>) = map_option (\<lambda>r. if p r then f r else r) (findGroup g st)"
    by (rule findGroup_update) (simp_all add: assms)
  then show "map_option (\<lambda>r. (gDeletedAt r \<noteq> None, gActiveEpoch r)) (findGroup g (st\<lparr>groups := update_where p f (groups st)\<rparr>))
      = map_option (\<lambda>r. (gDeletedAt r \<noteq> None, gActiveEpoch r)) (findGroup g st)"
    by (cases "findGroup g st") (simp_all add: assms)
qed (simp add: ownCommits_def)

lemma opened_view:
  assumes "logOk t st" and "drawn (gId row) st" and "gActiveEpoch row = 0" and "gDeletedAt row = None"
    and "groups st' = groups st @ [row]" and "commitLog st' = commitLog st"
  shows "viewLog st (gId row) = None" and "viewLog st' = (viewLog st)(gId row \<mapsto> lg_new)"
proof -
  note none = drawn_empty [OF assms(1,2)]
  have new: "findGroup (gId row) st = None"
    using assms(2) unfolding drawn_def findGroup_def find_None_iff image_iff by metis
  then show "viewLog st (gId row) = None" by (simp add: viewLog_def)
  show "viewLog st' = (viewLog st)(gId row \<mapsto> lg_new)"
  proof
    fix g show "viewLog st' g = ((viewLog st)(gId row \<mapsto> lg_new)) g"
      using new assms(3,4) unfolding viewLog_def ownCommits_cong [OF assms(6)]
      by (cases "findGroup g st") (auto simp: findGroup_def assms(5) find_append_new none lg_new_def)
  qed
qed

lemma buried_view:
  assumes "\<And>r. gId (f r) = gId r \<and> gActiveEpoch (f r) = gActiveEpoch r \<and> gDeletedAt (f r) \<noteq> None"
    and "groups st' = update_where (\<lambda>r. gId r \<in> gs) f (groups st)"
    and "commitLog st' = delete_where (\<lambda>r. cGroup r \<in> gs) (commitLog st)"
  shows "viewLog st' = (\<lambda>g. if g \<in> gs then map_option lg_close (viewLog st g) else viewLog st g)"
proof
  fix g
  have found: "findGroup g st' = map_option (\<lambda>r. if gId r \<in> gs then f r else r) (findGroup g st)"
    by (rule findGroup_update [OF assms(2)]) (simp add: assms(1))
  show "viewLog st' g = (if g \<in> gs then map_option lg_close (viewLog st g) else viewLog st g)"
  proof (cases "findGroup g st")
    case None
    with found show ?thesis by (simp add: viewLog_def)
  next
    case (Some gr)
    then have "gId gr = g" using findGroup_Some by blast
    with Some found assms(1) show ?thesis by (simp add: viewLog_def ownCommits_clear [OF assms(3)] lg_close_def)
  qed
qed

lemma forgotten_view:
  assumes "groups st' = delete_where (\<lambda>r. gId r \<in> gs) (groups st)"
    and "commitLog st' = delete_where (\<lambda>r. cGroup r \<in> gs) (commitLog st)"
  shows "viewLog st' = viewLog st |` (- gs)"
proof
  fix g
  have "find (\<lambda>r. gId r = g \<and> gId r \<notin> gs) rs = (if g \<in> gs then None else find (\<lambda>r. gId r = g) rs)" for rs :: "group_row list"
    by (induction rs) auto
  then have "findGroup g st' = (if g \<in> gs then None else findGroup g st)"
    by (simp add: findGroup_def assms(1) find_delete_where)
  then show "viewLog st' g = (viewLog st |` (- gs)) g" by (simp add: viewLog_def ownCommits_clear [OF assms(2)])
qed

lemma advanced_view:
  assumes "logOk t st" and "findGroup g st = Some gr"
    and groups: "groups st' = update_where (\<lambda>r. gId r = g) (\<lambda>r. r\<lparr>gActiveEpoch := gActiveEpoch gr + 1, gUpdatedAt := t\<rparr>) (groups st)"
    and log: "commitLog st' = insert_or_ignore commitIndex
         \<lparr>cGroup = g, cBase = gActiveEpoch gr, cCommit = c, cSenderDevice = d, cCreatedAt = t\<rparr> (commitLog st)"
  obtains l where "viewLog st g = Some l" and "lgEpoch l = gActiveEpoch gr" and "viewLog st' = (viewLog st)(g \<mapsto> lg_commit t c l)"
proof -
  have gr: "gr \<in> set (groups st)" "gId gr = g" using findGroup_Some [OF assms(2)] by auto
  note own = advanced_own(2) [OF assms(1) gr _ _ log, simplified]
  have found: "findGroup h st' = map_option (\<lambda>r. if h = g then r\<lparr>gActiveEpoch := gActiveEpoch gr + 1, gUpdatedAt := t\<rparr> else r) (findGroup h st)" for h
    unfolding findGroup_def groups by (rule findGroup_advance)
  obtain l where l: "viewLog st g = Some l" "lgEpoch l = gActiveEpoch gr" using assms(2) by (simp add: viewLog_def)
  have "viewLog st' h = ((viewLog st)(g \<mapsto> lg_commit t c l)) h" for h
    using l(1) assms(2) by (cases "h = g") (auto simp: viewLog_def own found lg_commit_def option.map_comp comp_def)
  with l that show thesis by blast
qed

lemma pruned_view:
  assumes "logOk t st" and "keyed st"
  shows "viewLog (snd (pruneExpiredCommitLog t st)) = (\<lambda>g. map_option (lg_expire t) (viewLog st g))"
proof
  fix g
  have found: "findGroup g (snd (pruneExpiredCommitLog t st)) = findGroup g st"
    by (simp add: pruneExpiredCommitLog_def Let_def findGroup_def)
  show "viewLog (snd (pruneExpiredCommitLog t st)) g = map_option (lg_expire t) (viewLog st g)"
  proof (cases "findGroup g st")
    case None
    with found show ?thesis by (simp add: viewLog_def)
  next
    case (Some gr)
    then have gr: "gr \<in> set (groups st)" "gId gr = g" using findGroup_Some by auto
    have "distinct (map gId (groups st))" using assms(2) by (simp add: keyed_def)
    from pruned_own [OF assms(1) this gr(1)] gr(2) Some found show ?thesis
      by (simp add: viewLog_def lg_expire_def dropWhile_map drop_map comp_def)
  qed
qed

section \<open>Changes that are upkeep\<close>

interpretation sweeps: simulation "table_step t Upkeep" "consistent t" viewLog "upkeep t" for t
proof
  fix st st'
  assume ok: "consistent t st" and step: "table_step t Upkeep st st'"
  show "consistent t st'" by (rule table_step_consistent [OF step ok])
  from ok have "logOk t st" "keyed st" by (simp_all add: consistent_def)
  from step show "(upkeep t)\<^sup>*\<^sup>* (viewLog st) (viewLog st')"
  proof (cases rule: table_step.cases)
    case kept
    then show ?thesis by (simp add: ordinary_view)
  next
    case (edited f p)
    then show ?thesis by (simp add: edited_view)
  next
    case (forgotten gs)
    have "lgClosed l" if "g \<in> gs" "viewLog st g = Some l" for g l
      using that forgotten \<open>keyed st\<close> findGroup_Some [of g st] by (auto simp: viewLog_def)
    then have "upkeep t (viewLog st) (viewLog st |` (- gs))" by (rule upkeep.forgets)
    then show ?thesis by (simp add: forgotten_view [OF forgotten(2,3)] r_into_rtranclp [of "upkeep t"])
  next
    case pruned
    have "upkeep t (viewLog st) (viewLog st')" unfolding pruned pruned_view [OF \<open>logOk t st\<close> \<open>keyed st\<close>] by (rule upkeep.expires)
    then show ?thesis by (rule r_into_rtranclp [of "upkeep t"])
  qed
qed

section \<open>Reading the log\<close>

lemma contiguous_cases:
  assumes "map cBase rows = [k..<e]" and "k \<le> e"
  obtains "rows = []" "k = e" | r rs where "rows = r # rs" "cBase r = k" "map cBase rs = [Suc k..<e]" "k < e"
proof (cases rows)
  case Nil
  with assms have "k = e" by (metis list.simps(8) upt_eq_Nil_conv le_antisym le_zero_eq)
  with Nil that(1) show ?thesis by blast
next
  case (Cons r rs)
  with assms(1) have "k < e" by (cases "k < e") simp_all
  with assms(1) Cons that(2) show ?thesis by (simp add: upt_conv_Cons)
qed

lemma walk_contiguous:
  "map cBase rows = [k..<e] \<Longrightarrow> k \<le> e \<Longrightarrow> walkCommits k rows = (zip [k..<e] (map cCommit rows), None, e)"
proof (induction rows arbitrary: k)
  case (Cons r rs)
  from Cons.prems show ?case
    by (cases rule: contiguous_cases) (use Cons.IH in \<open>auto simp: upt_conv_Cons\<close>)
next
  case Nil
  then show ?case by (cases rule: contiguous_cases) simp_all
qed

lemma filter_contiguous: "map cBase rows = [k..<e] \<Longrightarrow> k \<le> n \<Longrightarrow> filter (\<lambda>r. n \<le> cBase r) rows = drop (n - k) rows"
proof (induction rows arbitrary: k)
  case (Cons r rs)
  then have "k < e" by (cases "k < e") simp_all
  then have r: "cBase r = k" "map cBase rs = [Suc k..<e]" using Cons.prems(1) by (simp_all add: upt_conv_Cons)
  show ?case
  proof (cases "n = k")
    case True
    have "\<forall>x \<in> set rs. k \<le> cBase x"
    proof
      fix x assume "x \<in> set rs"
      then have "cBase x \<in> set (map cBase rs)" by simp
      then show "k \<le> cBase x" unfolding r(2) by simp
    qed
    with True r(1) show ?thesis by simp
  next
    case False
    with Cons.prems(2) have "Suc k \<le> n" "n - k = Suc (n - Suc k)" by simp_all
    with Cons.IH [OF r(2)] r(1) show ?thesis by simp
  qed
qed simp

lemma getCommitsSince_abstract:
  assumes "logOk t st" and "getCommitsSince g n u st = Inr r"
  shows "r = (case absLog st g of Some l \<Rightarrow> al_since n l
    | None \<Rightarrow> \<lparr>csCommits = [], csActiveEpoch = 0, csBelowFloor = False, csGapAt = None\<rparr>)"
proof -
  define own where "own = ownCommits g st"
  note run = assms(2) [unfolded getCommitsSince_def Let_def, folded ownCommits_def, folded own_def]
  show ?thesis
  proof (cases "findGroup g st")
    case None
    then have "filter (\<lambda>r. cGroup r = g) (commitLog st) = []"
      using logOkD(2) [OF assms(1)] unfolding findGroup_def find_None_iff filter_empty_conv image_iff by metis
    then have "own = []" by (simp add: own_def ownCommits_def)
    with run None show ?thesis by (auto simp: absLog_def split: if_splits)
  next
    case (Some gr)
    define e where "e = gActiveEpoch gr"
    define k where "k = e - length own"
    have "contiguous e own" using logOkD(1) [OF assms(1)] findGroup_Some [OF Some] by (auto simp: own_def e_def)
    then have own: "map cBase own = [k..<e]" "k + length own = e"
      using contiguous_length [of e own] by (simp_all add: contiguous_def k_def)
    then have "k \<le> e" by simp
    have l: "absLog st g = Some (k, map cCommit own)" by (simp add: absLog_def Some own_def k_def e_def)
    note run = run [unfolded Some option.case, folded e_def]
    show ?thesis
    proof (cases "n < k")
      case True
      from own(1) \<open>k \<le> e\<close> show ?thesis
      proof (cases rule: contiguous_cases)
        case 1
        with True run show ?thesis by (auto simp: l al_since_def al_epoch_def split: if_splits)
      next
        case (2 x xs)
        have "filter (\<lambda>r. n \<le> cBase r) own = own"
        proof (rule filter_True, rule ballI)
          fix r assume "r \<in> set own"
          then have "cBase r \<in> set (map cBase own)" by simp
          with True show "n \<le> cBase r" unfolding own(1) by simp
        qed
        with True 2 run own(2) show ?thesis by (auto simp: l al_since_def al_epoch_def split: if_splits)
      qed
    next
      case False
      then have rows: "filter (\<lambda>r. n \<le> cBase r) own = drop (n - k) own" using filter_contiguous [OF own(1)] by simp
      have walk: "walkCommits n (drop (n - k) own) = (zip [n..<e] (drop (n - k) (map cCommit own)), None, max n e)"
      proof (cases "n \<le> e")
        case True
        have "map cBase (drop (n - k) own) = [n..<e]" using False own(1) by (simp flip: drop_map)
        from walk_contiguous [OF this True] True show ?thesis by (simp add: drop_map max_def)
      qed (use own(2) in simp)
      have "own \<noteq> [] \<Longrightarrow> cBase (hd own) = k" using own(1) \<open>k \<le> e\<close> by (cases rule: contiguous_cases) simp_all
      with False run rows walk own(2) show ?thesis by (auto simp: l al_since_def al_epoch_def split: if_splits)
    qed
  qed
qed

end
