(* ===== verification/Service.thy ===== *)
theory Service
  imports Log_Refinement
begin

text \<open>
  The delivery service as a whole: one rule per request and per job, run one after the other by a clock
  that does not go back. Every one of them is a sequence of the table changes of \<open>Log_Refinement\<close>, so
  that what holds of these holds of every store the service can reach. Requests that overlap are the
  subject of \<open>Commit_Race\<close> and \<open>Distribution\<close>.
\<close>

section \<open>Requests\<close>

text \<open>Messages, Welcomes, commits and the queue (\<open>messaging.service.ts\<close>).\<close>

inductive message_step :: "int \<Rightarrow> delivery \<Rightarrow> delivery \<Rightarrow> bool" for t where
  "eNow e = t \<Longrightarrow> sendMessage e auth body st = (r, st', eff) \<Longrightarrow> message_step t st st'"
| "eNow e = t \<Longrightarrow> sendWelcome e auth body st = (r, st', eff) \<Longrightarrow> message_step t st st'"
| "eNow e = t \<Longrightarrow> validateCommit e body st = (r, st', eff) \<Longrightarrow> message_step t st st'"
| "storeGroupInfo g u info base st = (r, st') \<Longrightarrow> message_step t st st'"
| "eNow e = t \<Longrightarrow> notifyHistoryRequest e shuffle auth body st = (r, st', fs) \<Longrightarrow> message_step t st st'"
| "eNow e = t \<Longrightarrow> notifyBaseRefreshRequest e shuffle auth body st = (r, st', fs) \<Longrightarrow> message_step t st st'"
| "eNow e = t \<Longrightarrow> notifyWelcomeRequest e auth body st = (r, st', fs) \<Longrightarrow> message_step t st st'"
| "fetchMessages u d h a limit after st = (r, st') \<Longrightarrow> message_step t st st'"
| "acknowledgeMessages u d ids h a st = (r, st') \<Longrightarrow> message_step t st st'"

text \<open>Groups, members, invitations, seats and the lock on additions (\<open>groups\<close>, \<open>members\<close>, \<open>invitations\<close>
  and \<open>locks\<close> controllers).\<close>

inductive group_step :: "int \<Rightarrow> delivery \<Rightarrow> delivery \<Rightarrow> bool" for t where
  "eNow e = t \<Longrightarrow> drawn g st \<Longrightarrow> group_step t st (createGroup e g body st)"
| "eNow e = t \<Longrightarrow> renameGroup e g name st = (r, st') \<Longrightarrow> group_step t st st'"
| "eNow e = t \<Longrightarrow> setGroupImage e g media st = (r, st') \<Longrightarrow> group_step t st st'"
| "eNow e = t \<Longrightarrow> deleteGroup e g st = (r, st') \<Longrightarrow> group_step t st st'"
| "acquireAddLock t u g d ttl st = (r, st') \<Longrightarrow> group_step t st st'"
| "releaseAddLock t u g d st = (r, st') \<Longrightarrow> group_step t st st'"
| "dismissGroup u g h a st = (r, st') \<Longrightarrow> group_step t st st'"
| "undismissGroup u g h a st = (r, st') \<Longrightarrow> group_step t st st'"
| "eNow e = t \<Longrightarrow> addGroupMember e blocks g u h a st = (r, st') \<Longrightarrow> group_step t st st'"
| "removeGroupMember g u h a st = (r, st') \<Longrightarrow> group_step t st st'"
| "createGroupInvite i token g h a ex mx st = (r, st') \<Longrightarrow> group_step t st st'"
| "eNow e = t \<Longrightarrow> acceptGroupInvite e token h st = (r, st', fs) \<Longrightarrow> group_step t st st'"
| "eNow e = t \<Longrightarrow> updateInvitationStatus e d u g s h a st = (r, st') \<Longrightarrow> group_step t st st'"
| "eNow e = t \<Longrightarrow> kickStaleUser e u g h a st = (r, st') \<Longrightarrow> group_step t st st'"
| "eNow e = t \<Longrightarrow> kickStaleDevice e d u g h a st = (r, st') \<Longrightarrow> group_step t st st'"
| "deleteDeviceMembership u d g st = (r, st') \<Longrightarrow> group_step t st st'"
| "forceLeave g d h st = (r, st') \<Longrightarrow> group_step t st st'"
| "deleteAllDeviceMemberships u d st = (r, st') \<Longrightarrow> group_step t st st'"

text \<open>Devices, their keys and the PIN (\<open>device\<close> and \<open>pin\<close> controllers).\<close>

inductive device_step :: "int \<Rightarrow> delivery \<Rightarrow> delivery \<Rightarrow> bool" for t where
  "registerDevice t body h a st = (r, st') \<Longrightarrow> device_step t st st'"
| "eNow e = t \<Longrightarrow> registerDevicePrekeys e u d p h a st = (r, st') \<Longrightarrow> device_step t st st'"
| "updateDeviceMetadata u d n os v h a st = (r, st') \<Longrightarrow> device_step t st st'"
| "getDeviceKeyPackage t u d st = (r, st') \<Longrightarrow> device_step t st st'"
| "getUserDevices names t u st = (rows, st') \<Longrightarrow> device_step t st st'"
| "purgeDevicePrekeys u d h a st = (r, st') \<Longrightarrow> device_step t st st'"
| "pruneDevicePrekeys u d ids h a st = (r, st') \<Longrightarrow> device_step t st st'"
| "deleteDevice t u d h a st = (r, st') \<Longrightarrow> device_step t st st'"
| "checkPinVerifier t u v d h a st = (r, st') \<Longrightarrow> device_step t st st'"
| "getPinSalt salt u h a st = (r, st') \<Longrightarrow> device_step t st st'"
| "changePin u old new h a st = (r, st') \<Longrightarrow> device_step t st st'"
| "resetPin u h a st = (r, st') \<Longrightarrow> device_step t st st'"

text \<open>Requests of an app in the background (\<open>push.controller.ts\<close>).\<close>

inductive push_step :: "int \<Rightarrow> delivery \<Rightarrow> delivery \<Rightarrow> bool" for t where
  "registerPushToken hash raw body u st = (r, st') \<Longrightarrow> push_step t st st'"
| "unregisterPushToken d u st = (r, st') \<Longrightarrow> push_step t st st'"
| "refreshPushTokenViaSecret hash header u d token v st = (r, st') \<Longrightarrow> push_step t st st'"
| "fetchProtoForPush hash header m u d st = (r, st') \<Longrightarrow> push_step t st st'"
| "acquireAddLockPush hash t header u d g st = (r, st') \<Longrightarrow> push_step t st st'"
| "releaseAddLockPush hash t header u d g st = (r, st') \<Longrightarrow> push_step t st st'"
| "getKeyPackagePush hash header u d tu td st = (r, st') \<Longrightarrow> push_step t st st'"
| "getCommitsPush hash header u d g s st = (r, st') \<Longrightarrow> push_step t st st'"
| "eNow e = t \<Longrightarrow> markMembershipActivePush hash e header u d g st = (r, st', eff) \<Longrightarrow> push_step t st st'"
| "eNow e = t \<Longrightarrow> sendMessagePush hash e header u d g p s du st = (r, st', eff) \<Longrightarrow> push_step t st st'"
| "eNow e = t \<Longrightarrow> sendWelcomeAndCommitPush hash e header body st = (r, st', eff) \<Longrightarrow> push_step t st st'"

text \<open>Requests of the other services (\<open>internal.controller.ts\<close>).\<close>

inductive internal_step :: "int \<Rightarrow> delivery \<Rightarrow> delivery \<Rightarrow> bool" for t where
  "eNow e = t \<Longrightarrow> drawn g st \<Longrightarrow> createDistributionGroup secret e g header scope sid st = (r, st') \<Longrightarrow> internal_step t st st'"
| "eNow e = t \<Longrightarrow> publishDistributionGroupInfo secret e scope sid header body st = (r, st') \<Longrightarrow> internal_step t st st'"
| "evictFromDistributionGroup secret scope sid u header st = (r, st') \<Longrightarrow> internal_step t st st'"
| "eNow e = t \<Longrightarrow> deleteDistributionGroup secret e scope sid header st = (r, st') \<Longrightarrow> internal_step t st st'"
| "eNow e = t \<Longrightarrow> deleteUserData secret e u header st = (r, st') \<Longrightarrow> internal_step t st st'"

text \<open>The jobs (\<open>app.controller.ts\<close>), each on its own schedule, and the sweep after a start.\<close>

inductive job_step :: "int \<Rightarrow> delivery \<Rightarrow> delivery \<Rightarrow> bool" for t where
  "job_step t st (detectStaleDevices t st)"
| "job_step t st (cleanupExpiredQueuedMessages t st)"
| "job_step t st (cleanupStaleDevices t st)"
| "job_step t st (cleanupStalePendingInvitations seatAt t st)"
| "job_step t st (cleanupSoftDeletedGroups t st)"
| "job_step t st (cleanupStalePushTokens tokenAt t st)"
| "job_step t st (cleanupExpiredRevocations t st)"
| "job_step t st (cleanupOrphanedRedisGroups pages st)"
| "job_step t st (cleanupOrphanedMemberRows st)"
| "job_step t st (snd (pruneExpiredCommitLog t st))"
| "job_step t st (runInitialSweep seatAt tokenAt pages t st)"

definition service_step :: "int \<Rightarrow> delivery \<Rightarrow> delivery \<Rightarrow> bool" where
  "service_step t st st' \<longleftrightarrow> message_step t st st' \<or> group_step t st st' \<or> device_step t st st' \<or> push_step t st st'
     \<or> internal_step t st st' \<or> job_step t st st'"

text \<open>The stores a service that started empty has had, and the instant of the last change.\<close>

inductive served :: "int \<Rightarrow> delivery \<Rightarrow> bool" where
  starts: "served t emptyStore"
| serves: "served t st \<Longrightarrow> t \<le> t' \<Longrightarrow> service_step t' st st' \<Longrightarrow> served t' st'"

section \<open>Every request is a sequence of table changes\<close>

text \<open>A request is a sequence of upkeep, or one other change followed by what leaves groups and logs alone.\<close>

inductive request :: "int \<Rightarrow> log_event \<Rightarrow> delivery \<Rightarrow> delivery \<Rightarrow> bool" for t where
  sweeps: "(table_step t Upkeep)\<^sup>*\<^sup>* st st' \<Longrightarrow> request t Upkeep st st'"
| changes: "table_step t k st st1 \<Longrightarrow> ordinary st1 st' \<Longrightarrow> request t k st st'"

definition quietly :: "int \<Rightarrow> delivery \<Rightarrow> delivery \<Rightarrow> bool" where
  "quietly t st st' \<longleftrightarrow> (\<exists>k. request t k st st' \<and> (\<forall>g c. k \<noteq> Commits g c))"

lemma upkeep1: "table_step t Upkeep st st' \<Longrightarrow> (table_step t Upkeep)\<^sup>*\<^sup>* st st'"
  by (rule r_into_rtranclp)

lemma kept: "ordinary st st' \<Longrightarrow> (table_step t Upkeep)\<^sup>*\<^sup>* st st'"
  by (rule upkeep1) (rule table_step.kept)

lemma sweeping: "(table_step t Upkeep)\<^sup>*\<^sup>* st st' \<Longrightarrow> quietly t st st'"
  unfolding quietly_def by (blast intro: request.sweeps)

lemma kept1: "ordinary st st' \<Longrightarrow> quietly t st st'"
  by (rule sweeping) (rule kept)

lemma quietly_refl [simp]: "quietly t st st"
  by (simp add: kept1)

lemma changing: "table_step t k st st1 \<Longrightarrow> ordinary st1 st' \<Longrightarrow> (\<And>g c. k \<noteq> Commits g c) \<Longrightarrow> quietly t st st'"
  unfolding quietly_def by (blast intro: request.changes)

lemma closing: "table_step t (Closes gs) st st' \<Longrightarrow> quietly t st st'"
  by (erule changing [OF _ ordinary_refl]) simp

lemma openingOne: "table_step t (Opens g) st st' \<Longrightarrow> quietly t st st'"
  by (erule changing [OF _ ordinary_refl]) simp

lemma owned_keyed: "keyed st \<Longrightarrow> keyed (deleteGroupRedisKeys gs (snd (deleteGroupOwnedRows gs b st)))"
  by (simp add: keyed_def deleteGroupRedisKeys_def deleteGroupOwnedRows_def keys_delete)

lemma owned_log:
  "commitLog (deleteGroupRedisKeys gs (snd (deleteGroupOwnedRows gs b st))) = delete_where (\<lambda>r. cGroup r \<in> set gs) (commitLog st)"
  "q \<in> set (queue (deleteGroupRedisKeys gs (snd (deleteGroupOwnedRows gs b st)))) \<longleftrightarrow>
     q \<in> set (queue st) \<and> (\<forall>g \<in> set gs. qGroup q \<noteq> Some g)"
  by (auto simp: deleteGroupRedisKeys_def deleteGroupOwnedRows_def delete_where_def queuedIn_def split: option.splits)

lemma keyed_groups: "(\<And>r. gId (f r) = gId r) \<Longrightarrow> keyed (st\<lparr>groups := update_where p f (groups st)\<rparr>) = keyed st"
  by (simp add: keyed_def keys_update)

lemma bury:
  assumes "\<And>r. gId (f r) = gId r \<and> gActiveEpoch (f r) = gActiveEpoch r \<and> gDeletedAt (f r) \<noteq> None"
  shows "table_step t (Closes (set gs)) st (deleteGroupRedisKeys gs (snd (deleteGroupOwnedRows gs b
    (st\<lparr>groups := update_where (\<lambda>r. gId r \<in> set gs) f (groups st)\<rparr>))))"
  by (rule table_step.buried [of f _ "set gs"]) (simp_all add: assms owned_log owned_keyed keyed_groups)

lemma forget_orphans:
  assumes "\<forall>g \<in> set gs. g \<notin> gId ` set (groups st)"
  shows "table_step t Upkeep st (deleteGroupRedisKeys gs (snd (deleteGroupOwnedRows gs b st)))"
proof -
  have "delete_where (\<lambda>r. gId r \<in> set gs) (groups st) = groups st"
    using assms by (auto simp: delete_where_def filter_id_conv)
  then show ?thesis
    by (intro table_step.forgotten [of _ "set gs"]) (use assms in \<open>auto simp: owned_log owned_keyed\<close>)
qed

lemma purge_step: "(table_step t Upkeep)\<^sup>*\<^sup>* st (snd (purgeOrphanGroups gs st))"
proof (cases "snd (purgeOrphanGroups gs st) = st")
  case False
  then have "snd (purgeOrphanGroups gs st) = deleteGroupRedisKeys (filter (\<lambda>g. g \<notin> set (map gId (filter (\<lambda>r. gId r \<in> set gs) (groups st)))) gs)
      (snd (deleteGroupOwnedRows (filter (\<lambda>g. g \<notin> set (map gId (filter (\<lambda>r. gId r \<in> set gs) (groups st)))) gs) False st))"
    by (simp add: purgeOrphanGroups_def Let_def split: if_splits)
  then show ?thesis by (auto intro!: upkeep1 forget_orphans)
qed simp

lemma createGroup_step:
  assumes "drawn g st"
  shows "table_step t (Opens g) st (createGroup e g body st)"
proof -
  define row where "row = \<lparr>gId = g, gName = nbName body, gImageMediaId = None,
                 gIsGroup = (case nbIsGroup body of None \<Rightarrow> True | Some b \<Rightarrow> b),
                 gDistributionWorkspaceId = None, gDistributionChannelId = None, gActiveEpoch = 0,
                 gDeletedAt = None, gUpdatedAt = eNow e\<rparr>"
  have row_id: "gId row = g" by (simp add: row_def)
  have "keyed (createGroup e g body st)" if "keyed st"
    using that assms
    by (auto simp: createGroup_def Let_def keyed_def sadd_def drawn_def deviceIndex_def image_iff)
  then show ?thesis
    by (intro table_step.opened [of row, unfolded row_id])
      (use assms in \<open>simp_all add: createGroup_def Let_def row_def sadd_def split: if_splits\<close>)
qed

lemma group_edit_step:
  "renameGroup e g name st = (r, st') \<Longrightarrow> quietly t st st'"
  "setGroupImage e g media st = (r2, st') \<Longrightarrow> quietly t st st'"
  by (auto simp: renameGroup_def setGroupImage_def Let_def intro!: sweeping upkeep1 table_step.edited split: sum.splits if_splits)

lemma deleteGroup_step: "deleteGroup e g st = (r, st') \<Longrightarrow> quietly t st st'"
proof (cases "sanitizeQueryValue g")
  case (Inr h)
  assume "deleteGroup e g st = (r, st')"
  with Inr have st': "st' = deleteGroupRedisKeys [h] (snd (deleteGroupOwnedRows [h] True (st\<lparr>groups :=
      update_where (\<lambda>r. gId r \<in> set [h]) (\<lambda>r. r\<lparr>gDeletedAt := Some (eNow e), gUpdatedAt := eNow e\<rparr>) (groups st)\<rparr>)))"
    by (simp add: deleteGroup_def Let_def)
  show ?thesis unfolding st' by (rule closing, rule bury) simp
qed (simp add: deleteGroup_def)

lemma createDistributionGroup_step:
  "createDistributionGroup secret e g header scope sid st = (r, st') \<Longrightarrow> drawn g st \<Longrightarrow> quietly t st st'"
  unfolding createDistributionGroup_def
proof (erule attempt_cases)
  fix x :: "dist_scope \<times> string" and r
  obtain sc sid' where x: "x = (sc, sid')" by fastforce
  assume drawn: "drawn g st" and "(case x of (sc, sid) \<Rightarrow> case findDistribution sc sid st of
            Some existing \<Rightarrow> (Inr (gId existing, False), st)
          | None \<Rightarrow> createAbsent e g sc sid st) = (r, st')"
  then have "st' = st \<or> insertDistribution e g sc sid' st = Some st'"
    by (auto simp: x createAbsent_def split: option.splits)
  then show "quietly t st st'"
  proof
    assume "insertDistribution e g sc sid' st = Some st'"
    then obtain row where row: "gId row = g" "gActiveEpoch row = 0" "gDeletedAt row = None" and st': "st' = st\<lparr>groups := groups st @ [row]\<rparr>"
      by (force simp: insertDistribution_def split: if_splits)
    have "keyed st'" if "keyed st" using that drawn row by (simp add: st' keyed_def drawn_def)
    with drawn row show ?thesis by (intro openingOne [of _ "gId row"] table_step.opened [of row]) (simp_all add: st')
  qed simp
qed simp

lemma deleteDistributionGroup_step:
  "deleteDistributionGroup secret e scope sid header st = (r, st') \<Longrightarrow> quietly t st st'"
  unfolding deleteDistributionGroup_def
proof (erule attempt_cases)
  fix sc r
  assume "(case findDistribution sc sid st of
            None \<Rightarrow> (Inr False, st)
          | Some gr \<Rightarrow>
              (let st1 = st\<lparr>groups := update_where (\<lambda>r. gId r = gId gr)
                     (\<lambda>r. r\<lparr>gDeletedAt := Some (eNow e), gDistributionWorkspaceId := None,
                            gDistributionChannelId := None, gUpdatedAt := eNow e\<rparr>) (groups st)\<rparr>
               in (Inr True, deleteGroupRedisKeys [gId gr] (snd (deleteGroupOwnedRows [gId gr] True st1))))) = (r, st')"
  then have "st' = st \<or> (\<exists>g. st' = deleteGroupRedisKeys [g] (snd (deleteGroupOwnedRows [g] True (st\<lparr>groups :=
      update_where (\<lambda>r. gId r \<in> set [g]) (\<lambda>r. r\<lparr>gDeletedAt := Some (eNow e), gDistributionWorkspaceId := None,
                            gDistributionChannelId := None, gUpdatedAt := eNow e\<rparr>) (groups st)\<rparr>))))"
    by (auto simp: Let_def split: option.splits)
  then show "quietly t st st'"
    by (elim disjE exE; hypsubst) (simp add: kept1, rule closing, rule bury, simp)
qed simp

lemma deleteDms_step: "deleteDms e gs st = st \<or> table_step t (Closes (set gs)) st (deleteDms e gs st)"
proof (cases "gs = []")
  case False
  then have "deleteDms e gs st = deleteGroupRedisKeys gs (snd (deleteGroupOwnedRows gs True (st\<lparr>groups :=
      update_where (\<lambda>r. gId r \<in> set gs) (\<lambda>r. r\<lparr>gDeletedAt := Some (eNow e), gUpdatedAt := eNow e\<rparr>) (groups st)\<rparr>)))"
    by (simp add: deleteDms_def)
  then show ?thesis by (simp only:) (rule disjI2, rule bury, simp)
qed (simp add: deleteDms_def)

lemma own_records_ordinary: "ordinary st (deleteOwnRecords u (unrouteFrom u gs st))"
proof -
  have "ordinary st (unrouteFrom u gs st)" by (simp add: unrouteFrom_def Let_def fold_srem_ordinary)
  then show ?thesis
    unfolding deleteOwnRecords_def by (intro ordinary_tables keys_delete ordinary_fields [THEN iffD2]) (auto simp: delete_where_def)
qed

lemma deleteUserData_step: "deleteUserData secret e u header st = (r, st') \<Longrightarrow> quietly t st st'"
  unfolding deleteUserData_def
proof (erule attempt_cases)
  assume "(Inr (), deleteOwnRecords u (unrouteFrom u (multiGroupsOf u st) (deleteDms e (dmsOf u st) st))) = (r, st')"
  then have "st' = deleteOwnRecords u (unrouteFrom u (multiGroupsOf u st) (deleteDms e (dmsOf u st) st))" by simp
  then show "quietly t st st'"
    using deleteDms_step [of e "dmsOf u st" st t] changing [OF _ own_records_ordinary] kept1 [OF own_records_ordinary] by (metis log_event.distinct(11))
qed simp

lemma fetchMessages_step: "fetchMessages u d h a limit after st = (r, st') \<Longrightarrow> quietly t st st'"
proof -
  assume "fetchMessages u d h a limit after st = (r, st')"
  then have "st' = st \<or> (\<exists>gs. st' = snd (purgeOrphanGroups gs st))"
    unfolding fetchMessages_def
  proof (elim attempt_cases)
    fix x :: "string \<times> string"
    obtain u d where x: "x = (u, d)" by fastforce
    define rows where "rows = rawPage (pageLimitOf limit) u d after st"
    define gs where "gs = uniq (map (\<lambda>q. orEmpty (qGroup q)) (filter (\<lambda>q. truthy (qGroup q)) rows))"
    assume "(case x of (u, d) \<Rightarrow>
          let rows = rawPage (pageLimitOf limit) u d after st;
              gids = uniq (map (\<lambda>q. orEmpty (qGroup q)) (filter (\<lambda>q. truthy (qGroup q)) rows))
          in case purgeOrphanGroups gids st of
               ((deliverable, tombstoned), st') \<Rightarrow>
                 (Inr (filter (\<lambda>q. \<not> truthy (qGroup q) \<or> orEmpty (qGroup q) \<in> set deliverable) rows), st')) = (r, st')"
    then have "st' = snd (purgeOrphanGroups gs st)"
      unfolding x prod.case Let_def rows_def [symmetric] gs_def [symmetric] by (auto split: prod.splits)
    then show ?thesis by blast
  qed simp
  with purge_step kept1 [OF ordinary_refl] sweeping show ?thesis by blast
qed

lemma commitTransaction_keyed: "keyed st \<Longrightarrow> keyed (commitTransaction t g b c d nb st)"
proof -
  have log: "keyed (s\<lparr>commitLog := insert_or_ignore commitIndex r (commitLog s)\<rparr>)" if "keyed s" for s r
    using that by (simp add: keyed_def keys_ignore)
  assume "keyed st"
  then have "keyed (setActiveEpoch t g (b + 1) st)" by (simp add: setActiveEpoch_def keyed_groups)
  then have "keyed (case nb of None \<Rightarrow> setActiveEpoch t g (b + 1) st
      | Some info \<Rightarrow> snd (putGroupInfo g info (int b + 1) (setActiveEpoch t g (b + 1) st)))"
    using putGroupInfo_ordinary by (auto simp: ordinary_def split: option.split)
  then show ?thesis unfolding commitTransaction_def Let_def by (rule log)
qed

lemma validateCommit_step:
  assumes "validateCommit e body st = (r, st', eff)" and "trimmedIds st"
  shows "(\<nexists>n. r = Inr (Accepted n)) \<Longrightarrow> quietly (eNow e) st st'"
    and "r = Inr (Accepted n) \<Longrightarrow> \<exists>g d c. commitRequest body = Inr (g, d) \<and> cbProto body = Some c \<and> request (eNow e) (Commits g c) st st'"
proof -
  let ?ok = "\<exists>g d gr. commitRequest body = Inr (g, d) \<and> lock_free (eNow e) (commitLock st g)
      \<and> findGroup g st = Some gr \<and> commitEpoch body = gActiveEpoch gr"
  have accepted: "(\<exists>n. r = Inr (Accepted n)) \<longleftrightarrow> ?ok"
  proof
    assume "\<exists>n. r = Inr (Accepted n)"
    with assms(1) show ?ok using validateCommit_refuse [of body e st] by (cases ?ok) auto
  next
    assume ?ok
    then obtain g d gr where "commitRequest body = Inr (g, d)" "lock_free (eNow e) (commitLock st g)"
      "findGroup g st = Some gr" "commitEpoch body = gActiveEpoch gr" by blast
    from validateCommit_accept [OF this] assms(1) show "\<exists>n. r = Inr (Accepted n)" by auto
  qed
  show "quietly (eNow e) st st'" if "\<nexists>n. r = Inr (Accepted n)"
  proof -
    from that accepted have "\<not> ?ok" by simp
    from validateCommit_refuse [OF this] assms(1) obtain l where "st' = st\<lparr>commitLock := l\<rparr>" by auto
    then show ?thesis by (auto intro!: kept1)
  qed
  show "\<exists>g d c. commitRequest body = Inr (g, d) \<and> cbProto body = Some c \<and> request (eNow e) (Commits g c) st st'"
    if "r = Inr (Accepted n)"
  proof -
    have ?ok using that accepted by simp
    then obtain g d gr where ok: "commitRequest body = Inr (g, d)" "lock_free (eNow e) (commitLock st g)"
      "findGroup g st = Some gr" "commitEpoch body = gActiveEpoch gr" by blast
    have proto: "cbProto body = Some (orEmpty (cbProto body))"
      using ok(1) by (auto simp: commitRequest_def truthy_def orEmpty_def bind_r_def split: sum.splits if_splits option.splits)
    define st1 where "st1 = st\<lparr>commitLock := (commitLock st)(g := Some (d, eNow e + COMMIT_LOCK_TTL_MS))\<rparr>"
    define st2 where "st2 = commitTransaction (eNow e) g (gActiveEpoch gr) (orEmpty (cbProto body)) d (publishedBase body) st1"
    obtain st3 eff3 where follow: "commitFollowUp e g d body st2 = (st3, eff3)" by fastforce
    have st': "st' = st3\<lparr>commitLock := (commitLock st3)(g := release_if (eNow e) d (commitLock st3 g))\<rparr>"
      using assms(1) ok follow by (simp add: validateCommit_cases [OF ok(1)] st1_def st2_def Let_def)
    have "keyed st2" if "keyed st" unfolding st2_def by (rule commitTransaction_keyed) (use that in \<open>simp add: st1_def keyed_def\<close>)
    then have advance: "table_step (eNow e) (Commits g (orEmpty (cbProto body))) st st2"
      by (intro table_step.advanced [OF ok(3)]) (simp_all add: st2_def, simp_all add: st1_def)
    have "trimmedIds st2" by (rule table_step_trimmed [OF advance assms(2)])
    from commitFollowUp_ordinary [OF follow this] have "ordinary st2 st'" by (simp add: st')
    with advance ok(1) proto show ?thesis by (blast intro: request.changes)
  qed
qed

lemma keyed_set_groups: "keyed st \<Longrightarrow> distinct (map gId rs) \<Longrightarrow> keyed (st\<lparr>groups := rs\<rparr>)"
  by (simp add: keyed_def)

lemma dead_ids:
  assumes "keyed st" and "r \<in> set (groups st)" and "gId r \<in> set (map gId (filter (deadSince c) (groups st)))"
  shows "gDeletedAt r \<noteq> None"
proof -
  obtain x where x: "x \<in> set (groups st)" "deadSince c x" "gId x = gId r" using assms(3) by auto
  with assms(1,2) have "x = r" unfolding keyed_def by (meson distinct_map inj_onD)
  with x(2) show ?thesis by (auto simp: deadSince_def split: option.splits)
qed

lemma soft_deleted_step: "(table_step t Upkeep)\<^sup>*\<^sup>* st (cleanupSoftDeletedGroups now st)"
proof -
  define ids where "ids = map gId (filter (deadSince (now - TOMBSTONE_MAX_AGE_MS)) (groups st))"
  define st1 where "st1 = deleteGroupRedisKeys ids (snd (deleteGroupOwnedRows ids False st))"
  define st2 where "st2 = st1\<lparr>groups := delete_where (\<lambda>r. gId r \<in> set ids) (groups st)\<rparr>"
  have "deleteGroupRedisKeys ids (s\<lparr>groups := rs\<rparr>) = (deleteGroupRedisKeys ids s)\<lparr>groups := rs\<rparr>" for s rs
    by (simp add: deleteGroupRedisKeys_def cong: if_cong)
  moreover have "groups (snd (deleteGroupOwnedRows ids b st)) = groups st" for b by (simp add: deleteGroupOwnedRows_def)
  ultimately have "cleanupSoftDeletedGroups now st = (if ids = [] then st else st2)"
    by (simp add: cleanupSoftDeletedGroups_def Let_def ids_def [symmetric] st1_def st2_def)
  moreover have "keyed st2" if "keyed st"
    unfolding st2_def using that
    by (intro keyed_set_groups) (simp_all add: st1_def owned_keyed, simp add: keyed_def keys_delete)
  then have "table_step t Upkeep st st2"
    using dead_ids [of st] unfolding ids_def
    by (intro table_step.forgotten [of _ "set ids"]) (simp_all add: st2_def ids_def, simp_all add: st1_def owned_log ids_def)
  ultimately show ?thesis by (simp add: upkeep1)
qed

lemma orphan_rows_step: "(table_step t Upkeep)\<^sup>*\<^sup>* st (cleanupOrphanedMemberRows st)"
  unfolding cleanupOrphanedMemberRows_def Let_def by (auto intro: purge_step)

lemma job_tables: "job_step t st st' \<Longrightarrow> quietly t st st'"
proof (rule sweeping, induction rule: job_step.induct)
  case (11 st seatAt tokenAt pages)
  show ?case unfolding runInitialSweep_def Let_def
    by (rule rtranclp_trans [OF _ upkeep1 [OF table_step.pruned]], rule rtranclp_trans [OF _ kept [OF job_ordinary(6)]],
      rule rtranclp_trans [OF _ kept [OF job_ordinary(4)]], rule rtranclp_trans [OF _ orphan_rows_step],
      rule rtranclp_trans [OF _ kept [OF job_ordinary(5)]], rule rtranclp_trans [OF _ soft_deleted_step],
      rule rtranclp_trans [OF _ kept [OF job_ordinary(7)]], rule rtranclp_trans [OF _ kept [OF job_ordinary(3)]],
      rule rtranclp_trans [OF _ kept [OF job_ordinary(2)]], rule kept [OF job_ordinary(1)])
qed (simp_all add: kept job_ordinary soft_deleted_step orphan_rows_step upkeep1 [OF table_step.pruned])

text \<open>A commit that is accepted, as a request of the service.\<close>

definition committing :: "int \<Rightarrow> string \<Rightarrow> string \<Rightarrow> delivery \<Rightarrow> delivery \<Rightarrow> bool" where
  "committing t g c st st' \<longleftrightarrow> (\<exists>e body n d eff. eNow e = t \<and> validateCommit e body st = (Inr (Accepted n), st', eff)
     \<and> commitRequest body = Inr (g, d) \<and> cbProto body = Some c)"

lemma commit_tables:
  assumes "eNow e = t" and "validateCommit e body st = (r, st', eff)" and "trimmedIds st"
  shows "quietly t st st' \<or> (\<exists>g c. committing t g c st st' \<and> request t (Commits g c) st st')"
proof (cases "\<exists>n. r = Inr (Accepted n)")
  case True
  then obtain n where n: "r = Inr (Accepted n)" by blast
  from validateCommit_step(2) [OF assms(2,3) n] assms(1,2) n show ?thesis unfolding committing_def by blast
next
  case False
  with validateCommit_step(1) [OF assms(2,3)] assms(1) show ?thesis by simp
qed

lemma message_quiet:
  "message_step t st st' \<Longrightarrow> trimmedIds st \<Longrightarrow> quietly t st st' \<or> (\<exists>e body r eff. eNow e = t \<and> validateCommit e body st = (r, st', eff))"
  by (erule message_step.cases)
    (blast intro: kept1 fetchMessages_step sendMessage_ordinary sendWelcome_ordinary
      storeGroupInfo_ordinary notifyHistoryRequest_ordinary notifyBaseRefreshRequest_ordinary
      notifyWelcomeRequest_ordinary acknowledgeMessages_ordinary)+

lemma message_tables:
  "message_step t st st' \<Longrightarrow> trimmedIds st \<Longrightarrow> quietly t st st' \<or> (\<exists>g c. committing t g c st st' \<and> request t (Commits g c) st st')"
  using message_quiet commit_tables by metis

lemma group_tables: "group_step t st st' \<Longrightarrow> quietly t st st'"
  by (erule group_step.cases)
    (blast intro: kept1 openingOne createGroup_step group_edit_step deleteGroup_step acquireAddLock_ordinary releaseAddLock_ordinary
      dismissGroup_ordinary undismissGroup_ordinary addGroupMember_ordinary removeGroupMember_ordinary
      createGroupInvite_ordinary acceptGroupInvite_ordinary updateInvitationStatus_ordinary kickStaleUser_ordinary
      kickStaleDevice_ordinary deleteDeviceMembership_ordinary forceLeave_ordinary deleteAllDeviceMemberships_ordinary)+

lemma device_tables: "device_step t st st' \<Longrightarrow> quietly t st st'"
  by (erule device_step.cases)
    (blast intro: kept1 registerDevice_ordinary registerDevicePrekeys_ordinary updateDeviceMetadata_ordinary
      getDeviceKeyPackage_ordinary getUserDevices_ordinary purgeDevicePrekeys_ordinary pruneDevicePrekeys_ordinary
      deleteDevice_ordinary checkPinVerifier_ordinary getPinSalt_ordinary changePin_ordinary resetPin_ordinary)+

lemma push_tables: "push_step t st st' \<Longrightarrow> trimmedIds st \<Longrightarrow> quietly t st st'"
  by (erule push_step.cases)
    (blast intro: kept1 registerPushToken_ordinary unregisterPushToken_ordinary refreshPushTokenViaSecret_ordinary
      fetchProtoForPush_ordinary acquireAddLockPush_ordinary releaseAddLockPush_ordinary getKeyPackagePush_ordinary
      getCommitsPush_ordinary markMembershipActivePush_ordinary sendMessagePush_ordinary sendWelcomeAndCommitPush_ordinary)+

lemma internal_tables: "internal_step t st st' \<Longrightarrow> quietly t st st'"
  by (erule internal_step.cases)
    (blast intro: kept1 createDistributionGroup_step publishDistributionGroupInfo_ordinary evictFromDistributionGroup_ordinary
      deleteDistributionGroup_step deleteUserData_step)+

lemma service_tables:
  "service_step t st st' \<Longrightarrow> trimmedIds st \<Longrightarrow> quietly t st st' \<or> (\<exists>g c. committing t g c st st' \<and> request t (Commits g c) st st')"
  unfolding service_step_def
  using message_tables group_tables device_tables push_tables internal_tables job_tables by blast

section \<open>What every store the service reaches has\<close>

lemma empty_consistent: "consistent t emptyStore"
  by (simp add: consistent_def keyed_def trimmedIds_def queueLive_def logOk_def emptyStore_def)

text \<open>What the label of a request says of the logs.\<close>

inductive log_step :: "int \<Rightarrow> log_event \<Rightarrow> (string \<rightharpoonup> group_log) \<Rightarrow> (string \<rightharpoonup> group_log) \<Rightarrow> bool" for t where
  upkeeps: "(upkeep t)\<^sup>*\<^sup>* A A' \<Longrightarrow> log_step t Upkeep A A'"
| opens: "A g = None \<Longrightarrow> log_step t (Opens g) A (A(g \<mapsto> lg_new))"
| closes: "log_step t (Closes gs) A (\<lambda>g. if g \<in> gs then map_option lg_close (A g) else A g)"
| commits: "A g = Some l \<Longrightarrow> log_step t (Commits g c) A (A(g \<mapsto> lg_commit t c l))"

lemma request_refines:
  assumes "request t k st st'" and "consistent t st"
  shows "consistent t st'" and "log_step t k (viewLog st) (viewLog st')"
proof -
  have log: "logOk t st" and keys: "keyed st" using assms(2) by (simp_all add: consistent_def)
  have "consistent t st' \<and> log_step t k (viewLog st) (viewLog st')"
    using assms(1)
  proof (cases rule: request.cases)
    case sweeps
    from sweeps.runs [OF sweeps(2) assms(2)] sweeps(1) show ?thesis by (simp add: log_step.upkeeps)
  next
    case (changes st1)
    have ok: "consistent t st'"
      using table_step_consistent [OF table_step.kept [OF changes(2)] table_step_consistent [OF changes(1) assms(2)]] .
    have view: "viewLog st' = viewLog st1" by (rule ordinary_view [OF changes(2)])
    from changes(1) have "log_step t k (viewLog st) (viewLog st1)"
    proof (cases rule: table_step.cases)
      case (opened row)
      from opened_view [OF log opened(2-5,7)] opened(1) show ?thesis by (simp add: log_step.opens)
    next
      case (buried f gs)
      from buried_view [OF buried(2-4)] buried(1) show ?thesis by (simp only: log_step.closes)
    next
      case (advanced g gr c d)
      obtain l where "viewLog st g = Some l" "viewLog st1 = (viewLog st)(g \<mapsto> lg_commit t c l)"
        by (rule advanced_view [OF log advanced(2-4)])
      with advanced(1) show ?thesis by (simp add: log_step.commits)
    qed (use sweeps.refines [OF assms(2)] changes(1) in \<open>simp_all add: log_step.upkeeps\<close>)
    with ok view show ?thesis by simp
  qed
  then show "consistent t st'" and "log_step t k (viewLog st) (viewLog st')" by simp_all
qed

lemma served_step:
  assumes "consistent t st" and "t \<le> t'" and "service_step t' st st'"
  shows "consistent t' st'"
    and "\<exists>k. log_step t' k (viewLog st) (viewLog st') \<and> (\<forall>g c. k = Commits g c \<longrightarrow> committing t' g c st st')"
proof -
  have ok: "consistent t' st" by (rule consistent_later [OF assms(1,2)])
  then have "trimmedIds st" by (simp add: consistent_def)
  from service_tables [OF assms(3) this]
  obtain k where "request t' k st st'" "\<forall>g c. k = Commits g c \<longrightarrow> committing t' g c st st'"
    unfolding quietly_def by blast
  with request_refines [OF this(1) ok] show "consistent t' st'"
    and "\<exists>k. log_step t' k (viewLog st) (viewLog st') \<and> (\<forall>g c. k = Commits g c \<longrightarrow> committing t' g c st st')" by blast+
qed

lemma committing_log:
  assumes "committing t g c st st'" and "consistent t st"
  shows "log_step t (Commits g c) (viewLog st) (viewLog st')"
proof -
  obtain e body n d eff where c: "eNow e = t" "validateCommit e body st = (Inr (Accepted n), st', eff)"
    "commitRequest body = Inr (g, d)" "cbProto body = Some c" using assms(1) by (auto simp: committing_def)
  have "trimmedIds st" using assms(2) by (simp add: consistent_def)
  from validateCommit_step(2) [OF c(2) this refl] c(1,3,4) have "request t (Commits g c) st st'" by auto
  then show ?thesis by (rule request_refines [OF _ assms(2)])
qed

lemma deleting_log:
  assumes "deleteGroup e i st = (Inr (), st')" and "sanitizeQueryValue i = Inr g"
  shows "viewLog st' = (\<lambda>h. if h = g then map_option lg_close (viewLog st h) else viewLog st h)"
proof -
  have st': "st' = deleteGroupRedisKeys [g] (snd (deleteGroupOwnedRows [g] True (st\<lparr>groups :=
      update_where (\<lambda>r. gId r \<in> {g}) (\<lambda>r. r\<lparr>gDeletedAt := Some (eNow e), gUpdatedAt := eNow e\<rparr>) (groups st)\<rparr>)))"
    using assms by (simp add: deleteGroup_def Let_def)
  from buried_view [of "\<lambda>r. r\<lparr>gDeletedAt := Some (eNow e), gUpdatedAt := eNow e\<rparr>" st' "{g}" st] show ?thesis
    by (simp add: st' owned_log)
qed

lemma served_consistent: "served t st \<Longrightarrow> consistent t st"
  by (induction rule: served.induct) (auto intro: empty_consistent served_step)

text \<open>
  C7: The tables keep their types. In every store the service reaches from an empty one, by any
  requests and jobs in any order, the unique indexes hold: one row per group id, per member of a group,
  per seat of a device, per epoch of a group in the commit log, per base, dismissal, key package, push
  token, PIN verifier and revocation.
\<close>

theorem store_keeps_indexes: "served t st \<Longrightarrow> keyed st"
  using served_consistent by (simp add: consistent_def)

text \<open>
  C4: Whatever the service has queued it can hand over. In every store it reaches, a queued message is
  of a group that exists and is not deleted; so a client whose pages all arrive ends its pull with
  exactly the rows waiting for its device, oldest first.
\<close>

theorem queue_is_deliverable:
  assumes "served t st"
  shows "(\<forall>q \<in> set (queue st). \<exists>g. qGroup q = Some g \<and> liveId g st)
    \<and> (\<forall>u d. safeId u \<and> safeId d \<and> u \<noteq> ''unknown'' \<longrightarrow>
         pullPendingMessagesJson (length (pendingFor u d st) + 1) (\<lambda>_. Delivered) u d st = Some (pendingFor u d st, False))"
proof -
  have live: "queueLive st" using served_consistent [OF assms] by (simp add: consistent_def)
  have "deliverableRow st q" if "q \<in> set (pendingFor u d st)" for u d q
  proof -
    have "q \<in> set (queue st)" using that by (auto simp: pendingFor_def)
    with live obtain g where "qGroup q = Some g" "liveId g st" by (auto simp: queueLive_def)
    then show ?thesis by (auto simp: deliverableRow_def liveId_def orEmpty_def)
  qed
  then have "pullPending (length (pendingFor u d st) + 1) (\<lambda>_. Delivered) u d 0 500 None [] st = Some ([] @ restFor u d st None, False)"
    if "safeId u" "safeId d" for u d
    by (intro pullPending_all [OF that]) simp_all
  then show ?thesis using live by (simp add: queueLive_def pullPendingMessagesJson_def)
qed

text \<open>
  C1: The commit log is an append-only log with retention. Read from the tables, every group has an
  epoch and the commits that led to it, kept from some epoch on without a hole. A request or a job of
  the service, on every store it reaches, does one of four things to these logs and leaves all else of
  them as it was: it opens an empty one at epoch 0; it closes some, which empties them at their epoch; it
  appends a commit to one, and then it is a commit request for that group, accepted, with that very
  commit; or it does upkeep, which drops old commits by the rule of retention and forgets logs that were
  closed before. Conversely every accepted commit is appended at its instant, deleting a group closes its
  log and no other, and the retention job keeps of every log exactly the newest commits up to the cap that
  are inside the window.
\<close>

theorem service_refines_log:
  assumes "served t st" and "t \<le> t'" and "service_step t' st st'"
  shows "(\<exists>k. log_step t' k (viewLog st) (viewLog st') \<and> (\<forall>g c. k = Commits g c \<longrightarrow> committing t' g c st st'))
    \<and> (\<forall>g c. committing t' g c st st' \<longrightarrow> log_step t' (Commits g c) (viewLog st) (viewLog st'))
    \<and> (\<forall>e i g. deleteGroup e i st = (Inr (), st') \<and> sanitizeQueryValue i = Inr g \<longrightarrow>
         viewLog st' = (\<lambda>h. if h = g then map_option lg_close (viewLog st h) else viewLog st h))
    \<and> (st' = snd (pruneExpiredCommitLog t' st) \<longrightarrow> viewLog st' = (\<lambda>g. map_option (lg_expire t') (viewLog st g)))
    \<and> (\<forall>g l. viewLog st' g = Some l \<longrightarrow>
         map cBase (ownCommits g st') = [lgEpoch l - length (lgEntries l)..<lgEpoch l])"
proof (intro conjI)
  note ok = served_consistent [OF assms(1)]
  have now: "consistent t' st" by (rule consistent_later [OF ok assms(2)])
  show "\<exists>k. log_step t' k (viewLog st) (viewLog st') \<and> (\<forall>g c. k = Commits g c \<longrightarrow> committing t' g c st st')"
    by (rule served_step [OF ok assms(2,3)])
  show "\<forall>g c. committing t' g c st st' \<longrightarrow> log_step t' (Commits g c) (viewLog st) (viewLog st')"
    using committing_log now by blast
  show "\<forall>e i g. deleteGroup e i st = (Inr (), st') \<and> sanitizeQueryValue i = Inr g \<longrightarrow>
         viewLog st' = (\<lambda>h. if h = g then map_option lg_close (viewLog st h) else viewLog st h)"
    using deleting_log by blast
  show "st' = snd (pruneExpiredCommitLog t' st) \<longrightarrow> viewLog st' = (\<lambda>g. map_option (lg_expire t') (viewLog st g))"
    using now pruned_view by (simp add: consistent_def)
  have log: "logOk t' st'" using served_step(1) [OF ok assms(2,3)] by (simp add: consistent_def)
  show "\<forall>g l. viewLog st' g = Some l \<longrightarrow> map cBase (ownCommits g st') = [lgEpoch l - length (lgEntries l)..<lgEpoch l]"
    using logOkD(1) [OF log] findGroup_Some by (fastforce simp: viewLog_def contiguous_def)
qed

text \<open>
  C6: A member reads the abstract log. In every store the service reaches, what a replay answers is what
  the log of the group says: the commits from the epoch asked for to the present one when the log goes
  back that far, the floor when it does not. A hole is reported only when the group has no commit left.
\<close>

theorem replay_reads_log:
  assumes "served t st" and "getCommitsSince g n u st = Inr r" and "absLog st g = Some l"
  shows "r = al_since n l \<and> (csGapAt r \<noteq> None \<longrightarrow> (\<forall>row \<in> set (commitLog st). cGroup row \<noteq> g))"
proof -
  have log: "logOk t st" using served_consistent [OF assms(1)] by (simp add: consistent_def)
  have r: "r = al_since n l" using getCommitsSince_abstract [OF log assms(2)] assms(3) by simp
  have "ownCommits g st = []" if "csGapAt r \<noteq> None"
    using that assms(3) by (auto simp: r al_since_def absLog_def split: if_splits)
  then have "\<forall>row \<in> set (commitLog st). cGroup row \<noteq> g" if "csGapAt r \<noteq> None"
    using that ownCommits_mem [of g st] by auto
  with r show ?thesis by blast
qed

section \<open>Worked examples\<close>

text \<open>A group, a registered device, a Welcome for it.\<close>

definition demo_create :: create_body where
  "demo_create = \<lparr>nbName = None, nbCreatedBy = Some ''ann'', nbIsGroup = None, nbCreatorDevice = Some ''d1''\<rparr>"

definition demo_opened :: delivery where
  "demo_opened = createGroup demo_env ''g'' demo_create emptyStore"

definition demo_joined :: delivery where
  "demo_joined = snd (addGroupMember demo_env [] (Some (JStr ''g'')) (Some (JStr ''ann'')) None (Some ''true'') demo_opened)"

definition demo_registered :: delivery where
  "demo_registered = snd (registerDevice 1000 demo_register (Some (JStr ''cat'')) None demo_opened)"

definition demo_welcome :: welcome_body where
  "demo_welcome = \<lparr>wbTargetDevice = Some (JStr ''d''), wbTargetUser = Some (JStr ''cat''), wbSenderUser = Some (JStr ''ann''),
     wbPayload = ''AAAA'', wbRatchetTree = None, wbGroup = Some (JStr ''g'')\<rparr>"

definition demo_welcomed :: delivery where
  "demo_welcomed = fst (snd (sendWelcome demo_env None demo_welcome demo_registered))"

lemma demo_drawn: "drawn ''g'' emptyStore"
  by (simp add: drawn_def emptyStore_def trim_def js_ws_def)

lemma demo_now: "eNow demo_env = 1000"
  by (simp add: demo_env_def)

lemma served_demo:
  "served 1000 demo_opened" "served 1000 demo_joined" "served 1000 demo_registered" "served 1000 demo_welcomed"
proof -
  have more: "served 1000 st'" if "served 1000 st" "service_step 1000 st st'" for st st'
    using that by (rule serves [OF _ order_refl])
  show opened: "served 1000 demo_opened" unfolding demo_opened_def
    by (rule more [OF starts]) (simp add: service_step_def group_step.intros(1) [OF demo_now demo_drawn])
  show "served 1000 demo_joined" unfolding demo_joined_def
    by (rule more [OF opened]) (simp add: service_step_def group_step.intros(9) [OF demo_now surjective_pairing])
  show registered: "served 1000 demo_registered" unfolding demo_registered_def
    by (rule more [OF opened]) (simp add: service_step_def device_step.intros(1) [OF surjective_pairing])
  have "sendWelcome demo_env None demo_welcome demo_registered =
      (fst (sendWelcome demo_env None demo_welcome demo_registered), demo_welcomed,
       snd (snd (sendWelcome demo_env None demo_welcome demo_registered)))" by (simp add: demo_welcomed_def)
  from message_step.intros(2) [OF demo_now this] show "served 1000 demo_welcomed"
    by (intro more [OF registered]) (simp add: service_step_def)
qed

lemma demo_opened_sel:
  "groups demo_opened = [(demo_group ''g'')\<lparr>gUpdatedAt := 1000\<rparr>]" "keyPackages demo_opened = []" "members demo_opened = []"
  "revokedDevices demo_opened = []" "queue demo_opened = []" "commitLog demo_opened = []" "commitLock demo_opened ''g'' = None"
  by (simp_all add: demo_opened_def createGroup_def demo_create_def demo_defs Let_def truthy_def orEmpty_def sadd_def)

lemma demo_joined_sel:
  "groups demo_joined = [(demo_group ''g'')\<lparr>gUpdatedAt := 1000\<rparr>]"
  "members demo_joined = [\<lparr>mGroup = ''g'', mUser = ''ann'', mRole = Member, mJoinedAt = 1000\<rparr>]"
  "commitLog demo_joined = []" "commitLock demo_joined ''g'' = None"
  by (simp_all add: demo_joined_def addGroupMember_def membership_eval demo_opened_sel demo_now upsert_row_def)

lemma demo_safe:
  "sanitizeQueryValue (Some (JStr ''cat'')) = Inr ''cat''" "sanitizeQueryValue (Some (JStr ''d'')) = Inr ''d''"
  by (simp_all add: sanitizeQueryValue_def SAFE_QUERY_VALUE_REGEX_def safe_char_def alnum_def trim_def js_ws_def)

lemma demo_registered_sel:
  "groups demo_registered = [(demo_group ''g'')\<lparr>gUpdatedAt := 1000\<rparr>]" "queue demo_registered = []"
  "keyPackages demo_registered = [\<lparr>kUser = ''cat'', kDevice = ''d'', kPayload = ''kp'', kName = None, kOs = None,
     kVersion = None, kCreatedAt = 1000\<rparr>]"
proof -
  have "registerRequest 1000 demo_register (Some (JStr ''cat'')) None demo_opened = Inr (''cat'', ''d'', ''kp'', None, None, None)"
    by (simp add: registerRequest_def demo_register_def sanitizeIdentityValue_def demo_safe UNRESOLVED_IDENTITY_VALUES_def
        assertCallerOwnsUserId_def sanitizeOptionalQueryValue_def isRevoked_def keyPackageOk_def deviceCount_def countIn_def
        demo_opened_sel MAX_DEVICES_PER_USER_def strOrEmpty_def trim_def js_ws_def result_simps
        sanitizeOptionalDeviceName_def sanitizeOptionalDeviceOs_def sanitizeOptionalDeviceAppVersion_def)
  then show "groups demo_registered = [(demo_group ''g'')\<lparr>gUpdatedAt := 1000\<rparr>]" "queue demo_registered = []"
    "keyPackages demo_registered = [\<lparr>kUser = ''cat'', kDevice = ''d'', kPayload = ''kp'', kName = None, kOs = None,
       kVersion = None, kCreatedAt = 1000\<rparr>]"
    by (simp_all add: demo_registered_def registerDevice_def attempt_def Let_def putKeyPackage_def findKeyPackage_def demo_opened_sel)
qed

lemma demo_waiting: "length (pendingFor ''cat'' ''d'' demo_welcomed) = 1"
proof -
  have "length (filter (\<lambda>q. qRecipient q = ''cat'' \<and> qDevice q = ''d'') (queue demo_welcomed)) = 1"
    by (simp add: demo_welcomed_def sendWelcome_def demo_welcome_def demo_safe safe_values sanitizeOptionalQueryValue_def
        result_simps demo_registered_sel enqueueForLiveGroup_def Let_def truthy_def orEmpty_def demo_group_def withIds_def
        upsertDevice_def sadd_def findGroup_def)
  then show ?thesis by (simp add: pendingFor_def)
qed

theorem store_keeps_indexes_witness: "served 1000 demo_joined \<and> keyed demo_joined \<and> members demo_joined \<noteq> []"
  using store_keeps_indexes [OF served_demo(2)] served_demo(2) by (simp add: demo_joined_sel)

theorem queue_is_deliverable_witness:
  "\<exists>q. pullPendingMessagesJson 2 (\<lambda>_. Delivered) ''cat'' ''d'' demo_welcomed = Some ([q], False) \<and> q \<in> set (queue demo_welcomed)"
proof -
  have safe: "safeId ''cat''" "safeId ''d''" by (simp_all add: safeId_def demo_safe)
  have all: "pullPendingMessagesJson (length (pendingFor ''cat'' ''d'' demo_welcomed) + 1) (\<lambda>_. Delivered) ''cat'' ''d'' demo_welcomed
      = Some (pendingFor ''cat'' ''d'' demo_welcomed, False)"
    using queue_is_deliverable [OF served_demo(4)] safe by blast
  from demo_waiting obtain q where q: "pendingFor ''cat'' ''d'' demo_welcomed = [q]" by (auto simp: length_Suc_conv)
  then have "q \<in> set (pendingFor ''cat'' ''d'' demo_welcomed)" by simp
  then have "q \<in> set (queue demo_welcomed)" by (simp add: pendingFor_def)
  with all q show ?thesis by (simp add: numeral_2_eq_2)
qed

lemma demo_commit_step:
  obtains st' where "service_step 1000 demo_joined st'" and "map_option gActiveEpoch (findGroup ''g'' st') = Some 1"
    and "members st' = members demo_joined"
    and "commitLog st' = [\<lparr>cGroup = ''g'', cBase = 0, cCommit = ''AAAA'', cSenderDevice = Some ''d1'', cCreatedAt = 1000\<rparr>]"
    and "committing 1000 ''g'' ''AAAA'' demo_joined st'"
proof -
  have free: "lock_free (eNow demo_env) (commitLock demo_joined ''g'')" by (simp add: lock_free_def demo_joined_sel)
  have gr: "findGroup ''g'' demo_joined = Some ((demo_group ''g'')\<lparr>gUpdatedAt := 1000\<rparr>)"
    by (simp add: findGroup_def demo_joined_sel demo_group_def)
  have base: "commitEpoch demo_commit = gActiveEpoch ((demo_group ''g'')\<lparr>gUpdatedAt := 1000\<rparr>)"
    by (simp add: commitEpoch_def baseEpochOf_def demo_commit_def demo_group_def)
  from validateCommit_accept [OF demo_commit_request free gr base] obtain st' r eff
    where run: "validateCommit demo_env demo_commit demo_joined = (Inr (Accepted r), st', eff)"
    and groups: "groups st' = update_where (\<lambda>r. gId r = ''g'') (\<lambda>r. r\<lparr>gActiveEpoch := gActiveEpoch ((demo_group ''g'')\<lparr>gUpdatedAt := 1000\<rparr>) + 1, gUpdatedAt := eNow demo_env\<rparr>) (groups demo_joined)"
    and log: "commitLog st' = insert_or_ignore commitIndex \<lparr>cGroup = ''g'', cBase = gActiveEpoch ((demo_group ''g'')\<lparr>gUpdatedAt := 1000\<rparr>),
         cCommit = orEmpty (cbProto demo_commit), cSenderDevice = Some ''d1'', cCreatedAt = eNow demo_env\<rparr> (commitLog demo_joined)"
    and members: "members st' = members demo_joined" by blast
  have "service_step 1000 demo_joined st'" using message_step.intros(3) [OF demo_now run] by (simp add: service_step_def)
  moreover have "map_option gActiveEpoch (findGroup ''g'' st') = Some 1"
    by (simp add: findGroup_def groups demo_joined_sel update_where_def demo_group_def)
  moreover have "commitLog st' = [\<lparr>cGroup = ''g'', cBase = 0, cCommit = ''AAAA'', cSenderDevice = Some ''d1'', cCreatedAt = 1000\<rparr>]"
    by (simp add: log demo_joined_sel insert_or_ignore_def demo_group_def demo_commit_def orEmpty_def demo_now)
  moreover have "committing 1000 ''g'' ''AAAA'' demo_joined st'"
    unfolding committing_def using run demo_commit_request demo_now by (force simp: demo_commit_def)
  ultimately show thesis using that members by blast
qed

theorem service_refines_log_witness:
  "\<exists>st'. service_step 1000 demo_joined st' \<and> viewLog demo_joined ''g'' = Some lg_new
     \<and> log_step 1000 (Commits ''g'' ''AAAA'') (viewLog demo_joined) (viewLog st')"
proof -
  obtain st' where step: "service_step 1000 demo_joined st'" and commits: "committing 1000 ''g'' ''AAAA'' demo_joined st'"
    by (rule demo_commit_step)
  have "viewLog demo_joined ''g'' = Some lg_new"
    by (simp add: viewLog_def findGroup_def demo_joined_sel demo_group_def ownCommits_def lg_new_def)
  with service_refines_log [OF served_demo(2) order_refl step] commits step show ?thesis by blast
qed

theorem replay_reads_log_witness:
  "\<exists>st' r. served 1000 st' \<and> getCommitsSince ''g'' 0 ''ann'' st' = Inr r \<and> r = al_since 0 (0, [''AAAA''])"
proof -
  obtain st' where step: "service_step 1000 demo_joined st'" and epoch: "map_option gActiveEpoch (findGroup ''g'' st') = Some 1"
    and members: "members st' = members demo_joined"
    and log: "commitLog st' = [\<lparr>cGroup = ''g'', cBase = 0, cCommit = ''AAAA'', cSenderDevice = Some ''d1'', cCreatedAt = 1000\<rparr>]"
    by (rule demo_commit_step)
  have served: "served 1000 st'" by (rule serves [OF served_demo(2) order_refl step])
  have "findMember ''g'' ''ann'' st' \<noteq> None" by (simp add: findMember_def members demo_joined_sel)
  moreover obtain cs gap fin where "walkCommits 0 (sort_key cBase (filter (\<lambda>r. cGroup r = ''g'') (commitLog st'))) = (cs, gap, fin)"
    by (metis prod_cases3)
  ultimately obtain r where run: "getCommitsSince ''g'' 0 ''ann'' st' = Inr r" by (simp add: getCommitsSince_def Let_def)
  have "absLog st' ''g'' = Some (0, [''AAAA''])" using epoch by (auto simp: absLog_def ownCommits_def log)
  from replay_reads_log [OF served run this] served run show ?thesis by blast
qed

end
