(* ===== verification/Mine_Board.thy ===== *)
theory Mine_Board
  imports Complex_Main Prelude "HOL-Library.Word"
begin

text \<open>
  The board of the Minesweeper game (\<open>apps/social-service/src/minesweeper/engine/game.ts\<close>, first part;
  the client plays on a copy of the file, \<open>frontend/src/lib/minesweeper/game.ts\<close>): the seeded generator of
  numbers, the cells and their neighbours, a first random layout, and the opening of a region. A cell
  index outside the board raises in the code; boards are created with one cell per square and every
  operation keeps it so, and the model reads a cell that is not there as nothing to do.
\<close>

unbundle bit_operations_syntax

section \<open>Random numbers\<close>

definition hashSeedToU32 :: "string \<Rightarrow> 32 word" where
  "hashSeedToU32 seed = fold (\<lambda>c h. (h XOR of_nat (of_char c)) * 16777619) seed 2166136261"

text \<open>One call of the generator: the number drawn and the next state.\<close>

definition mulberry32 :: "32 word \<Rightarrow> rat \<times> 32 word" where
  "mulberry32 s =
     (let state = s + 0x6d2b79f5;
          t1 = (state XOR drop_bit 15 state) * (state OR 1);
          t2 = t1 XOR (t1 + (t1 XOR drop_bit 7 t1) * (t1 OR 61));
          out = t2 XOR drop_bit 14 t2
      in (of_nat (unat out) / 4294967296, state))"

text \<open>
  A board with a seed draws from the generator, one without draws from \<open>Math.random\<close>, whose numbers
  are given by a function of the call.
\<close>

datatype rng = Mulberry "32 word" | System "nat \<Rightarrow> rat" nat

definition draw :: "rng \<Rightarrow> rat \<times> rng" where
  "draw g = (case g of
       Mulberry s \<Rightarrow> (case mulberry32 s of (r, s') \<Rightarrow> (r, Mulberry s'))
     | System f n \<Rightarrow> (f n, System f (Suc n)))"

text \<open>\<open>Math.floor(rng() * n)\<close>\<close>

definition drawBelow :: "nat \<Rightarrow> rng \<Rightarrow> nat \<times> rng" where
  "drawBelow n g = (case draw g of (r, g') \<Rightarrow> (nat \<lfloor>r * of_nat n\<rfloor>, g'))"

section \<open>Cells and boards\<close>

datatype cell_state = Hidden | Revealed | Flagged

record cell =
  mine :: bool
  adjacent :: nat
  cstate :: cell_state

datatype game_status = Playing | Won | Lost

text \<open>What the solver works on; the board of a game has three more fields.\<close>

record solve_state =
  width :: nat
  height :: nat
  mineCount :: nat
  cells :: "cell list"
  revealedCount :: nat
  flagCount :: nat
  status :: game_status

record board = solve_state +
  minesPlaced :: bool
  seed :: "string option"
  rng :: rng

record mine_config =
  cfWidth :: nat
  cfHeight :: nat
  cfMines :: nat

definition CHALLENGE :: mine_config where
  "CHALLENGE = \<lparr>cfWidth = 18, cfHeight = 32, cfMines = 150\<rparr>"

definition BEGINNER :: mine_config where
  "BEGINNER = \<lparr>cfWidth = 9, cfHeight = 9, cfMines = 10\<rparr>"

definition NEIGHBOR_DELTAS :: "(int \<times> int) list" where
  "NEIGHBOR_DELTAS = [(-1, -1), (-1, 0), (-1, 1), (0, -1), (0, 1), (1, -1), (1, 0), (1, 1)]"

definition idx :: "nat \<Rightarrow> int \<Rightarrow> int \<Rightarrow> nat" where
  "idx w x y = nat (y * int w + x)"

definition inBounds :: "nat \<Rightarrow> nat \<Rightarrow> int \<Rightarrow> int \<Rightarrow> bool" where
  "inBounds w h x y \<longleftrightarrow> x \<ge> 0 \<and> y \<ge> 0 \<and> x < int w \<and> y < int h"

text \<open>The generator a board starts with: its seed decides, and the seed may be empty or absent.\<close>

definition rngOf :: "(nat \<Rightarrow> rat) \<Rightarrow> string option \<Rightarrow> rng" where
  "rngOf sys sd = (case sd of None \<Rightarrow> System sys 0 | Some s \<Rightarrow> if s = [] then System sys 0 else Mulberry (hashSeedToU32 s))"

definition hiddenCell :: cell where
  "hiddenCell = \<lparr>mine = False, adjacent = 0, cstate = Hidden\<rparr>"

definition createBoard :: "(nat \<Rightarrow> rat) \<Rightarrow> mine_config \<Rightarrow> string option \<Rightarrow> board" where
  "createBoard sys cf sd =
     (let total = cfWidth cf * cfHeight cf
      in \<lparr>width = cfWidth cf, height = cfHeight cf,
          mineCount = nat (max 1 (min (int (cfMines cf)) (int total - 1))),
          cells = replicate total hiddenCell, revealedCount = 0, flagCount = 0, status = Playing,
          minesPlaced = False, seed = sd, rng = rngOf sys sd\<rparr>)"

text \<open>The neighbours of a square, in the order the code visits them.\<close>

definition neighborCoords :: "nat \<Rightarrow> nat \<Rightarrow> int \<Rightarrow> int \<Rightarrow> (int \<times> int) list" where
  "neighborCoords w h x y =
     filter (\<lambda>(nx, ny). inBounds w h nx ny) (map (\<lambda>(dy, dx). (x + dx, y + dy)) NEIGHBOR_DELTAS)"

definition forEachNeighbor :: "nat \<Rightarrow> nat \<Rightarrow> int \<Rightarrow> int \<Rightarrow> nat list" where
  "forEachNeighbor w h x y = map (\<lambda>(nx, ny). idx w nx ny) (neighborCoords w h x y)"

text \<open>The squares row by row, and the coordinates of an index.\<close>

definition squares :: "nat \<Rightarrow> nat \<Rightarrow> (int \<times> int) list" where
  "squares w h = concat (map (\<lambda>y. map (\<lambda>x. (int x, int y)) [0..<w]) [0..<h])"

definition neighborsOf :: "nat \<Rightarrow> nat \<Rightarrow> nat \<Rightarrow> nat list" where
  "neighborsOf w h i = forEachNeighbor w h (int (i mod w)) (int (i div w))"

definition clearMineLayout :: "cell list \<Rightarrow> cell list" where
  "clearMineLayout cs = map (\<lambda>c. c\<lparr>mine := False, adjacent := 0\<rparr>) cs"

definition countMines :: "cell list \<Rightarrow> nat list \<Rightarrow> nat" where
  "countMines cs is = length (filter (\<lambda>i. mine (cs ! i)) is)"

definition computeAdjacents :: "nat \<Rightarrow> nat \<Rightarrow> cell list \<Rightarrow> cell list" where
  "computeAdjacents w h cs =
     map (\<lambda>i. if mine (cs ! i) then (cs ! i)\<lparr>adjacent := 0\<rparr>
              else (cs ! i)\<lparr>adjacent := countMines cs (neighborsOf w h i)\<rparr>) [0..<length cs]"

definition safeZone :: "nat \<Rightarrow> nat \<Rightarrow> nat \<Rightarrow> nat set" where
  "safeZone w h i = insert i (set (neighborsOf w h i))"

definition setMine :: "bool \<Rightarrow> nat \<Rightarrow> cell list \<Rightarrow> cell list" where
  "setMine m i cs = cs[i := (cs ! i)\<lparr>mine := m\<rparr>]"

text \<open>\<open>candidates.splice(pick, 1)\<close>, once for every mine as long as there are candidates.\<close>

fun pickMines :: "nat \<Rightarrow> nat list \<Rightarrow> rng \<Rightarrow> cell list \<Rightarrow> cell list \<times> rng" where
  "pickMines 0 candidates g cs = (cs, g)"
| "pickMines (Suc m) candidates g cs =
     (if candidates = [] then (cs, g)
      else case drawBelow (length candidates) g of (pick, g') \<Rightarrow>
        pickMines m (take pick candidates @ drop (Suc pick) candidates) g' (setMine True (candidates ! pick) cs))"

definition placeMinesRandom :: "nat \<Rightarrow> board \<Rightarrow> board" where
  "placeMinesRandom safeIndex b =
     (let candidates = filter (\<lambda>i. i \<notin> safeZone (width b) (height b) safeIndex) [0..<length (cells b)]
      in case pickMines (mineCount b) candidates (rng b) (clearMineLayout (cells b)) of
           (cs, g) \<Rightarrow> b\<lparr>cells := computeAdjacents (width b) (height b) cs, rng := g\<rparr>)"

section \<open>Opening a region\<close>

definition setState :: "cell_state \<Rightarrow> nat \<Rightarrow> cell list \<Rightarrow> cell list" where
  "setState s i cs = cs[i := (cs ! i)\<lparr>cstate := s\<rparr>]"

definition hiddenIn :: "cell list \<Rightarrow> nat set" where
  "hiddenIn cs = {i. i < length cs \<and> cstate (cs ! i) = Hidden}"

lemma hiddenIn_finite [simp]: "finite (hiddenIn cs)"
  by (simp add: hiddenIn_def)

lemma hiddenIn_reveal:
  "i < length cs \<Longrightarrow> cstate (cs ! i) = Hidden \<Longrightarrow> s \<noteq> Hidden \<Longrightarrow> hiddenIn (setState s i cs) = hiddenIn cs - {i}"
  by (auto simp: hiddenIn_def setState_def nth_list_update)

lemma hiddenIn_less:
  assumes "i < length cs" and "cstate (cs ! i) = Hidden" and "s \<noteq> Hidden"
  shows "card (hiddenIn (setState s i cs)) < card (hiddenIn cs)"
proof -
  have "i \<in> hiddenIn cs" using assms(1,2) by (simp add: hiddenIn_def)
  then show ?thesis unfolding hiddenIn_reveal [OF assms] by (intro card_Diff1_less) simp_all
qed

text \<open>The stack with its top first; the loop ends because every step pops a square or uncovers one.\<close>

function flood :: "nat \<Rightarrow> nat \<Rightarrow> (int \<times> int) list \<Rightarrow> cell list \<times> nat \<Rightarrow> cell list \<times> nat" where
  "flood w h [] (cs, n) = (cs, n)"
| "flood w h ((x, y) # stack) (cs, n) =
     (let i = idx w x y in
      if \<not> (i < length cs \<and> cstate (cs ! i) = Hidden) then flood w h stack (cs, n)
      else let cs' = setState Revealed i cs in
        if adjacent (cs ! i) = 0 \<and> \<not> mine (cs ! i)
        then flood w h (rev (filter (\<lambda>(nx, ny). cstate (cs' ! idx w nx ny) = Hidden) (neighborCoords w h x y)) @ stack) (cs', Suc n)
        else flood w h stack (cs', Suc n))"
  by pat_completeness auto
termination
proof (relation "measures [\<lambda>(w, h, stack, cs, n). card (hiddenIn cs), \<lambda>(w, h, stack, cs, n). length stack]", goal_cases)
  case 1
  show ?case by simp
next
  case (2 w h x y stack cs n i)
  then show ?case by simp
next
  case (3 w h x y stack cs n i cs')
  then have "card (hiddenIn cs') < card (hiddenIn cs)" by (simp add: hiddenIn_less)
  then show ?case by simp
next
  case (4 w h x y stack cs n i cs')
  then have "card (hiddenIn cs') < card (hiddenIn cs)" by (simp add: hiddenIn_less)
  then show ?case by simp
qed

declare flood.simps [simp del]

definition revealFlood :: "int \<Rightarrow> int \<Rightarrow> 'a solve_state_scheme \<Rightarrow> 'a solve_state_scheme" where
  "revealFlood x y b =
     (case flood (width b) (height b) [(x, y)] (cells b, revealedCount b) of
        (cs, n) \<Rightarrow> b\<lparr>cells := cs, revealedCount := n\<rparr>)"

definition safeCellsTotal :: "'a solve_state_scheme \<Rightarrow> int" where
  "safeCellsTotal b = int (length (cells b)) - int (mineCount b)"

definition isWon :: "'a solve_state_scheme \<Rightarrow> bool" where
  "isWon b \<longleftrightarrow> int (revealedCount b) \<ge> safeCellsTotal b"

section \<open>Geometry\<close>

lemma coord_idx:
  assumes "inBounds w h x y"
  shows "idx w x y < w * h" and "int (idx w x y mod w) = x" and "int (idx w x y div w) = y"
proof -
  have b: "0 \<le> x" "x < int w" "0 \<le> y" "y < int h" using assms by (auto simp: inBounds_def)
  then have int: "int (idx w x y) = y * int w + x" by (simp add: idx_def)
  have "y * int w + x < y * int w + int w" using b(2) by simp
  also have "\<dots> = (y + 1) * int w" by (simp add: algebra_simps)
  also have "\<dots> \<le> int h * int w" using b by (intro mult_right_mono) simp_all
  finally have "int (idx w x y) < int (w * h)" using int by (simp add: mult.commute)
  then show "idx w x y < w * h" by (simp only: of_nat_less_iff)
  show "int (idx w x y mod w) = x" "int (idx w x y div w) = y"
    using b by (simp_all add: int zmod_int zdiv_int)
qed

lemma idx_coord:
  assumes "i < w * h"
  shows "inBounds w h (int (i mod w)) (int (i div w))" and "idx w (int (i mod w)) (int (i div w)) = i"
proof -
  have "0 < w" using assms by (cases w) simp_all
  moreover have "i div w < h" using assms by (simp add: less_mult_imp_div_less mult.commute)
  ultimately show "inBounds w h (int (i mod w)) (int (i div w))" by (simp add: inBounds_def)
  have "int (i div w) * int w + int (i mod w) = int i" by (metis div_mult_mod_eq of_nat_add of_nat_mult)
  then show "idx w (int (i mod w)) (int (i div w)) = i" by (simp add: idx_def)
qed

lemma idx_inj:
  assumes "inBounds w h x y" and "inBounds w h x' y'" and "idx w x y = idx w x' y'"
  shows "x = x' \<and> y = y'"
  using coord_idx(2,3) [OF assms(1)] coord_idx(2,3) [OF assms(2)] assms(3) by simp

lemma neighborCoords_bounds: "(nx, ny) \<in> set (neighborCoords w h x y) \<Longrightarrow> inBounds w h nx ny"
  by (auto simp: neighborCoords_def)

lemma forEachNeighbor_less: "j \<in> set (forEachNeighbor w h x y) \<Longrightarrow> j < w * h"
  by (auto simp: forEachNeighbor_def dest!: neighborCoords_bounds intro: coord_idx)

lemma neighborsOf_less: "j \<in> set (neighborsOf w h i) \<Longrightarrow> j < w * h"
  by (simp add: neighborsOf_def forEachNeighbor_less)

lemma forEachNeighbor_distinct: "distinct (forEachNeighbor w h x y)"
proof -
  have "distinct (map (\<lambda>(dy, dx). (x + dx, y + dy)) NEIGHBOR_DELTAS)" by (simp add: NEIGHBOR_DELTAS_def)
  then have "distinct (neighborCoords w h x y)" unfolding neighborCoords_def by (rule distinct_filter)
  moreover have "inj_on (\<lambda>(nx, ny). idx w nx ny) (set (neighborCoords w h x y))"
    by (rule inj_onI) (auto dest!: neighborCoords_bounds dest: idx_inj)
  ultimately show ?thesis by (simp add: forEachNeighbor_def distinct_map)
qed

lemma neighborsOf_idx: "inBounds w h x y \<Longrightarrow> neighborsOf w h (idx w x y) = forEachNeighbor w h x y"
  by (simp add: neighborsOf_def coord_idx)

lemma set_squares: "set (squares w h) = {(x, y). inBounds w h x y}"
proof -
  have "(x, y) \<in> set (squares w h) \<longleftrightarrow> inBounds w h x y" for x y
  proof
    assume "inBounds w h x y"
    then obtain a b where "x = int a" "y = int b" "a < w" "b < h"
      by (metis inBounds_def of_nat_less_iff zero_le_imp_eq_int)
    then show "(x, y) \<in> set (squares w h)" by (auto simp: squares_def intro!: bexI [of _ b])
  qed (auto simp: squares_def inBounds_def)
  then show ?thesis by auto
qed

section \<open>What opening a region does\<close>

definition uncovers :: "cell list \<Rightarrow> cell list \<Rightarrow> bool" where
  "uncovers cs cs' \<longleftrightarrow> length cs' = length cs \<and> (\<forall>i < length cs. mine (cs' ! i) = mine (cs ! i) \<and> adjacent (cs' ! i) = adjacent (cs ! i)
     \<and> (cstate (cs' ! i) = cstate (cs ! i) \<or> cstate (cs ! i) = Hidden \<and> cstate (cs' ! i) = Revealed))"

definition adjOk :: "nat \<Rightarrow> nat \<Rightarrow> cell list \<Rightarrow> bool" where
  "adjOk w h cs \<longleftrightarrow> (\<forall>i < length cs. \<not> mine (cs ! i) \<longrightarrow> adjacent (cs ! i) = countMines cs (neighborsOf w h i))"

lemma uncovers_refl [simp]: "uncovers cs cs"
  by (simp add: uncovers_def)

lemma uncovers_trans: "uncovers cs cs1 \<Longrightarrow> uncovers cs1 cs2 \<Longrightarrow> uncovers cs cs2"
  unfolding uncovers_def by metis

lemma uncovers_length: "uncovers cs cs' \<Longrightarrow> length cs' = length cs"
  by (simp add: uncovers_def)

lemma uncovers_set: "i < length cs \<Longrightarrow> cstate (cs ! i) = Hidden \<Longrightarrow> uncovers cs (setState Revealed i cs)"
  by (auto simp: uncovers_def setState_def nth_list_update)

lemma countMines_cong: "(\<And>i. i \<in> set is \<Longrightarrow> mine (cs' ! i) = mine (cs ! i)) \<Longrightarrow> countMines cs' is = countMines cs is"
  unfolding countMines_def by (rule arg_cong [where f = length], rule filter_cong) simp_all

lemma adjOk_cong:
  assumes "adjOk w h cs" and "length cs = w * h" and "length cs' = length cs"
    and "\<And>i. i < length cs \<Longrightarrow> mine (cs' ! i) = mine (cs ! i) \<and> adjacent (cs' ! i) = adjacent (cs ! i)"
  shows "adjOk w h cs'"
proof -
  have "countMines cs' (neighborsOf w h i) = countMines cs (neighborsOf w h i)" for i
    using assms(2,4) neighborsOf_less by (intro countMines_cong) simp
  with assms show ?thesis by (simp add: adjOk_def)
qed

lemma uncovers_adjOk: "uncovers cs cs' \<Longrightarrow> adjOk w h cs \<Longrightarrow> length cs = w * h \<Longrightarrow> adjOk w h cs'"
  by (rule adjOk_cong [of w h cs cs']) (auto simp: uncovers_def)

definition moreSquares :: "nat \<Rightarrow> nat \<Rightarrow> int \<Rightarrow> int \<Rightarrow> cell list \<Rightarrow> (int \<times> int) list" where
  "moreSquares w h x y cs =
     (if adjacent (cs ! idx w x y) = 0 \<and> \<not> mine (cs ! idx w x y)
      then rev (filter (\<lambda>(nx, ny). cstate (setState Revealed (idx w x y) cs ! idx w nx ny) = Hidden) (neighborCoords w h x y))
      else [])"

lemma flood_unfold:
  "flood w h ((x, y) # stack) (cs, n) =
     (if \<not> (idx w x y < length cs \<and> cstate (cs ! idx w x y) = Hidden) then flood w h stack (cs, n)
      else flood w h (moreSquares w h x y cs @ stack) (setState Revealed (idx w x y) cs, Suc n))"
  by (auto simp: flood.simps(2) [of w h x y stack] Let_def moreSquares_def)

lemma flood_rule [consumes 1, case_names empty skip opens]:
  assumes "flood w h stack (cs, n) = (cs', n')"
    and "\<And>cs n. P [] cs n cs n"
    and "\<And>x y stack cs n cs' n'. \<not> (idx w x y < length cs \<and> cstate (cs ! idx w x y) = Hidden)
      \<Longrightarrow> P stack cs n cs' n' \<Longrightarrow> P ((x, y) # stack) cs n cs' n'"
    and "\<And>x y stack cs n cs' n'. idx w x y < length cs \<Longrightarrow> cstate (cs ! idx w x y) = Hidden
      \<Longrightarrow> P (moreSquares w h x y cs @ stack) (setState Revealed (idx w x y) cs) (Suc n) cs' n'
      \<Longrightarrow> P ((x, y) # stack) cs n cs' n'"
  shows "P stack cs n cs' n'"
  using assms(1)
proof (induction w' \<equiv> w h' \<equiv> h stack p \<equiv> "(cs, n)" arbitrary: cs n rule: flood.induct)
  case (1 cs n)
  then have "cs' = cs" "n' = n" by (simp_all add: flood.simps)
  with assms(2) show ?case by simp
next
  case (2 x y stack cs n)
  show ?case
  proof (cases "idx w x y < length cs \<and> cstate (cs ! idx w x y) = Hidden")
    case False
    with 2 assms(3) show ?thesis by (auto simp: flood_unfold)
  next
    case True
    then have run: "flood w h (moreSquares w h x y cs @ stack) (setState Revealed (idx w x y) cs, Suc n) = (cs', n')"
      using "2.prems" by (simp add: flood_unfold)
    have "P (moreSquares w h x y cs @ stack) (setState Revealed (idx w x y) cs) (Suc n) cs' n'"
    proof (cases "adjacent (cs ! idx w x y) = 0 \<and> \<not> mine (cs ! idx w x y)")
      case zero: True
      with 2(2) [OF refl _ refl zero] True run show ?thesis by (simp add: moreSquares_def)
    next
      case nz: False
      with 2(3) [OF refl _ refl nz] True run show ?thesis by (auto simp: moreSquares_def split: if_splits)
    qed
    with True assms(4) show ?thesis by simp
  qed
qed

lemma flood_uncovers:
  "flood w h stack (cs, n) = (cs', n') \<Longrightarrow> uncovers cs cs' \<and> n' + card (hiddenIn cs') = n + card (hiddenIn cs)"
proof (induction rule: flood_rule)
  case (opens x y stack cs n cs' n')
  let ?i = "idx w x y"
  have "?i \<in> hiddenIn cs" using opens by (simp add: hiddenIn_def)
  then have "Suc (card (hiddenIn (setState Revealed ?i cs))) = card (hiddenIn cs)"
    unfolding hiddenIn_reveal [OF opens(1,2) cell_state.distinct(2)] by (rule card_Suc_Diff1 [OF hiddenIn_finite])
  with opens(3) uncovers_trans [OF uncovers_set [OF opens(1,2)]] show ?case by auto
qed simp_all

lemma flood_safe:
  assumes "flood w h stack (cs, n) = (cs', n')" and "adjOk w h cs" and "length cs = w * h"
    and "\<forall>(x, y) \<in> set stack. inBounds w h x y \<and> \<not> mine (cs ! idx w x y)"
  shows "\<forall>i < length cs. cstate (cs' ! i) \<noteq> cstate (cs ! i) \<longrightarrow> \<not> mine (cs ! i)"
  using assms
proof (induction rule: flood_rule)
  case (opens x y stack cs n cs' n')
  let ?i = "idx w x y" and ?cs = "setState Revealed (idx w x y) cs"
  note un = uncovers_set [OF opens(1,2)]
  have same: "mine (?cs ! j) = mine (cs ! j)" for j using opens(1) by (auto simp: setState_def nth_list_update)
  have adj: "adjOk w h ?cs" by (rule uncovers_adjOk [OF un opens(4,5)])
  have xy: "inBounds w h x y" "\<not> mine (cs ! ?i)" using opens(6) by auto
  have "inBounds w h nx ny \<and> \<not> mine (?cs ! idx w nx ny)" if "(nx, ny) \<in> set (moreSquares w h x y cs)" for nx ny
  proof -
    have near: "(nx, ny) \<in> set (neighborCoords w h x y)" and zero: "adjacent (cs ! ?i) = 0"
      using that by (auto simp: moreSquares_def split: if_splits)
    then have "idx w nx ny \<in> set (neighborsOf w h ?i)" by (auto simp: neighborsOf_idx [OF xy(1)] forEachNeighbor_def)
    moreover have "countMines cs (neighborsOf w h ?i) = 0" using opens(1,4) xy(2) zero by (auto simp: adjOk_def)
    ultimately show ?thesis using neighborCoords_bounds [OF near] by (auto simp: countMines_def same filter_empty_conv)
  qed
  moreover have "\<forall>(x, y) \<in> set stack. inBounds w h x y \<and> \<not> mine (?cs ! idx w x y)" using opens(6) by (auto simp: same)
  ultimately have stack: "\<forall>(x, y) \<in> set (moreSquares w h x y cs @ stack). inBounds w h x y \<and> \<not> mine (?cs ! idx w x y)" by auto
  have "\<forall>i < length ?cs. cstate (cs' ! i) \<noteq> cstate (?cs ! i) \<longrightarrow> \<not> mine (?cs ! i)"
    by (rule opens(3) [OF adj _ stack]) (simp add: setState_def opens(5))
  then show ?case using xy(2) opens(1) by (auto simp: setState_def nth_list_update split: if_splits)
qed auto

lemma uncovers_open: "uncovers cs cs' \<Longrightarrow> i < length cs \<Longrightarrow> cstate (cs ! i) \<noteq> Hidden \<Longrightarrow> cstate (cs' ! i) = cstate (cs ! i)"
  by (auto simp: uncovers_def)

lemma flood_opens:
  "flood w h stack (cs, n) = (cs', n') \<Longrightarrow>
     uncovers cs cs' \<and> (\<forall>(x, y) \<in> set stack. idx w x y < length cs \<longrightarrow> cstate (cs' ! idx w x y) \<noteq> Hidden)"
proof (induction rule: flood_rule)
  case (skip x y stack cs n cs' n')
  then show ?case using uncovers_open [of cs cs' "idx w x y"] by auto
next
  case (opens x y stack cs n cs' n')
  let ?cs = "setState Revealed (idx w x y) cs"
  have "uncovers cs cs'" using uncovers_trans [OF uncovers_set [OF opens(1,2)]] opens(3) by blast
  moreover have "cstate (cs' ! idx w x y) \<noteq> Hidden"
    using opens(1,3) uncovers_open [of ?cs cs' "idx w x y"] by (simp add: setState_def)
  moreover have "length ?cs = length cs" by (simp add: setState_def)
  ultimately show ?case using opens(3) by auto
qed simp

section \<open>A random layout\<close>

lemma setMine_sel:
  "length (setMine m i cs) = length cs" "i < length cs \<Longrightarrow> mine (setMine m i cs ! j) = (if j = i then m else mine (cs ! j))"
  "cstate (setMine m i cs ! j) = cstate (cs ! j)"
  by (simp_all add: setMine_def nth_list_update) (cases "i < length cs", auto simp: nth_list_update list_update_beyond)

definition mines :: "cell list \<Rightarrow> nat set" where
  "mines cs = {i. i < length cs \<and> mine (cs ! i)}"

lemma mines_finite [simp]: "finite (mines cs)"
  by (simp add: mines_def)

lemma mines_setMine: "i < length cs \<Longrightarrow> mines (setMine m i cs) = (if m then insert i (mines cs) else mines cs - {i})"
  by (auto simp: mines_def setMine_sel)

lemma countMines_mines: "distinct is \<Longrightarrow> set is \<subseteq> {..<length cs} \<Longrightarrow> countMines cs is = card (set is \<inter> mines cs)"
proof -
  assume "distinct is" "set is \<subseteq> {..<length cs}"
  then have "countMines cs is = card (set (filter (\<lambda>i. mine (cs ! i)) is))"
    unfolding countMines_def by (intro distinct_card [symmetric]) simp
  also have "set (filter (\<lambda>i. mine (cs ! i)) is) = set is \<inter> mines cs"
    using \<open>set is \<subseteq> {..<length cs}\<close> by (auto simp: mines_def)
  finally show ?thesis .
qed

lemma computeAdjacents_sel:
  "length (computeAdjacents w h cs) = length cs"
  "i < length cs \<Longrightarrow> mine (computeAdjacents w h cs ! i) = mine (cs ! i)"
  "i < length cs \<Longrightarrow> cstate (computeAdjacents w h cs ! i) = cstate (cs ! i)"
  "i < length cs \<Longrightarrow> \<not> mine (cs ! i) \<Longrightarrow> adjacent (computeAdjacents w h cs ! i) = countMines cs (neighborsOf w h i)"
  by (simp_all add: computeAdjacents_def)

lemma computeAdjacents_mines: "mines (computeAdjacents w h cs) = mines cs"
  by (auto simp: mines_def computeAdjacents_sel)

lemma computeAdjacents_ok: "length cs = w * h \<Longrightarrow> adjOk w h (computeAdjacents w h cs)"
  using neighborsOf_less by (auto simp: adjOk_def computeAdjacents_sel intro!: countMines_cong [symmetric])

text \<open>A number drawn is in the unit interval: proved for the seeded generator, documented for the other.\<close>

definition unitRng :: "rng \<Rightarrow> bool" where
  "unitRng g = (case g of Mulberry s \<Rightarrow> True | System f n \<Rightarrow> (\<forall>k. 0 \<le> f k \<and> f k < 1))"

lemma draw_unit:
  assumes "unitRng g" and "draw g = (r, g')"
  shows "0 \<le> r \<and> r < 1 \<and> unitRng g'"
proof (cases g)
  case (Mulberry s)
  obtain q s' where m: "mulberry32 s = (q, s')" by fastforce
  have "\<exists>out :: 32 word. fst (mulberry32 s) = of_nat (unat out) / 4294967296"
    unfolding mulberry32_def Let_def fst_conv by (rule exI, rule refl)
  then obtain out :: "32 word" where q: "q = of_nat (unat out) / 4294967296" using m by auto
  have "unat out < 4294967296" using unsigned_less [where ?'a = nat, of out] by simp
  then have "(of_nat (unat out) :: rat) < 4294967296" by (metis of_nat_less_iff of_nat_numeral)
  then have "q < 1" unfolding q by simp
  moreover have "0 \<le> q" unfolding q by (simp only: of_nat_0_le_iff divide_nonneg_nonneg zero_le_numeral)
  ultimately show ?thesis using assms Mulberry m by (auto simp: draw_def unitRng_def)
next
  case (System f n)
  with assms show ?thesis by (auto simp: draw_def unitRng_def)
qed

lemma drawBelow_less:
  assumes "unitRng g" and "drawBelow n g = (k, g')" and "0 < n"
  shows "k < n \<and> unitRng g'"
proof -
  obtain r where r: "draw g = (r, g')" "k = nat \<lfloor>r * of_nat n\<rfloor>" using assms(2) by (auto simp: drawBelow_def split: prod.splits)
  then have "0 \<le> r" "r < 1" "unitRng g'" using draw_unit [OF assms(1)] by auto
  then have "r * of_nat n < of_nat n" using assms(3) by simp
  then have "\<lfloor>r * of_nat n\<rfloor> < int n" by (simp add: floor_less_iff)
  with \<open>unitRng g'\<close> r(2) assms(3) show ?thesis by (auto simp: nat_less_iff)
qed

lemma pickMines_spec:
  assumes "pickMines m candidates g cs = (cs', g')" and "unitRng g" and "distinct candidates"
    and "set candidates \<subseteq> {..<length cs}" and "set candidates \<inter> mines cs = {}"
  shows "length cs' = length cs \<and> unitRng g' \<and> mines cs \<subseteq> mines cs' \<and> mines cs' \<subseteq> mines cs \<union> set candidates
    \<and> card (mines cs') = card (mines cs) + min m (length candidates) \<and> (\<forall>i. cstate (cs' ! i) = cstate (cs ! i))"
  using assms
proof (induction m candidates g cs arbitrary: cs' g' rule: pickMines.induct)
  case (1 candidates g cs)
  then show ?case by auto
next
  case (2 m candidates g cs)
  show ?case
  proof (cases "candidates = []")
    case True
    with 2 show ?thesis by auto
  next
    case False
    obtain pick g1 where d: "drawBelow (length candidates) g = (pick, g1)" by fastforce
    have pick: "pick < length candidates" "unitRng g1" using drawBelow_less [OF "2.prems"(2) d] False by auto
    let ?rest = "take pick candidates @ drop (Suc pick) candidates" and ?c = "candidates ! pick"
    have split: "candidates = take pick candidates @ ?c # drop (Suc pick) candidates" using pick(1) by (rule id_take_nth_drop)
    have dist: "distinct ?rest" "?c \<notin> set ?rest" "set candidates = insert ?c (set ?rest)"
    proof -
      have "distinct (take pick candidates @ ?c # drop (Suc pick) candidates)" using "2.prems"(3) split by simp
      then show "distinct ?rest" "?c \<notin> set ?rest" by auto
      show "set candidates = insert ?c (set ?rest)" by (subst split) auto
    qed
    let ?cs = "setMine True ?c cs"
    have c: "?c < length cs" "?c \<notin> mines cs" using "2.prems"(4,5) dist(3) by auto
    have ms: "mines ?cs = insert ?c (mines cs)" using c(1) by (simp add: mines_setMine)
    have "pickMines m ?rest g1 ?cs = (cs', g')" using "2.prems"(1) False d by simp
    from "2.IH" [OF False d [symmetric] this pick(2) dist(1)]
    have IH: "length cs' = length ?cs \<and> unitRng g' \<and> mines ?cs \<subseteq> mines cs' \<and> mines cs' \<subseteq> mines ?cs \<union> set ?rest
        \<and> card (mines cs') = card (mines ?cs) + min m (length ?rest) \<and> (\<forall>i. cstate (cs' ! i) = cstate (?cs ! i))"
      using "2.prems"(4,5) dist unfolding ms by (auto simp: setMine_sel)
    have "length ?rest = length candidates - 1" using pick(1) by simp
    then have "card (mines cs') = card (mines cs) + min (Suc m) (length candidates)"
      using IH c(2) False unfolding ms by (cases candidates) auto
    then show ?thesis using IH dist(3) unfolding ms by (auto simp: setMine_sel)
  qed
qed

lemma placeMinesRandom_spec:
  assumes "length (cells b) = width b * height b" and "unitRng (rng b)" and "i < length (cells b)"
  defines "b' \<equiv> placeMinesRandom i b"
  shows "\<exists>cs g. b' = b\<lparr>cells := cs, rng := g\<rparr> \<and> length cs = length (cells b) \<and> unitRng g
    \<and> adjOk (width b) (height b) cs \<and> mines cs \<inter> safeZone (width b) (height b) i = {}
    \<and> card (mines cs) = min (mineCount b) (length (cells b) - card (safeZone (width b) (height b) i))
    \<and> (\<forall>j < length cs. cstate (cs ! j) = cstate (cells b ! j))"
proof -
  let ?zone = "safeZone (width b) (height b) i" and ?n = "length (cells b)" and ?cs = "clearMineLayout (cells b)"
  define candidates where "candidates = filter (\<lambda>i. i \<notin> ?zone) [0..<?n]"
  obtain cs g where pick: "pickMines (mineCount b) candidates (rng b) ?cs = (cs, g)" by fastforce
  have clear: "length ?cs = ?n" "mines ?cs = {}" by (auto simp: clearMineLayout_def mines_def)
  have spec: "length cs = ?n \<and> unitRng g \<and> mines cs \<subseteq> set candidates
      \<and> card (mines cs) = min (mineCount b) (length candidates) \<and> (\<forall>i. cstate (cs ! i) = cstate (?cs ! i))"
    using pickMines_spec [OF pick assms(2)] clear by (auto simp: candidates_def)
  have zone: "?zone \<subseteq> {..<?n}" using assms(1,3) neighborsOf_less by (auto simp: safeZone_def)
  have "length candidates = card (set candidates)" by (rule distinct_card [symmetric]) (simp add: candidates_def)
  also have "set candidates = {..<?n} - ?zone" by (auto simp: candidates_def)
  also have "card \<dots> = ?n - card ?zone" using zone by (subst card_Diff_subset) (auto intro: finite_subset)
  finally have "card (mines cs) = min (mineCount b) (?n - card ?zone)" using spec by simp
  moreover have "b' = b\<lparr>cells := computeAdjacents (width b) (height b) cs, rng := g\<rparr>"
    by (simp add: b'_def placeMinesRandom_def candidates_def [symmetric] pick)
  moreover have "mines cs \<inter> ?zone = {}" using spec by (auto simp: candidates_def)
  ultimately show ?thesis
    using spec assms(1)
    by (intro exI [of _ "computeAdjacents (width b) (height b) cs"] exI [of _ g])
      (auto simp: computeAdjacents_sel computeAdjacents_mines computeAdjacents_ok clearMineLayout_def)
qed

end
