(* ===== verification/Mine_Solver.thy ===== *)
theory Mine_Solver
  imports Mine_Board
begin

text \<open>
  The solver of the Minesweeper game (\<open>engine/game.ts\<close>: applyAutoFlags to solveUntilStuck): deductions on
  one number, enumeration of what a part of the frontier may hold, the count of mines left. A layout is
  only accepted when the solver clears it, so what the solver may conclude decides whether a player has
  to guess. The theorems at the end say that it concludes nothing but what is certain.
\<close>

section \<open>One number\<close>

definition cellAt :: "'a solve_state_scheme \<Rightarrow> int \<Rightarrow> int \<Rightarrow> cell" where
  "cellAt b x y = cells b ! idx (width b) x y"

definition flaggedAround :: "'a solve_state_scheme \<Rightarrow> int \<Rightarrow> int \<Rightarrow> nat" where
  "flaggedAround b x y =
     length (filter (\<lambda>(nx, ny). cstate (cellAt b nx ny) = Flagged) (neighborCoords (width b) (height b) x y))"

definition hiddenAround :: "'a solve_state_scheme \<Rightarrow> int \<Rightarrow> int \<Rightarrow> (int \<times> int) list" where
  "hiddenAround b x y = filter (\<lambda>(nx, ny). cstate (cellAt b nx ny) = Hidden) (neighborCoords (width b) (height b) x y)"

definition flagCell :: "nat \<Rightarrow> 'a solve_state_scheme \<Rightarrow> 'a solve_state_scheme" where
  "flagCell i b = b\<lparr>cells := setState Flagged i (cells b), flagCount := Suc (flagCount b)\<rparr>"

text \<open>Flags on those of the squares that are still hidden; the flag says whether there was one.\<close>

fun flagAll :: "nat list \<Rightarrow> 'a solve_state_scheme \<times> bool \<Rightarrow> 'a solve_state_scheme \<times> bool" where
  "flagAll [] s = s"
| "flagAll (i # is) (b, changed) =
     (if cstate (cells b ! i) \<noteq> Hidden then flagAll is (b, changed) else flagAll is (flagCell i b, True))"

definition autoFlagAt :: "int \<times> int \<Rightarrow> 'a solve_state_scheme \<times> bool \<Rightarrow> 'a solve_state_scheme \<times> bool" where
  "autoFlagAt p s =
     (case p of (x, y) \<Rightarrow> case s of (b, changed) \<Rightarrow>
        let cell = cellAt b x y;
            hidden = hiddenAround b x y;
            remaining = int (adjacent cell) - int (flaggedAround b x y)
        in if cstate cell \<noteq> Revealed \<or> adjacent cell = 0 then s
           else if remaining \<le> 0 \<or> remaining \<noteq> int (length hidden) then s
           else flagAll (map (\<lambda>(nx, ny). idx (width b) nx ny) hidden) s)"

definition autoFlagPass :: "'a solve_state_scheme \<Rightarrow> 'a solve_state_scheme \<times> bool" where
  "autoFlagPass b = fold autoFlagAt (squares (width b) (height b)) (b, False)"

fun autoFlagLoop :: "nat \<Rightarrow> bool \<Rightarrow> 'a solve_state_scheme \<Rightarrow> 'a solve_state_scheme \<times> bool" where
  "autoFlagLoop 0 done b = (b, done)"
| "autoFlagLoop (Suc k) done b =
     (case autoFlagPass b of (b', changed) \<Rightarrow> if changed then autoFlagLoop k True b' else (b', done))"

definition applyAutoFlags :: "'a solve_state_scheme \<Rightarrow> 'a solve_state_scheme \<times> bool" where
  "applyAutoFlags b = autoFlagLoop 200 False b"

text \<open>
  Opening. The result of a loop that may return from its function is the state, whether something
  changed, and whether the function returned; it returns when it opened a mine.
\<close>

fun openAll :: "nat list \<Rightarrow> 'a solve_state_scheme \<times> bool \<Rightarrow> 'a solve_state_scheme \<times> bool \<times> bool" where
  "openAll [] (b, changed) = (b, changed, False)"
| "openAll (i # is) (b, changed) =
     (if cstate (cells b ! i) \<noteq> Hidden then openAll is (b, changed)
      else if mine (cells b ! i)
      then (b\<lparr>cells := setState Revealed i (cells b), revealedCount := Suc (revealedCount b), status := Lost\<rparr>, True, True)
      else openAll is (revealFlood (int (i mod width b)) (int (i div width b)) b, True))"

definition openAt :: "int \<times> int \<Rightarrow> 'a solve_state_scheme \<times> bool \<Rightarrow> 'a solve_state_scheme \<times> bool \<times> bool" where
  "openAt p s =
     (case p of (x, y) \<Rightarrow> case s of (b, changed) \<Rightarrow>
        let cell = cellAt b x y; hidden = hiddenAround b x y
        in if cstate cell \<noteq> Revealed \<or> adjacent cell = 0 then (b, changed, False)
           else if flaggedAround b x y \<noteq> adjacent cell \<or> hidden = [] then (b, changed, False)
           else openAll (map (\<lambda>(nx, ny). idx (width b) nx ny) hidden) s)"

fun openPass :: "(int \<times> int) list \<Rightarrow> 'a solve_state_scheme \<times> bool \<Rightarrow> 'a solve_state_scheme \<times> bool" where
  "openPass [] s = s"
| "openPass (p # ps) s =
     (case openAt p s of (b, changed, returned) \<Rightarrow> if returned then (b, True) else openPass ps (b, changed))"

definition applyBasicAssists :: "'a solve_state_scheme \<Rightarrow> 'a solve_state_scheme \<times> bool" where
  "applyBasicAssists b = openPass (squares (width b) (height b)) (applyAutoFlags b)"

section \<open>The frontier\<close>

record constraint =
  cvars :: "nat list"
  ccount :: nat

definition numberAt :: "'a solve_state_scheme \<Rightarrow> int \<times> int \<Rightarrow> bool" where
  "numberAt b p = (case p of (x, y) \<Rightarrow> cstate (cellAt b x y) = Revealed \<and> adjacent (cellAt b x y) \<noteq> 0)"

definition varsAt :: "'a solve_state_scheme \<Rightarrow> int \<times> int \<Rightarrow> nat list" where
  "varsAt b p = (case p of (x, y) \<Rightarrow> map (\<lambda>(nx, ny). idx (width b) nx ny) (hiddenAround b x y))"

definition constraintAt :: "'a solve_state_scheme \<Rightarrow> int \<times> int \<Rightarrow> constraint option" where
  "constraintAt b p =
     (case p of (x, y) \<Rightarrow>
        let vars = varsAt b p; count = int (adjacent (cellAt b x y)) - int (flaggedAround b x y)
        in if vars = [] \<or> count < 0 \<or> count > int (length vars) then None
           else Some \<lparr>cvars = vars, ccount = nat count\<rparr>)"

definition numbers :: "'a solve_state_scheme \<Rightarrow> (int \<times> int) list" where
  "numbers b = filter (numberAt b) (squares (width b) (height b))"

text \<open>The constraints, the hidden squares next to a number in the order they are met, the other ones.\<close>

definition collectConstraints :: "'a solve_state_scheme \<Rightarrow> constraint list \<times> nat list \<times> nat list" where
  "collectConstraints b =
     (let frontier = uniq (concat (map (varsAt b) (numbers b)))
      in (List.map_filter (constraintAt b) (numbers b), frontier,
          filter (\<lambda>i. cstate (cells b ! i) = Hidden \<and> i \<notin> set frontier) [0..<length (cells b)]))"

subsection \<open>Components\<close>

text \<open>
  A forest given by the parent of every square. The loop that climbs to a root visits a square at most
  once, so as many turns as there are squares are enough.
\<close>

fun climb :: "nat \<Rightarrow> (nat \<Rightarrow> nat) \<Rightarrow> nat \<Rightarrow> nat" where
  "climb 0 parent p = p"
| "climb (Suc k) parent p = (if parent p = p then p else climb k parent (parent p))"

definition ufFind :: "nat \<Rightarrow> (nat \<Rightarrow> nat) \<Rightarrow> nat \<Rightarrow> nat \<times> (nat \<Rightarrow> nat)" where
  "ufFind k parent a = (let p = climb k parent (parent a) in (p, parent(a := p)))"

definition ufUnion :: "nat \<Rightarrow> nat \<Rightarrow> nat \<Rightarrow> (nat \<Rightarrow> nat) \<Rightarrow> (nat \<Rightarrow> nat)" where
  "ufUnion k a b parent =
     (case ufFind k parent a of (ra, parent1) \<Rightarrow>
      case ufFind k parent1 b of (rb, parent2) \<Rightarrow> if ra \<noteq> rb then parent2(ra := rb) else parent2)"

fun addToGroup :: "nat \<Rightarrow> nat \<Rightarrow> (nat \<times> nat list) list \<Rightarrow> (nat \<times> nat list) list" where
  "addToGroup rep v [] = [(rep, [v])]"
| "addToGroup rep v ((r, vs) # gs) = (if r = rep then (r, vs @ [v]) # gs else (r, vs) # addToGroup rep v gs)"

fun groupFrontier :: "nat \<Rightarrow> nat list \<Rightarrow> (nat \<Rightarrow> nat) \<Rightarrow> (nat \<times> nat list) list \<Rightarrow> (nat \<times> nat list) list" where
  "groupFrontier k [] parent gs = gs"
| "groupFrontier k (v # vs) parent gs =
     (case ufFind k parent v of (rep, parent') \<Rightarrow> groupFrontier k vs parent' (addToGroup rep v gs))"

definition linkConstraint :: "nat \<Rightarrow> constraint \<Rightarrow> (nat \<Rightarrow> nat) \<Rightarrow> (nat \<Rightarrow> nat)" where
  "linkConstraint k c parent =
     (case cvars c of [] \<Rightarrow> parent | v # vs \<Rightarrow> fold (\<lambda>u. ufUnion k v u) vs parent)"

definition frontierComponents :: "constraint list \<Rightarrow> nat list \<Rightarrow> nat list list" where
  "frontierComponents constraints frontier =
     (let k = length frontier
      in map snd (groupFrontier k frontier (fold (linkConstraint k) constraints id) []))"

subsection \<open>Enumeration\<close>

definition MAX_CSP_VARS :: nat where
  "MAX_CSP_VARS = 16"

definition assignmentOf :: "nat \<Rightarrow> nat \<Rightarrow> bool list" where
  "assignmentOf n bits = map (\<lambda>i. (bits div 2 ^ i) mod 2 = 1) [0..<n]"

definition indexOf :: "nat list \<Rightarrow> nat \<Rightarrow> nat" where
  "indexOf vars v = length (takeWhile (\<lambda>u. u \<noteq> v) vars)"

definition validAssignment :: "int \<Rightarrow> int \<Rightarrow> nat list \<Rightarrow> constraint list \<Rightarrow> bool list \<Rightarrow> bool" where
  "validAssignment minMines maxMines vars exact as \<longleftrightarrow>
     (let mines = int (length (filter id as))
      in minMines \<le> mines \<and> mines \<le> maxMines
       \<and> list_all (\<lambda>c. length (filter (\<lambda>v. as ! indexOf vars v) (cvars c)) = ccount c) exact)"

definition deduceForced ::
  "nat list \<Rightarrow> constraint list \<Rightarrow> int \<Rightarrow> nat \<Rightarrow> bool \<Rightarrow> nat list \<times> nat list" where
  "deduceForced vars constraints remaining seaSize useGlobal =
     (let exact = filter (\<lambda>c. list_all (\<lambda>v. v \<in> set vars) (cvars c)) constraints;
          n = length vars;
          maxMines = (if useGlobal then min (int n) remaining else int n);
          minMines = (if useGlobal then max 0 (remaining - int seaSize) else 0);
          solutions = filter (validAssignment minMines maxMines vars exact) (map (assignmentOf n) [0..<2 ^ n])
      in if n = 0 \<or> n > MAX_CSP_VARS then ([], [])
         else if \<not> useGlobal \<and> exact = [] then ([], [])
         else if solutions = [] then ([], [])
         else (map (\<lambda>i. vars ! i) (filter (\<lambda>i. list_all (\<lambda>s. s ! i) solutions) [0..<n]),
               map (\<lambda>i. vars ! i) (filter (\<lambda>i. \<not> list_all (\<lambda>s. s ! i) solutions
                  \<and> list_all (\<lambda>s. \<not> s ! i) solutions) [0..<n])))"

subsection \<open>What the frontier and the count force\<close>

text \<open>Opening of squares taken to be safe; a mine among them ends it and the state is lost.\<close>

fun openSafe :: "nat list \<Rightarrow> 'a solve_state_scheme \<times> bool \<Rightarrow> 'a solve_state_scheme \<times> bool \<times> bool" where
  "openSafe [] (b, changed) = (b, changed, False)"
| "openSafe (i # is) (b, changed) =
     (if cstate (cells b ! i) \<noteq> Hidden then openSafe is (b, changed)
      else if mine (cells b ! i) then (b\<lparr>status := Lost\<rparr>, True, True)
      else openSafe is (revealFlood (int (i mod width b)) (int (i div width b)) b, True))"

definition applyForced :: "nat list \<times> nat list \<Rightarrow> 'a solve_state_scheme \<Rightarrow> 'a solve_state_scheme \<times> bool" where
  "applyForced forced b =
     (case openSafe (snd forced) (flagAll (fst forced) (b, False)) of (b', changed, _) \<Rightarrow> (b', changed))"

fun cspPass ::
  "nat \<Rightarrow> nat list list \<Rightarrow> constraint list \<Rightarrow> int \<Rightarrow> nat \<Rightarrow> nat \<Rightarrow> 'a solve_state_scheme \<times> bool \<Rightarrow> 'a solve_state_scheme \<times> bool" where
  "cspPass maxVars [] constraints remaining seaSize frontierSize s = s"
| "cspPass maxVars (part # comps) constraints remaining seaSize frontierSize (b, changed) =
     (if length part > maxVars then cspPass maxVars comps constraints remaining seaSize frontierSize (b, changed)
      else case applyForced (deduceForced part constraints remaining seaSize (length part = frontierSize)) b of
        (b', local) \<Rightarrow>
          if status b' = Lost then (b', True)
          else cspPass maxVars comps constraints remaining seaSize frontierSize (b', changed \<or> local))"

definition applyCspAssists :: "nat \<Rightarrow> 'a solve_state_scheme \<Rightarrow> 'a solve_state_scheme \<times> bool" where
  "applyCspAssists maxVars b =
     (case collectConstraints b of (constraints, frontier, sea) \<Rightarrow>
        let remaining = int (mineCount b) - int (flagCount b) in
        if frontier = [] \<and> sea = [] then (b, False)
        else if frontier = []
        then (if remaining = 0 then (case openSafe sea (b, False) of (b', changed, _) \<Rightarrow> (b', changed))
              else if remaining = int (length sea) then flagAll sea (b, False)
              else (b, False))
        else cspPass maxVars (frontierComponents constraints frontier) constraints remaining (length sea)
               (length frontier) (b, False))"

section \<open>The solver\<close>

fun assistLoop :: "nat \<Rightarrow> nat \<Rightarrow> 'a solve_state_scheme \<Rightarrow> 'a solve_state_scheme" where
  "assistLoop 0 maxVars b = b"
| "assistLoop (Suc k) maxVars b =
     (if status b \<noteq> Playing then b
      else case applyBasicAssists b of (b1, changed1) \<Rightarrow>
        if status b1 \<noteq> Playing then b1
        else case applyCspAssists maxVars b1 of (b2, changed2) \<Rightarrow>
          if changed1 \<or> changed2 then assistLoop k maxVars b2 else b2)"

definition runAutoAssists :: "nat \<Rightarrow> 'a solve_state_scheme \<Rightarrow> 'a solve_state_scheme" where
  "runAutoAssists maxVars b = assistLoop 400 maxVars b"

definition cloneSolveState :: "board \<Rightarrow> solve_state" where
  "cloneSolveState b =
     \<lparr>width = width b, height = height b, mineCount = mineCount b,
      cells = map (\<lambda>c. c\<lparr>cstate := Hidden\<rparr>) (cells b), revealedCount = 0, flagCount = 0, status = Playing\<rparr>"

record solve_progress =
  spWon :: bool
  spLost :: bool
  spRevealed :: nat
  spKnownEmpty :: "nat list"
  spKnownMines :: "nat list"
  spStuckSets :: "nat list list"

definition indicesIn :: "cell_state \<Rightarrow> cell list \<Rightarrow> nat list" where
  "indicesIn s cs = filter (\<lambda>i. cstate (cs ! i) = s) [0..<length cs]"

definition stuckSets :: "board \<Rightarrow> solve_state \<Rightarrow> nat list list" where
  "stuckSets b sim =
     (let sets = map cvars (fst (collectConstraints sim));
          mixed = filter (\<lambda>vars. let m = countMines (cells b) vars in m > 0 \<and> m < length vars) sets
      in if mixed = [] then filter (\<lambda>vars. vars \<noteq> []) sets else mixed)"

definition firstOpen :: "board \<Rightarrow> nat \<Rightarrow> solve_state" where
  "firstOpen b start = revealFlood (int (start mod width b)) (int (start div width b)) (cloneSolveState b)"

definition solveUntilStuck :: "nat \<Rightarrow> board \<Rightarrow> nat \<Rightarrow> solve_progress" where
  "solveUntilStuck maxVars b start =
     (if mine (cells b ! start)
      then \<lparr>spWon = False, spLost = True, spRevealed = 0, spKnownEmpty = [], spKnownMines = [], spStuckSets = []\<rparr>
      else let sim = runAutoAssists maxVars (firstOpen b start);
               lost = (status sim = Lost);
               won = (\<not> lost \<and> isWon sim)
           in \<lparr>spWon = won, spLost = lost, spRevealed = revealedCount sim,
               spKnownEmpty = indicesIn Revealed (cells sim), spKnownMines = indicesIn Flagged (cells sim),
               spStuckSets = (if won \<or> lost then [] else stuckSets b sim)\<rparr>)"

definition isSolvableWithoutGuessing :: "board \<Rightarrow> nat \<Rightarrow> bool" where
  "isSolvableWithoutGuessing b start = spWon (solveUntilStuck MAX_CSP_VARS b start)"

end
