(* ===== verification/Mine_Certain.thy ===== *)
theory Mine_Certain
  imports Mine_Solver
begin

text \<open>
  What the solver of the Minesweeper game may conclude. A player sees the opened numbers, the flags and
  how many mines there are; a conclusion is certain when it holds in every layout that agrees with this.
\<close>

section \<open>What is certain\<close>

text \<open>
  A layout of mines agrees with what a player sees when it has the right number of mines, none on an
  opened square, and the numbers shown are right for it. A square is certain to hold a mine, or to be
  safe, when it does, or is, in every such layout.
\<close>

definition agrees :: "'a solve_state_scheme \<Rightarrow> nat set \<Rightarrow> bool" where
  "agrees b M \<longleftrightarrow> M \<subseteq> {..<length (cells b)} \<and> card M = mineCount b
     \<and> (\<forall>i < length (cells b). cstate (cells b ! i) = Revealed \<longrightarrow>
          i \<notin> M \<and> adjacent (cells b ! i) = card (set (neighborsOf (width b) (height b) i) \<inter> M))"

definition certainMine :: "'a solve_state_scheme \<Rightarrow> nat \<Rightarrow> bool" where
  "certainMine b i \<longleftrightarrow> (\<forall>M. agrees b M \<longrightarrow> i \<in> M)"

definition certainSafe :: "'a solve_state_scheme \<Rightarrow> nat \<Rightarrow> bool" where
  "certainSafe b i \<longleftrightarrow> (\<forall>M. agrees b M \<longrightarrow> i \<notin> M)"

definition openCell :: "nat \<Rightarrow> 'a solve_state_scheme \<Rightarrow> 'a solve_state_scheme" where
  "openCell i b = revealFlood (int (i mod width b)) (int (i div width b)) b"

inductive deduces :: "'a solve_state_scheme \<Rightarrow> 'a solve_state_scheme \<Rightarrow> bool" where
  flags: "i < length (cells b) \<Longrightarrow> cstate (cells b ! i) = Hidden \<Longrightarrow> certainMine b i \<Longrightarrow> deduces b (flagCell i b)"
| opens: "i < length (cells b) \<Longrightarrow> cstate (cells b ! i) = Hidden \<Longrightarrow> certainSafe b i \<Longrightarrow> deduces b (openCell i b)"

definition inState :: "cell_state \<Rightarrow> cell list \<Rightarrow> nat set" where
  "inState s cs = {i. i < length cs \<and> cstate (cs ! i) = s}"

text \<open>A state of the solver in which all it has concluded is certain.\<close>

definition solverOk :: "'a solve_state_scheme \<Rightarrow> bool" where
  "solverOk b \<longleftrightarrow> length (cells b) = width b * height b \<and> adjOk (width b) (height b) (cells b)
     \<and> card (mines (cells b)) = mineCount b \<and> inState Revealed (cells b) \<inter> mines (cells b) = {}
     \<and> (\<forall>i \<in> inState Flagged (cells b). certainMine b i)
     \<and> revealedCount b = card (inState Revealed (cells b)) \<and> flagCount b = card (inState Flagged (cells b))
     \<and> status b = Playing"

lemma inState_finite [simp]: "finite (inState s cs)"
  by (simp add: inState_def)

lemma truth_agrees: "solverOk b \<Longrightarrow> agrees b (mines (cells b))"
proof -
  assume ok: "solverOk b"
  have count: "countMines (cells b) (neighborsOf (width b) (height b) i) = card (set (neighborsOf (width b) (height b) i) \<inter> mines (cells b))" for i
    using ok neighborsOf_less by (intro countMines_mines) (auto simp: neighborsOf_def forEachNeighbor_distinct solverOk_def)
  have safe: "\<not> mine (cells b ! i)" if "i < length (cells b)" "cstate (cells b ! i) = Revealed" for i
    using ok that by (auto simp: solverOk_def inState_def mines_def)
  have "adjacent (cells b ! i) = card (set (neighborsOf (width b) (height b) i) \<inter> mines (cells b))"
    if "i < length (cells b)" "cstate (cells b ! i) = Revealed" for i
    using ok that safe [OF that] count [of i] by (simp add: solverOk_def adjOk_def)
  moreover have "mines (cells b) \<subseteq> {..<length (cells b)}" by (auto simp: mines_def)
  moreover have "i \<notin> mines (cells b)" if "i < length (cells b)" "cstate (cells b ! i) = Revealed" for i
    using safe [OF that] by (simp add: mines_def)
  ultimately show ?thesis using ok unfolding agrees_def solverOk_def by blast
qed

lemma certain_true: "solverOk b \<Longrightarrow> certainMine b i \<Longrightarrow> mine (cells b ! i)" "solverOk b \<Longrightarrow> certainSafe b i \<Longrightarrow> i < length (cells b) \<Longrightarrow> \<not> mine (cells b ! i)"
  using truth_agrees by (auto simp: certainMine_def certainSafe_def mines_def)

lemma flagCell_sel [simp]:
  "width (flagCell i b) = width b" "height (flagCell i b) = height b" "mineCount (flagCell i b) = mineCount b"
  "cells (flagCell i b) = setState Flagged i (cells b)" "flagCount (flagCell i b) = Suc (flagCount b)"
  "revealedCount (flagCell i b) = revealedCount b" "status (flagCell i b) = status b"
  by (simp_all add: flagCell_def)

lemma setState_sel:
  "length (setState s i cs) = length cs" "mine (setState s i cs ! j) = mine (cs ! j)"
  "adjacent (setState s i cs ! j) = adjacent (cs ! j)"
  "i < length cs \<Longrightarrow> cstate (setState s i cs ! j) = (if j = i then s else cstate (cs ! j))"
  by (simp_all add: setState_def nth_list_update) (cases "i < length cs", auto simp: nth_list_update list_update_beyond)+

lemma mines_setState [simp]: "mines (setState s i cs) = mines cs"
  by (simp add: mines_def setState_sel)

lemma agrees_flag: "i < length (cells b) \<Longrightarrow> cstate (cells b ! i) \<noteq> Revealed \<Longrightarrow> agrees (flagCell i b) M = agrees b M"
  by (auto simp: agrees_def setState_sel)

lemma flag_ok:
  assumes "solverOk b" and "i < length (cells b)" and "cstate (cells b ! i) = Hidden" and "certainMine b i"
  shows "solverOk (flagCell i b)"
proof -
  have ag: "agrees (flagCell i b) M = agrees b M" for M using assms(2,3) by (simp add: agrees_flag)
  have states: "inState Revealed (setState Flagged i (cells b)) = inState Revealed (cells b)"
    "inState Flagged (setState Flagged i (cells b)) = insert i (inState Flagged (cells b))"
    using assms(2,3) by (auto simp: inState_def setState_sel)
  have "i \<notin> inState Flagged (cells b)" using assms(3) by (simp add: inState_def)
  moreover have "adjOk (width b) (height b) (setState Flagged i (cells b))"
    by (rule adjOk_cong [of _ _ "cells b"]) (use assms(1) in \<open>simp_all add: solverOk_def setState_sel\<close>)
  moreover have "certainMine (flagCell i b) j \<longleftrightarrow> certainMine b j" for j by (simp add: certainMine_def ag)
  moreover have "card (insert i (inState Flagged (cells b))) = Suc (card (inState Flagged (cells b)))"
    using calculation(1) by simp
  ultimately show ?thesis
    using assms(1,4) unfolding solverOk_def flagCell_sel states mines_setState setState_sel(1) by simp
qed

lemma openCell_cells:
  assumes "length (cells b) = width b * height b" and "i < length (cells b)"
  obtains cs n where "openCell i b = b\<lparr>cells := cs, revealedCount := n\<rparr>" and "uncovers (cells b) cs"
    and "n + card (hiddenIn cs) = revealedCount b + card (hiddenIn (cells b))" and "cstate (cs ! i) \<noteq> Hidden"
    and "adjOk (width b) (height b) (cells b) \<Longrightarrow> \<not> mine (cells b ! i) \<Longrightarrow>
      \<forall>j < length (cells b). cstate (cs ! j) \<noteq> cstate (cells b ! j) \<longrightarrow> \<not> mine (cells b ! j)"
proof -
  let ?x = "int (i mod width b)" and ?y = "int (i div width b)"
  obtain cs n where fl: "flood (width b) (height b) [(?x, ?y)] (cells b, revealedCount b) = (cs, n)" by fastforce
  have xy: "inBounds (width b) (height b) ?x ?y" "idx (width b) ?x ?y = i" using idx_coord assms by auto
  show thesis
  proof (rule that)
    show "openCell i b = b\<lparr>cells := cs, revealedCount := n\<rparr>" by (simp add: openCell_def revealFlood_def fl)
    show "uncovers (cells b) cs" "n + card (hiddenIn cs) = revealedCount b + card (hiddenIn (cells b))"
      using flood_uncovers [OF fl] by simp_all
    show "cstate (cs ! i) \<noteq> Hidden" using flood_opens [OF fl] assms(2) xy(2) by simp
    show "\<forall>j < length (cells b). cstate (cs ! j) \<noteq> cstate (cells b ! j) \<longrightarrow> \<not> mine (cells b ! j)"
      if "adjOk (width b) (height b) (cells b)" "\<not> mine (cells b ! i)"
      by (rule flood_safe [OF fl that(1) assms(1)]) (use xy that(2) in simp)
  qed
qed

lemma agrees_uncovers:
  assumes "uncovers (cells b) cs" and "agrees (b\<lparr>cells := cs, revealedCount := n\<rparr>) M"
  shows "agrees b M"
proof -
  have len: "length cs = length (cells b)" using assms(1) by (rule uncovers_length)
  have "cstate (cs ! i) = Revealed \<and> adjacent (cs ! i) = adjacent (cells b ! i)"
    if "i < length (cells b)" "cstate (cells b ! i) = Revealed" for i
    using assms(1) that by (auto simp: uncovers_def)
  with assms(2) len show ?thesis unfolding agrees_def by simp metis
qed

lemma agrees_deduces: "deduces b b' \<Longrightarrow> length (cells b) = width b * height b \<Longrightarrow> agrees b' M \<Longrightarrow> agrees b M"
proof (induction rule: deduces.induct)
  case (flags i b)
  then show ?case by (simp add: agrees_flag)
next
  case (opens i b)
  obtain cs n where "openCell i b = b\<lparr>cells := cs, revealedCount := n\<rparr>" and un: "uncovers (cells b) cs"
    by (rule openCell_cells [OF opens(4,1)])
  with opens(5) show ?case by (intro agrees_uncovers [OF un]) simp
qed

lemma inState_card: "card (hiddenIn cs) + card (inState Revealed cs) + card (inState Flagged cs) = length cs"
proof -
  have all: "{..<length cs} = hiddenIn cs \<union> inState Revealed cs \<union> inState Flagged cs"
    by (auto simp: hiddenIn_def inState_def) (metis cell_state.exhaust)
  have "hiddenIn cs \<inter> inState Revealed cs = {}" "(hiddenIn cs \<union> inState Revealed cs) \<inter> inState Flagged cs = {}"
    by (auto simp: hiddenIn_def inState_def)
  then have "card {..<length cs} = card (hiddenIn cs) + card (inState Revealed cs) + card (inState Flagged cs)"
    unfolding all by (simp add: card_Un_disjoint)
  then show ?thesis by simp
qed

lemma uncovers_inState:
  assumes "uncovers cs cs'"
  shows "inState Flagged cs' = inState Flagged cs" and "mines cs' = mines cs"
    and "inState Revealed cs \<subseteq> inState Revealed cs'"
proof -
  have at: "mine (cs' ! i) = mine (cs ! i)" "cstate (cs' ! i) = cstate (cs ! i) \<or> cstate (cs ! i) = Hidden \<and> cstate (cs' ! i) = Revealed"
    if "i < length cs" for i using assms that by (simp_all add: uncovers_def)
  have len: "length cs' = length cs" using assms by (rule uncovers_length)
  have "i < length cs \<Longrightarrow> (cstate (cs' ! i) = Flagged) = (cstate (cs ! i) = Flagged)" for i using at(2) [of i] by auto
  then show "inState Flagged cs' = inState Flagged cs" using len by (auto simp: inState_def)
  show "mines cs' = mines cs" using len at(1) by (auto simp: mines_def)
  have "i < length cs \<Longrightarrow> cstate (cs ! i) = Revealed \<Longrightarrow> cstate (cs' ! i) = Revealed" for i using at(2) [of i] by auto
  then show "inState Revealed cs \<subseteq> inState Revealed cs'" using len by (auto simp: inState_def)
qed

lemma open_ok:
  assumes "solverOk b" and "i < length (cells b)" and "cstate (cells b ! i) = Hidden" and "\<not> mine (cells b ! i)"
  shows "solverOk (openCell i b)"
proof -
  have len: "length (cells b) = width b * height b" and adj: "adjOk (width b) (height b) (cells b)"
    and safe: "inState Revealed (cells b) \<inter> mines (cells b) = {}" using assms(1) by (simp_all add: solverOk_def)
  obtain cs n where eq: "openCell i b = b\<lparr>cells := cs, revealedCount := n\<rparr>" and un: "uncovers (cells b) cs"
    and count: "n + card (hiddenIn cs) = revealedCount b + card (hiddenIn (cells b))"
    and opened: "\<forall>j < length (cells b). cstate (cs ! j) \<noteq> cstate (cells b ! j) \<longrightarrow> \<not> mine (cells b ! j)"
    using openCell_cells [OF len assms(2)] adj assms(4) by metis
  note st = uncovers_inState [OF un]
  have "\<not> mine (cells b ! j)" if "j < length (cells b)" "cstate (cs ! j) = Revealed" for j
    using opened safe that by (cases "cstate (cells b ! j) = Revealed") (auto simp: inState_def mines_def)
  then have "inState Revealed cs \<inter> mines (cells b) = {}" using uncovers_length [OF un] by (auto simp: inState_def mines_def)
  moreover have "n = card (inState Revealed cs)"
    using count inState_card [of cs] inState_card [of "cells b"] st(1) assms(1) uncovers_length [OF un] by (simp add: solverOk_def)
  moreover have "certainMine (b\<lparr>cells := cs, revealedCount := n\<rparr>) j" if "certainMine b j" for j
    using that agrees_uncovers [OF un] unfolding certainMine_def by blast
  moreover have "adjOk (width b) (height b) cs" using uncovers_adjOk [OF un adj len] .
  ultimately show ?thesis
    using assms(1) uncovers_length [OF un] unfolding eq solverOk_def by (simp add: st(1,2))
qed

lemma deduces_ok: "deduces b b' \<Longrightarrow> solverOk b \<Longrightarrow> solverOk b'"
  by (induction rule: deduces.induct) (auto intro: flag_ok open_ok simp: certain_true(2))

end
