(* ===== verification/Mine_Sound.thy ===== *)
theory Mine_Sound
  imports Mine_Certain
begin

text \<open>
  The solver of the Minesweeper game only draws certain conclusions: every operation of it is a sequence
  of steps each of which flags a square that is a mine, or opens one that is safe, in every layout that
  agrees with what is seen. So a layout the solver clears can be cleared without a guess.
\<close>

section \<open>Runs of certain steps\<close>

abbreviation run :: "'a solve_state_scheme \<Rightarrow> 'a solve_state_scheme \<Rightarrow> bool" where
  "run b b' \<equiv> deduces\<^sup>*\<^sup>* b b'"

lemma run_ok: "run b b' \<Longrightarrow> solverOk b \<Longrightarrow> solverOk b'"
  by (induction rule: rtranclp_induct) (auto intro: deduces_ok)

lemma run_agrees: "run b b' \<Longrightarrow> solverOk b \<Longrightarrow> agrees b' M \<Longrightarrow> agrees b M"
proof (induction arbitrary: M rule: rtranclp_induct)
  case (step b1 b2)
  then have "solverOk b1" using run_ok by blast
  then have "agrees b1 M" using agrees_deduces [OF step(2)] step(5) by (simp add: solverOk_def)
  with step(3,4) show ?case by blast
qed

lemma run_certain:
  assumes "run b b'" and "solverOk b"
  shows "certainMine b i \<Longrightarrow> certainMine b' i" and "certainSafe b i \<Longrightarrow> certainSafe b' i"
  using run_agrees [OF assms] by (auto simp: certainMine_def certainSafe_def)

lemma deduces_shape:
  assumes "deduces b b'" and "solverOk b"
  shows "width b' = width b" and "height b' = height b" and "mineCount b' = mineCount b"
    and "mines (cells b') = mines (cells b)" and "length (cells b') = length (cells b)"
proof -
  have "width b' = width b \<and> height b' = height b \<and> mineCount b' = mineCount b
    \<and> mines (cells b') = mines (cells b) \<and> length (cells b') = length (cells b)"
    using assms
  proof (induction rule: deduces.induct)
    case (opens i b)
    then have "length (cells b) = width b * height b" by (simp add: solverOk_def)
    then obtain cs n where eq: "openCell i b = b\<lparr>cells := cs, revealedCount := n\<rparr>" and un: "uncovers (cells b) cs"
      using openCell_cells opens(1) by metis
    with uncovers_inState(2) [OF un] uncovers_length [OF un] show ?case by simp
  qed (simp add: setState_sel)
  then show "width b' = width b" and "height b' = height b" and "mineCount b' = mineCount b"
    and "mines (cells b') = mines (cells b)" and "length (cells b') = length (cells b)" by simp_all
qed

lemma run_shape:
  assumes "run b b'" and "solverOk b"
  shows "width b' = width b \<and> height b' = height b \<and> mineCount b' = mineCount b
    \<and> mines (cells b') = mines (cells b) \<and> length (cells b') = length (cells b)"
  using assms
proof (induction rule: rtranclp_induct)
  case (step b1 b2)
  then have "solverOk b1" using run_ok by blast
  with step deduces_shape [OF step(2)] show ?case by simp
qed simp

section \<open>Flagging and opening several squares\<close>

lemma flagAll_run:
  assumes "solverOk b" and "\<forall>i \<in> set is. i < length (cells b) \<and> certainMine b i"
  shows "run b (fst (flagAll is (b, changed)))"
  using assms
proof (induction "is" arbitrary: b changed)
  case (Cons i "is")
  show ?case
  proof (cases "cstate (cells b ! i) = Hidden")
    case True
    with Cons.prems have step: "deduces b (flagCell i b)" by (simp add: deduces.flags)
    have "solverOk (flagCell i b)" using deduces_ok [OF step Cons.prems(1)] .
    moreover have "\<forall>j \<in> set is. j < length (cells (flagCell i b)) \<and> certainMine (flagCell i b) j"
      using Cons.prems run_certain(1) [OF r_into_rtranclp [of deduces, OF step] Cons.prems(1)] by (simp add: setState_sel)
    ultimately have "run (flagCell i b) (fst (flagAll is (flagCell i b, True)))" by (rule Cons.IH)
    with step True show ?thesis by (simp add: converse_rtranclp_into_rtranclp)
  next
    case False
    with Cons.IH [OF Cons.prems(1)] Cons.prems(2) show ?thesis by simp
  qed
qed simp

lemma openSafe_run:
  assumes "solverOk b" and "\<forall>i \<in> set is. i < length (cells b) \<and> certainSafe b i"
  shows "run b (fst (openSafe is (b, changed)))"
    and "run b (fst (openAll is (b, changed))) \<and> \<not> snd (snd (openAll is (b, changed)))"
proof -
  have "run b (fst (openSafe is (b, changed))) \<and> run b (fst (openAll is (b, changed))) \<and> \<not> snd (snd (openAll is (b, changed)))"
    using assms
  proof (induction "is" arbitrary: b changed)
    case (Cons i "is")
    have safe: "\<not> mine (cells b ! i)" using certain_true(2) [OF Cons.prems(1)] Cons.prems(2) by simp
    show ?case
    proof (cases "cstate (cells b ! i) = Hidden")
      case True
      with Cons.prems have step: "deduces b (openCell i b)" by (simp add: deduces.opens)
      have "solverOk (openCell i b)" using deduces_ok [OF step Cons.prems(1)] .
      moreover have "\<forall>j \<in> set is. j < length (cells (openCell i b)) \<and> certainSafe (openCell i b) j"
        using Cons.prems deduces_shape(5) [OF step Cons.prems(1)]
          run_certain(2) [OF r_into_rtranclp [of deduces, OF step] Cons.prems(1)] by simp
      ultimately have "run (openCell i b) (fst (openSafe is (openCell i b, True))) \<and> run (openCell i b) (fst (openAll is (openCell i b, True)))
        \<and> \<not> snd (snd (openAll is (openCell i b, True)))" by (rule Cons.IH)
      with step True safe show ?thesis
        by (simp add: converse_rtranclp_into_rtranclp flip: openCell_def)
    next
      case False
      with Cons.IH [OF Cons.prems(1)] Cons.prems(2) show ?thesis by simp
    qed
  qed simp
  then show "run b (fst (openSafe is (b, changed)))"
    and "run b (fst (openAll is (b, changed))) \<and> \<not> snd (snd (openAll is (b, changed)))" by simp_all
qed

section \<open>What one number says\<close>

lemma varsAt_set:
  assumes "inBounds (width b) (height b) x y"
  shows "set (varsAt b (x, y)) = {j \<in> set (forEachNeighbor (width b) (height b) x y). cstate (cells b ! j) = Hidden}"
    and "distinct (varsAt b (x, y))"
    and "flaggedAround b x y = card {j \<in> set (forEachNeighbor (width b) (height b) x y). cstate (cells b ! j) = Flagged}"
proof -
  let ?f = "\<lambda>(nx, ny). idx (width b) nx ny" and ?N = "forEachNeighbor (width b) (height b) x y"
  have filt: "map ?f (filter (\<lambda>(nx, ny). cstate (cellAt b nx ny) = s) (neighborCoords (width b) (height b) x y))
      = filter (\<lambda>j. cstate (cells b ! j) = s) ?N" for s
    by (simp add: forEachNeighbor_def filter_map o_def cellAt_def case_prod_unfold)
  show "set (varsAt b (x, y)) = {j \<in> set ?N. cstate (cells b ! j) = Hidden}" "distinct (varsAt b (x, y))"
    using filt [of Hidden] forEachNeighbor_distinct by (simp_all add: varsAt_def hiddenAround_def)
  have "flaggedAround b x y = length (filter (\<lambda>j. cstate (cells b ! j) = Flagged) ?N)"
    unfolding flaggedAround_def filt [of Flagged, symmetric] by simp
  then show "flaggedAround b x y = card {j \<in> set ?N. cstate (cells b ! j) = Flagged}"
    using distinct_card [of "filter (\<lambda>j. cstate (cells b ! j) = Flagged) ?N"] forEachNeighbor_distinct by simp
qed

lemma number_says:
  assumes "solverOk b" and "inBounds (width b) (height b) x y" and "cstate (cellAt b x y) = Revealed" and "agrees b M"
  shows "card (set (varsAt b (x, y)) \<inter> M) + flaggedAround b x y = adjacent (cellAt b x y)"
proof -
  let ?i = "idx (width b) x y" and ?N = "set (forEachNeighbor (width b) (height b) x y)"
  let ?F = "{j \<in> ?N. cstate (cells b ! j) = Flagged}"
  have len: "length (cells b) = width b * height b" using assms(1) by (simp add: solverOk_def)
  have bound: "j < length (cells b)" if "j \<in> ?N" for j using forEachNeighbor_less that len by simp
  have "?i < length (cells b)" using coord_idx(1) [OF assms(2)] len by simp
  then have "adjacent (cellAt b x y) = card (?N \<inter> M)"
    using assms(3,4) neighborsOf_idx [OF assms(2)] unfolding agrees_def cellAt_def by simp
  moreover have "?N \<inter> M = (set (varsAt b (x, y)) \<inter> M) \<union> ?F"
  proof -
    have "j \<in> M" if "j \<in> ?F" for j
      using assms(1,4) that bound unfolding solverOk_def certainMine_def inState_def by blast
    moreover have "cstate (cells b ! j) \<noteq> Revealed" if "j \<in> ?N" "j \<in> M" for j
      using assms(4) that bound unfolding agrees_def by blast
    ultimately show ?thesis unfolding varsAt_set(1) [OF assms(2)] using cell_state.exhaust by blast
  qed
  moreover have "(set (varsAt b (x, y)) \<inter> M) \<inter> ?F = {}" unfolding varsAt_set(1) [OF assms(2)] by auto
  ultimately show ?thesis by (simp add: card_Un_disjoint varsAt_set(3) [OF assms(2)])
qed

lemma full_number: "finite V \<Longrightarrow> card (V \<inter> M) = card V \<Longrightarrow> i \<in> V \<Longrightarrow> i \<in> M"
  using card_subset_eq [of V "V \<inter> M"] by auto

lemma empty_number: "finite V \<Longrightarrow> card (V \<inter> M) = 0 \<Longrightarrow> i \<in> V \<Longrightarrow> i \<notin> M"
  by auto

lemma varsAt_less: "solverOk b \<Longrightarrow> inBounds (width b) (height b) x y \<Longrightarrow> i \<in> set (varsAt b (x, y)) \<Longrightarrow> i < length (cells b)"
  using forEachNeighbor_less unfolding varsAt_set(1) by (auto simp: solverOk_def)

lemma length_varsAt: "length (varsAt b (x, y)) = length (hiddenAround b x y)"
  by (simp add: varsAt_def)

lemma autoFlagAt_run:
  assumes "solverOk b" and "inBounds (width b) (height b) x y"
  shows "run b (fst (autoFlagAt (x, y) (b, changed)))"
proof (cases "cstate (cellAt b x y) = Revealed \<and>
    int (adjacent (cellAt b x y)) - int (flaggedAround b x y) = int (length (hiddenAround b x y))")
  case True
  let ?V = "varsAt b (x, y)"
  have "i \<in> M" if "agrees b M" "i \<in> set ?V" for M i
  proof (rule full_number [of "set ?V"])
    have "card (set ?V) = length ?V" using varsAt_set(2) [OF assms(2)] by (rule distinct_card)
    then show "card (set ?V \<inter> M) = card (set ?V)"
      using number_says [OF assms _ that(1)] True length_varsAt [of b x y] by simp
  qed (use that in simp_all)
  then have "\<forall>i \<in> set ?V. i < length (cells b) \<and> certainMine b i"
    using varsAt_less [OF assms] unfolding certainMine_def by blast
  then have "run b (fst (flagAll ?V (b, changed)))" using flagAll_run assms(1) by blast
  then show ?thesis by (simp add: autoFlagAt_def Let_def varsAt_def)
qed (auto simp: autoFlagAt_def Let_def)

lemma openAt_run:
  assumes "solverOk b" and "inBounds (width b) (height b) x y"
  shows "run b (fst (openAt (x, y) (b, changed)))" and "\<not> snd (snd (openAt (x, y) (b, changed)))"
proof -
  let ?V = "varsAt b (x, y)"
  have "run b (fst (openAt (x, y) (b, changed))) \<and> \<not> snd (snd (openAt (x, y) (b, changed)))"
  proof (cases "cstate (cellAt b x y) = Revealed \<and> adjacent (cellAt b x y) = flaggedAround b x y")
    case True
    have "i \<notin> M" if "agrees b M" "i \<in> set ?V" for M i
      by (rule empty_number [of "set ?V"]) (use number_says [OF assms _ that(1)] True that(2) in simp_all)
    then have "\<forall>i \<in> set ?V. i < length (cells b) \<and> certainSafe b i"
      using varsAt_less [OF assms] unfolding certainSafe_def by blast
    then have "run b (fst (openAll ?V (b, changed))) \<and> \<not> snd (snd (openAll ?V (b, changed)))"
      using openSafe_run(2) assms(1) by blast
    then show ?thesis by (simp add: openAt_def Let_def varsAt_def)
  qed (auto simp: openAt_def Let_def)
  then show "run b (fst (openAt (x, y) (b, changed)))" and "\<not> snd (snd (openAt (x, y) (b, changed)))" by simp_all
qed

end
