(* ===== verification/Mine_Components.thy ===== *)
theory Mine_Components
  imports Mine_Solver "HOL-Library.Multiset"
begin

text \<open>
  The division of the frontier of the Minesweeper solver (\<open>engine/game.ts\<close>: frontierComponents). The
  forest of parents never has a cycle, so the loop that climbs to a root ends within as many turns as
  the frontier has squares, and the groups are the classes of squares that constraints connect.
\<close>

section \<open>Forests\<close>

definition forestOn :: "nat set \<Rightarrow> (nat \<Rightarrow> nat) \<Rightarrow> (nat \<Rightarrow> nat) \<Rightarrow> bool" where
  "forestOn F rank parent \<longleftrightarrow> finite F \<and> parent ` F \<subseteq> F \<and> (\<forall>a \<in> F. parent a \<noteq> a \<longrightarrow> rank (parent a) < rank a)"

lemma climb_enough:
  assumes "forestOn F rank parent" and "a \<in> F" and "card {b \<in> F. rank b < rank a} \<le> k"
  shows "climb k parent a \<in> F \<and> parent (climb k parent a) = climb k parent a"
  using assms(2,3)
proof (induction k arbitrary: a)
  case 0
  then have none: "{b \<in> F. rank b < rank a} = {}" using assms(1) by (simp add: forestOn_def)
  have "parent a = a"
  proof (rule ccontr)
    assume "parent a \<noteq> a"
    then have "parent a \<in> {b \<in> F. rank b < rank a}" using assms(1) 0(1) by (auto simp: forestOn_def)
    with none show False by blast
  qed
  with 0 show ?case by simp
next
  case (Suc k)
  show ?case
  proof (cases "parent a = a")
    case False
    then have up: "parent a \<in> F" "rank (parent a) < rank a" using assms(1) Suc.prems(1) by (auto simp: forestOn_def)
    have "{b \<in> F. rank b < rank (parent a)} \<subset> {b \<in> F. rank b < rank a}" using up by auto
    then have "card {b \<in> F. rank b < rank (parent a)} < card {b \<in> F. rank b < rank a}"
      using assms(1) by (intro psubset_card_mono) (simp_all add: forestOn_def)
    with Suc up False show ?thesis by simp
  qed (use Suc in simp)
qed

text \<open>The root of a square, and that as many turns as there are squares are enough to reach it.\<close>

lemma climb_root:
  assumes "forestOn F rank parent" and "a \<in> F" and "card F \<le> k"
  shows "climb k parent a \<in> F" and "parent (climb k parent a) = climb k parent a"
proof -
  have "card {b \<in> F. rank b < rank a} \<le> card F" using assms(1) by (intro card_mono) (auto simp: forestOn_def)
  with climb_enough [OF assms(1,2)] assms(3) show "climb k parent a \<in> F" "parent (climb k parent a) = climb k parent a" by simp_all
qed

lemma climb_fixed: "parent a = a \<Longrightarrow> climb k parent a = a"
  by (cases k) simp_all

lemma climb_more: "parent (climb k parent a) = climb k parent a \<Longrightarrow> climb (Suc k) parent a = climb k parent a"
proof (induction k arbitrary: a)
  case (Suc k)
  show ?case
  proof (cases "parent a = a")
    case False
    then have "parent (climb k parent (parent a)) = climb k parent (parent a)" using Suc.prems by simp
    from Suc.IH [OF this] False show ?thesis by simp
  qed simp
qed simp

lemma climb_step:
  assumes "forestOn F rank parent" and "a \<in> F" and "card F \<le> k"
  shows "climb k parent (parent a) = climb k parent a"
proof (cases "parent a = a")
  case False
  then have "climb (Suc k) parent a = climb k parent (parent a)" by simp
  then show ?thesis using climb_more [OF climb_root(2) [OF assms]] by simp
qed simp

lemma climb_rank:
  assumes "forestOn F rank parent" and "a \<in> F"
  shows "climb k parent a \<in> F" and "climb k parent a = a \<or> rank (climb k parent a) < rank a"
proof -
  have "climb k parent a \<in> F \<and> (climb k parent a = a \<or> rank (climb k parent a) < rank a)" using assms(2)
  proof (induction k arbitrary: a)
    case (Suc k)
    show ?case
    proof (cases "parent a = a")
      case False
      then have "parent a \<in> F" "rank (parent a) < rank a" using assms(1) Suc.prems by (auto simp: forestOn_def)
      with Suc.IH [OF this(1)] False show ?thesis by auto
    qed (use Suc in simp)
  qed simp
  then show "climb k parent a \<in> F" and "climb k parent a = a \<or> rank (climb k parent a) < rank a" by simp_all
qed

text \<open>A function that is constant along the edges and the identity on the roots gives the root.\<close>

lemma climb_unique:
  assumes "forestOn F rank parent" and "a \<in> F" and "card F \<le> k"
    and "\<And>b. b \<in> F \<Longrightarrow> parent b \<noteq> b \<Longrightarrow> r (parent b) = r b" and "\<And>b. b \<in> F \<Longrightarrow> parent b = b \<Longrightarrow> r b = b"
  shows "climb k parent a = r a"
proof -
  have "r (climb n parent a) = r a" for n using assms(2)
  proof (induction n arbitrary: a)
    case (Suc n)
    show ?case
    proof (cases "parent a = a")
      case False
      have "parent a \<in> F" using assms(1) Suc.prems by (auto simp: forestOn_def)
      with Suc assms(4) False show ?thesis by simp
    qed simp
  qed simp
  moreover have "r (climb k parent a) = climb k parent a" using climb_root [OF assms(1-3)] by (intro assms(5))
  ultimately show ?thesis by simp
qed

section \<open>Finding and joining\<close>

lemma find_forest:
  assumes "forestOn F rank parent" and "a \<in> F" and "card F \<le> k" and "ufFind k parent a = (p, parent')"
  shows "p = climb k parent a" and "forestOn F rank parent'" and "\<forall>b \<in> F. climb k parent' b = climb k parent b"
proof -
  show p: "p = climb k parent a" using assms(4) climb_step [OF assms(1-3)] by (simp add: ufFind_def Let_def)
  have p': "parent' = parent(a := climb k parent a)"
    using assms(4) climb_step [OF assms(1-3)] by (auto simp: ufFind_def Let_def)
  show forest: "forestOn F rank parent'"
    using assms(1) climb_rank [OF assms(1,2), of k] by (auto simp: forestOn_def p')
  show "\<forall>b \<in> F. climb k parent' b = climb k parent b"
  proof
    fix b assume "b \<in> F"
    then show "climb k parent' b = climb k parent b"
    proof (rule climb_unique [OF forest _ assms(3)])
      fix c assume c: "c \<in> F" "parent' c \<noteq> c"
      show "climb k parent (parent' c) = climb k parent c"
      proof (cases "c = a")
        case True
        then show ?thesis using climb_fixed [of parent "climb k parent a", OF climb_root(2) [OF assms(1-3)]] by (simp add: p')
      next
        case False
        then show ?thesis using climb_step [OF assms(1) c(1) assms(3)] by (simp add: p')
      qed
    next
      fix c assume "c \<in> F" "parent' c = c"
      then show "climb k parent c = c" by (cases "c = a") (simp_all add: p' climb_fixed)
    qed
  qed
qed

lemma union_forest:
  assumes "forestOn F rank parent" and "a \<in> F" and "b \<in> F" and "card F \<le> k"
  shows "\<exists>rank'. forestOn F rank' (ufUnion k a b parent)"
    and "\<forall>c \<in> F. climb k (ufUnion k a b parent) c =
      (if climb k parent c = climb k parent a then climb k parent b else climb k parent c)"
proof -
  obtain ra p1 where f1: "ufFind k parent a = (ra, p1)" by fastforce
  obtain rb p2 where f2: "ufFind k p1 b = (rb, p2)" by fastforce
  note one = find_forest [OF assms(1,2,4) f1]
  note two = find_forest [OF one(2) assms(3,4) f2]
  have same: "climb k p2 c = climb k parent c" if "c \<in> F" for c using one(3) two(3) that by simp
  have ra: "ra = climb k parent a" and rb: "rb = climb k parent b" using one two assms(3) by simp_all
  have root2: "c \<in> F \<Longrightarrow> climb k p2 (climb k p2 c) = climb k p2 c" for c
    using climb_root(2) [OF two(2) _ assms(4)] climb_fixed by metis
  have inF: "ra \<in> F" "rb \<in> F" unfolding ra rb using climb_rank(1) assms by blast+
  have roots: "climb k p2 ra = ra" "climb k p2 rb = rb" using root2 [OF assms(2)] root2 [OF assms(3)] same assms(2,3) by (simp_all add: ra rb)
  have fix2: "p2 ra = ra" "p2 rb = rb"
    using climb_root(2) [OF two(2) assms(2,4)] climb_root(2) [OF two(2) assms(3,4)] same assms(2,3) by (simp_all add: ra rb)
  let ?q = "if ra \<noteq> rb then p2(ra := rb) else p2"
  let ?rank = "\<lambda>c. rank c + (if climb k p2 c = ra \<and> ra \<noteq> rb then Suc (rank rb) else 0)"
  have q: "ufUnion k a b parent = ?q" by (simp add: ufUnion_def f1 f2)
  have forest: "forestOn F ?rank ?q"
    unfolding forestOn_def
  proof (intro conjI ballI impI)
    show "finite F" "?q ` F \<subseteq> F" using two(2) inF by (auto simp: forestOn_def)
    fix c assume c: "c \<in> F" "?q c \<noteq> c"
    show "?rank (?q c) < ?rank c"
    proof (cases "c = ra \<and> ra \<noteq> rb")
      case True
      then show ?thesis using roots by simp
    next
      case False
      then have "?q c = p2 c" by auto
      moreover have "rank (p2 c) < rank c" using two(2) c calculation by (auto simp: forestOn_def)
      ultimately show ?thesis using climb_step [OF two(2) c(1) assms(4)] by simp
    qed
  qed
  then show "\<exists>rank'. forestOn F rank' (ufUnion k a b parent)" unfolding q by blast
  show "\<forall>c \<in> F. climb k (ufUnion k a b parent) c =
      (if climb k parent c = climb k parent a then climb k parent b else climb k parent c)"
  proof
    fix c assume "c \<in> F"
    have "climb k ?q c = (if climb k p2 c = ra then rb else climb k p2 c)"
    proof (rule climb_unique [OF forest \<open>c \<in> F\<close> assms(4)])
      fix d assume d: "d \<in> F" "?q d \<noteq> d"
      show "(if climb k p2 (?q d) = ra then rb else climb k p2 (?q d)) = (if climb k p2 d = ra then rb else climb k p2 d)"
        using climb_step [OF two(2) d(1) assms(4)] roots by (cases "d = ra") auto
    next
      fix d assume d: "d \<in> F" "?q d = d"
      show "(if climb k p2 d = ra then rb else climb k p2 d) = d"
        using d(2) climb_fixed [of p2 d k] roots by (cases "d = ra"; cases "ra = rb") auto
    qed
    with same [OF \<open>c \<in> F\<close>] show "climb k (ufUnion k a b parent) c =
      (if climb k parent c = climb k parent a then climb k parent b else climb k parent c)" by (simp add: q ra rb)
  qed
qed

section \<open>Links\<close>

definition links :: "constraint list \<Rightarrow> (nat \<times> nat) set" where
  "links constraints = {(u, v). \<exists>c \<in> set constraints. u \<in> set (cvars c) \<and> v \<in> set (cvars c)}"

lemma links_sym: "(u, v) \<in> (links cs)\<^sup>* \<Longrightarrow> (v, u) \<in> (links cs)\<^sup>*"
proof -
  have "sym (links cs)" by (auto simp: sym_def links_def)
  then have "sym ((links cs)\<^sup>*)" by (rule sym_rtrancl)
  then show "(u, v) \<in> (links cs)\<^sup>* \<Longrightarrow> (v, u) \<in> (links cs)\<^sup>*" by (rule symD)
qed

text \<open>A forest that joins nothing but what is linked, and keeps what an earlier one joined.\<close>

definition joinsOnly :: "nat set \<Rightarrow> nat \<Rightarrow> (nat \<times> nat) set \<Rightarrow> (nat \<Rightarrow> nat) \<Rightarrow> bool" where
  "joinsOnly F k R parent \<longleftrightarrow> (\<exists>rank. forestOn F rank parent)
     \<and> (\<forall>u \<in> F. \<forall>v \<in> F. climb k parent u = climb k parent v \<longrightarrow> (u, v) \<in> R\<^sup>*)"

definition keepsJoined :: "nat set \<Rightarrow> nat \<Rightarrow> (nat \<Rightarrow> nat) \<Rightarrow> (nat \<Rightarrow> nat) \<Rightarrow> bool" where
  "keepsJoined F k parent parent' \<longleftrightarrow>
     (\<forall>u \<in> F. \<forall>v \<in> F. climb k parent u = climb k parent v \<longrightarrow> climb k parent' u = climb k parent' v)"

lemma keepsJoined_trans: "keepsJoined F k p q \<Longrightarrow> keepsJoined F k q r \<Longrightarrow> keepsJoined F k p r"
  unfolding keepsJoined_def by blast

lemma keepsJoinedD: "keepsJoined F k p q \<Longrightarrow> u \<in> F \<Longrightarrow> v \<in> F \<Longrightarrow> climb k p u = climb k p v \<Longrightarrow> climb k q u = climb k q v"
  unfolding keepsJoined_def by blast

lemma keepsJoined_refl: "keepsJoined F k p p"
  unfolding keepsJoined_def by blast

lemma union_joins:
  assumes "joinsOnly F k (links cs) parent" and "a \<in> F" and "b \<in> F" and "card F \<le> k" and "(a, b) \<in> (links cs)\<^sup>*"
  shows "joinsOnly F k (links cs) (ufUnion k a b parent)" and "keepsJoined F k parent (ufUnion k a b parent)"
    and "climb k (ufUnion k a b parent) a = climb k (ufUnion k a b parent) b"
proof -
  obtain rank where forest: "forestOn F rank parent" using assms(1) by (auto simp: joinsOnly_def)
  note un = union_forest [OF forest assms(2-4)]
  obtain q where q: "q = ufUnion k a b parent" by simp
  have new: "climb k q c = (if climb k parent c = climb k parent a then climb k parent b else climb k parent c)" if "c \<in> F" for c
    using un(2) that unfolding q by (rule bspec)
  show "keepsJoined F k parent (ufUnion k a b parent)" unfolding keepsJoined_def q [symmetric] by (simp add: new)
  show "climb k (ufUnion k a b parent) a = climb k (ufUnion k a b parent) b" unfolding q [symmetric] using assms(2,3) by (simp add: new)
  have old: "(u, v) \<in> (links cs)\<^sup>*" if "u \<in> F" "v \<in> F" "climb k parent u = climb k parent v" for u v
    using assms(1) that unfolding joinsOnly_def by blast
  have ba: "(b, a) \<in> (links cs)\<^sup>*" using assms(5) by (rule links_sym)
  have "(u, v) \<in> (links cs)\<^sup>*"
    if uv: "u \<in> F" "v \<in> F" "climb k q u = climb k q v" for u v
  proof -
    let ?r = "climb k parent"
    consider "?r u = ?r v" | "?r u = ?r a" "?r v = ?r b" | "?r v = ?r a" "?r u = ?r b"
      using uv(3) unfolding new [OF uv(1)] new [OF uv(2)] by (auto split: if_splits)
    then show ?thesis
    proof cases
      case 1
      with uv old show ?thesis by blast
    next
      case 2
      have "(u, a) \<in> (links cs)\<^sup>*" "(b, v) \<in> (links cs)\<^sup>*"
        using old [OF uv(1) assms(2) 2(1)] old [OF assms(3) uv(2) 2(2) [symmetric]] by blast+
      with assms(5) show ?thesis by (meson rtrancl_trans)
    next
      case 3
      have "(u, b) \<in> (links cs)\<^sup>*" "(a, v) \<in> (links cs)\<^sup>*"
        using old [OF uv(1) assms(3) 3(2)] old [OF assms(2) uv(2) 3(1) [symmetric]] by blast+
      with ba show ?thesis by (meson rtrancl_trans)
    qed
  qed
  with un(1) show "joinsOnly F k (links cs) (ufUnion k a b parent)" unfolding joinsOnly_def q by blast
qed

lemma linkConstraint_joins:
  assumes "joinsOnly F k (links cs) parent" and "c \<in> set cs" and "set (cvars c) \<subseteq> F" and "card F \<le> k"
  shows "joinsOnly F k (links cs) (linkConstraint k c parent)" and "keepsJoined F k parent (linkConstraint k c parent)"
    and "\<forall>u \<in> set (cvars c). \<forall>v \<in> set (cvars c). climb k (linkConstraint k c parent) u = climb k (linkConstraint k c parent) v"
proof -
  have "joinsOnly F k (links cs) (linkConstraint k c parent) \<and> keepsJoined F k parent (linkConstraint k c parent)
    \<and> (\<forall>u \<in> set (cvars c). \<forall>v \<in> set (cvars c). climb k (linkConstraint k c parent) u = climb k (linkConstraint k c parent) v)"
  proof (cases "cvars c")
    case Nil
    then show ?thesis using assms(1) by (simp add: linkConstraint_def keepsJoined_refl)
  next
    case (Cons a as)
    have "joinsOnly F k (links cs) (fold (ufUnion k a) bs q) \<and> keepsJoined F k q (fold (ufUnion k a) bs q)
      \<and> (\<forall>b \<in> set bs. climb k (fold (ufUnion k a) bs q) b = climb k (fold (ufUnion k a) bs q) a)"
      if "set bs \<subseteq> set as" "joinsOnly F k (links cs) q" for bs q
      using that
    proof (induction bs arbitrary: q)
      case Nil
      then show ?case by (simp add: keepsJoined_refl)
    next
      case (Cons b bs)
      have ab: "a \<in> F" "b \<in> F" using assms(3) \<open>cvars c = a # as\<close> Cons.prems(1) by auto
      have "(a, b) \<in> links cs" using assms(2) \<open>cvars c = a # as\<close> Cons.prems(1) by (auto simp: links_def intro!: bexI [of _ c])
      note un = union_joins [OF Cons.prems(2) ab assms(4) r_into_rtrancl [OF this]]
      let ?q = "fold (ufUnion k a) bs (ufUnion k a b q)"
      have bs: "set bs \<subseteq> set as" using Cons.prems(1) by simp
      note ih = Cons.IH [OF bs un(1)]
      have "climb k ?q b = climb k ?q a"
        using keepsJoinedD [OF _ ab(2) ab(1) un(3) [symmetric]] ih by blast
      moreover have "keepsJoined F k q ?q" using keepsJoined_trans [OF un(2)] ih by blast
      ultimately show ?case using ih by simp
    qed
    from this [OF order_refl assms(1)] have all: "joinsOnly F k (links cs) (linkConstraint k c parent)"
      "keepsJoined F k parent (linkConstraint k c parent)"
      "\<And>b. b \<in> set as \<Longrightarrow> climb k (linkConstraint k c parent) b = climb k (linkConstraint k c parent) a"
      using Cons by (simp_all add: linkConstraint_def)
    from all(3) have "climb k (linkConstraint k c parent) u = climb k (linkConstraint k c parent) a" if "u \<in> set (cvars c)" for u
      using that Cons by auto
    with all(1,2) show ?thesis by simp
  qed
  then show "joinsOnly F k (links cs) (linkConstraint k c parent)" and "keepsJoined F k parent (linkConstraint k c parent)"
    and "\<forall>u \<in> set (cvars c). \<forall>v \<in> set (cvars c). climb k (linkConstraint k c parent) u = climb k (linkConstraint k c parent) v"
    by blast+
qed

lemma linkAll_joins:
  assumes "joinsOnly F k (links cs) parent" and "set ds \<subseteq> set cs" and "\<forall>c \<in> set ds. set (cvars c) \<subseteq> F" and "card F \<le> k"
  shows "joinsOnly F k (links cs) (fold (linkConstraint k) ds parent) \<and> keepsJoined F k parent (fold (linkConstraint k) ds parent)
    \<and> (\<forall>c \<in> set ds. \<forall>u \<in> set (cvars c). \<forall>v \<in> set (cvars c).
         climb k (fold (linkConstraint k) ds parent) u = climb k (fold (linkConstraint k) ds parent) v)"
  using assms(1-3)
proof (induction ds arbitrary: parent)
  case Nil
  then show ?case by (simp add: keepsJoined_refl)
next
  case (Cons d ds)
  have d: "d \<in> set cs" "set (cvars d) \<subseteq> F" using Cons.prems by simp_all
  note one = linkConstraint_joins [OF Cons.prems(1) d assms(4)]
  let ?q = "fold (linkConstraint k) ds (linkConstraint k d parent)"
  have ds: "set ds \<subseteq> set cs" "\<forall>c \<in> set ds. set (cvars c) \<subseteq> F" using Cons.prems by simp_all
  note ih = Cons.IH [OF one(1) ds]
  have eq: "fold (linkConstraint k) (d # ds) parent = ?q" by simp
  show ?case unfolding eq
  proof (intro conjI ballI)
    show "joinsOnly F k (links cs) ?q" using ih by blast
    show "keepsJoined F k parent ?q" using keepsJoined_trans [OF one(2)] ih by blast
    fix c u v assume c: "c \<in> set (d # ds)" "u \<in> set (cvars c)" "v \<in> set (cvars c)"
    show "climb k ?q u = climb k ?q v"
    proof (cases "c = d")
      case True
      with c one(3) d(2) keepsJoinedD [of F k _ ?q u v] ih show ?thesis by blast
    next
      case False
      with c ih show ?thesis by (simp only: list.set insert_iff) blast
    qed
  qed
qed

lemma roots_linked:
  assumes "\<forall>c \<in> set cs. set (cvars c) \<subseteq> F" and "card F \<le> k" and "finite F"
  defines "q \<equiv> fold (linkConstraint k) cs id"
  shows "\<exists>rank. forestOn F rank q" and "u \<in> F \<Longrightarrow> v \<in> F \<Longrightarrow> climb k q u = climb k q v \<longleftrightarrow> (u, v) \<in> (links cs)\<^sup>*"
proof -
  have "climb k id u = u" for u by (rule climb_fixed) simp
  then have "joinsOnly F k (links cs) id" using assms(3) by (auto simp: joinsOnly_def forestOn_def)
  note all = linkAll_joins [OF this order_refl assms(1,2), folded q_def]
  then show "\<exists>rank. forestOn F rank q" by (simp add: joinsOnly_def)
  assume uv: "u \<in> F" "v \<in> F"
  have "climb k q u = climb k q v" if "(u, v) \<in> (links cs)\<^sup>*"
    using that
  proof (induction rule: rtrancl_induct)
    case (step v w)
    then obtain c where "c \<in> set cs" "v \<in> set (cvars c)" "w \<in> set (cvars c)" by (auto simp: links_def)
    with all have "climb k q v = climb k q w" by blast
    with step(3) show ?case by simp
  qed simp
  moreover have "(u, v) \<in> (links cs)\<^sup>*" if "climb k q u = climb k q v" using all uv that unfolding joinsOnly_def by blast
  ultimately show "climb k q u = climb k q v \<longleftrightarrow> (u, v) \<in> (links cs)\<^sup>*" by blast
qed

section \<open>The groups\<close>

text \<open>Whatever the forest of parents is, the groups divide the frontier.\<close>

lemma addToGroup_concat:
  "mset (concat (map snd (addToGroup r v gs))) = add_mset v (mset (concat (map snd gs)))"
  by (induction r v gs rule: addToGroup.induct) auto

lemma groupFrontier_concat:
  "mset (concat (map snd (groupFrontier k vs parent gs))) = mset vs + mset (concat (map snd gs))"
  by (induction k vs parent gs rule: groupFrontier.induct) (simp_all add: addToGroup_concat split: prod.splits)

lemma components_divide: "mset (concat (frontierComponents constraints frontier)) = mset frontier"
  by (simp add: frontierComponents_def Let_def groupFrontier_concat)

lemma component_of_frontier:
  assumes "part \<in> set (frontierComponents constraints frontier)" and "distinct frontier"
  shows "distinct part" and "set part \<subseteq> set frontier" and "length part = length frontier \<Longrightarrow> set part = set frontier"
proof -
  let ?cs = "frontierComponents constraints frontier"
  have "distinct (concat ?cs)" using components_divide assms(2) by (metis mset_eq_imp_distinct_iff)
  then show d: "distinct part" using assms(1) by (simp add: distinct_concat_iff)
  have "set (concat ?cs) = set frontier" using components_divide by (rule mset_eq_setD)
  then show sub: "set part \<subseteq> set frontier" using assms(1) by auto
  show "set part = set frontier" if "length part = length frontier"
    using card_subset_eq [OF _ sub] distinct_card [OF d] distinct_card [OF assms(2)] that by simp
qed

text \<open>The squares of a group are those with the same root, in the order of the frontier.\<close>

definition groupOf :: "(nat \<Rightarrow> nat) \<Rightarrow> nat list \<Rightarrow> nat \<Rightarrow> nat list option" where
  "groupOf r vs x = (let g = filter (\<lambda>v. r v = x) vs in if g = [] then None else Some g)"

lemma addToGroup_map:
  "map_of (addToGroup x v gs) y = (if y = x then Some (case map_of gs x of None \<Rightarrow> [v] | Some vs \<Rightarrow> vs @ [v]) else map_of gs y)"
  by (induction x v gs rule: addToGroup.induct) auto

lemma addToGroup_keys: "fst ` set (addToGroup x v gs) = insert x (fst ` set gs)"
  by (induction x v gs rule: addToGroup.induct) auto

lemma addToGroup_distinct: "distinct (map fst gs) \<Longrightarrow> distinct (map fst (addToGroup x v gs))"
  by (induction x v gs rule: addToGroup.induct) (auto simp: addToGroup_keys)

lemma groupFrontier_map:
  assumes "forestOn F rank parent" and "card F \<le> k" and "\<forall>b \<in> F. climb k parent b = r b" and "set vs \<subseteq> F"
    and "\<And>x. map_of gs x = groupOf r before x" and "distinct (map fst gs)"
  shows "map_of (groupFrontier k vs parent gs) x = groupOf r (before @ vs) x \<and> distinct (map fst (groupFrontier k vs parent gs))"
  using assms(1,3-6)
proof (induction vs arbitrary: parent gs before)
  case (Cons v vs)
  obtain p parent' where find: "ufFind k parent v = (p, parent')" by fastforce
  have v: "v \<in> F" using Cons.prems(3) by simp
  note ff = find_forest [OF Cons.prems(1) v assms(2) find]
  have p: "p = r v" using ff(1) Cons.prems(2) v by simp
  have roots: "\<forall>b \<in> F. climb k parent' b = r b" using ff(3) Cons.prems(2) by simp
  have "map_of (addToGroup p v gs) y = groupOf r (before @ [v]) y" for y
    by (simp add: addToGroup_map Cons.prems(4) groupOf_def Let_def p)
  from Cons.IH [OF ff(2) roots _ this addToGroup_distinct [OF Cons.prems(5)]] Cons.prems(3) find show ?case by simp
qed simp

lemma components_are_classes:
  assumes "\<forall>c \<in> set constraints. set (cvars c) \<subseteq> set frontier"
  obtains r where "\<And>u v. u \<in> set frontier \<Longrightarrow> v \<in> set frontier \<Longrightarrow> r u = r v \<longleftrightarrow> (u, v) \<in> (links constraints)\<^sup>*"
    and "set (frontierComponents constraints frontier) = {g. \<exists>x. groupOf r frontier x = Some g}"
proof -
  let ?k = "length frontier" and ?F = "set frontier"
  let ?q = "fold (linkConstraint ?k) constraints id"
  let ?gs = "groupFrontier ?k frontier ?q []"
  have k: "card ?F \<le> ?k" by (rule card_length)
  note linked = roots_linked [OF assms k finite_set]
  obtain rank where forest: "forestOn ?F rank ?q" using linked(1) by blast
  have "map_of ?gs x = groupOf (climb ?k ?q) frontier x \<and> distinct (map fst ?gs)" for x
    using groupFrontier_map [OF forest k _ order_refl, of "climb ?k ?q" "[]" "[]" x] by (simp add: groupOf_def)
  then have "set (map snd ?gs) = {g. \<exists>x. groupOf (climb ?k ?q) frontier x = Some g}"
    using map_of_eq_Some_iff [of ?gs] by force
  with linked(2) show thesis by (intro that [of "climb ?k ?q"]) (simp_all add: frontierComponents_def Let_def)
qed

section \<open>Property\<close>

text \<open>
  C10: the components are a division of the frontier (every square is in exactly one of them), and two
  squares of the frontier are in the same one exactly when a chain of constraints, each sharing a square
  with the next, leads from one to the other.
\<close>

theorem components_are_connected:
  assumes "\<forall>c \<in> set constraints. set (cvars c) \<subseteq> set frontier"
  shows "mset (concat (frontierComponents constraints frontier)) = mset frontier
    \<and> (\<forall>u \<in> set frontier. \<forall>v \<in> set frontier.
        (\<exists>part \<in> set (frontierComponents constraints frontier). u \<in> set part \<and> v \<in> set part) \<longleftrightarrow> (u, v) \<in> (links constraints)\<^sup>*)"
proof (intro conjI ballI)
  show "mset (concat (frontierComponents constraints frontier)) = mset frontier" by (rule components_divide)
  fix u v assume uv: "u \<in> set frontier" "v \<in> set frontier"
  obtain r where r: "\<And>u v. u \<in> set frontier \<Longrightarrow> v \<in> set frontier \<Longrightarrow> r u = r v \<longleftrightarrow> (u, v) \<in> (links constraints)\<^sup>*"
    and parts: "set (frontierComponents constraints frontier) = {g. \<exists>x. groupOf r frontier x = Some g}"
    using components_are_classes [OF assms] by metis
  have member: "w \<in> set g \<longleftrightarrow> r w = x" if "groupOf r frontier x = Some g" "w \<in> set frontier" for x g w
    using that by (auto simp: groupOf_def Let_def split: if_splits)
  have "groupOf r frontier (r u) = Some (filter (\<lambda>w. r w = r u) frontier)"
    using uv(1) by (auto simp: groupOf_def Let_def filter_empty_conv)
  then have "\<exists>part \<in> set (frontierComponents constraints frontier). u \<in> set part \<and> v \<in> set part" if "r u = r v"
    using uv that unfolding parts by (intro bexI [of _ "filter (\<lambda>w. r w = r u) frontier"]) auto
  moreover have "r u = r v" if "part \<in> set (frontierComponents constraints frontier)" "u \<in> set part" "v \<in> set part" for part
    using that uv member unfolding parts by blast
  ultimately show "(\<exists>part \<in> set (frontierComponents constraints frontier). u \<in> set part \<and> v \<in> set part) \<longleftrightarrow> (u, v) \<in> (links constraints)\<^sup>*"
    unfolding r [OF uv, symmetric] by blast
qed

theorem components_are_connected_witness:
  "frontierComponents [\<lparr>cvars = [4, 7], ccount = 1\<rparr>, \<lparr>cvars = [7, 9], ccount = 1\<rparr>] [4, 7, 2, 9] = [[4, 7, 9], [2]]
   \<and> (4, 9) \<in> (links [\<lparr>cvars = [4, 7], ccount = 1\<rparr>, \<lparr>cvars = [7, 9], ccount = 1\<rparr>])\<^sup>*
   \<and> (4, 2) \<notin> (links [\<lparr>cvars = [4, 7], ccount = 1\<rparr>, \<lparr>cvars = [7, 9], ccount = 1\<rparr>])\<^sup>*"
proof -
  let ?cs = "[\<lparr>cvars = [4, 7], ccount = 1\<rparr>, \<lparr>cvars = [7, 9], ccount = 1\<rparr>] :: constraint list"
  have parts: "frontierComponents ?cs [4, 7, 2, 9] = [[4, 7, 9], [2]]" by code_simp
  have "\<forall>c \<in> set ?cs. set (cvars c) \<subseteq> set [4, 7, 2, 9]" by simp
  from components_are_connected [OF this] parts show ?thesis by simp
qed

end
