(* ===== verification/Mine_Frontier.thy ===== *)
theory Mine_Frontier
  imports Mine_Sound Mine_Components
begin

section \<open>Enumeration\<close>

lemma assignmentOf_all: "length as = n \<Longrightarrow> as \<in> set (map (assignmentOf n) [0..<2 ^ n])"
proof -
  assume n: "length as = n"
  let ?k = "horner_sum of_bool 2 as :: nat"
  have "assignmentOf n ?k = as"
  proof (rule nth_equalityI)
    fix i assume "i < length (assignmentOf n ?k)"
    then have i: "i < n" by (simp add: assignmentOf_def)
    have "bit ?k i = (i < length as \<and> as ! i)" by (simp add: bit_horner_sum_bit_iff)
    then have "odd (?k div 2 ^ i) = as ! i" using i n by (simp add: bit_iff_odd)
    then show "assignmentOf n ?k ! i = as ! i" using i by (simp add: assignmentOf_def odd_iff_mod_2_eq_one)
  qed (simp add: n assignmentOf_def)
  moreover have "?k < 2 ^ n" using horner_sum_of_bool_2_less [of as] n by simp
  ultimately show ?thesis by (auto intro!: image_eqI [of _ _ ?k])
qed

lemma nth_indexOf: "v \<in> set vars \<Longrightarrow> indexOf vars v < length vars \<and> vars ! indexOf vars v = v"
proof -
  assume "v \<in> set vars"
  then have less: "indexOf vars v < length vars" unfolding indexOf_def by (induction vars) auto
  then show ?thesis using nth_length_takeWhile [of "\<lambda>u. u \<noteq> v" vars] by (simp add: indexOf_def)
qed

text \<open>A constraint holds in a layout when it has the right number of mines there.\<close>

definition holdsIn :: "nat set \<Rightarrow> constraint \<Rightarrow> bool" where
  "holdsIn M c \<longleftrightarrow> distinct (cvars c) \<and> card (set (cvars c) \<inter> M) = ccount c"

lemma length_filter_card: "distinct xs \<Longrightarrow> length (filter (\<lambda>v. v \<in> M) xs) = card (set xs \<inter> M)"
proof -
  assume "distinct xs"
  then have "card (set (filter (\<lambda>v. v \<in> M) xs)) = length (filter (\<lambda>v. v \<in> M) xs)" by (intro distinct_card) simp
  moreover have "set (filter (\<lambda>v. v \<in> M) xs) = set xs \<inter> M" by auto
  ultimately show ?thesis by simp
qed

lemma layout_is_valid:
  assumes "distinct vars" and "\<forall>c \<in> set exact. holdsIn M c \<and> set (cvars c) \<subseteq> set vars"
    and "lo \<le> int (card (set vars \<inter> M))" and "int (card (set vars \<inter> M)) \<le> hi"
  shows "validAssignment lo hi vars exact (map (\<lambda>v. v \<in> M) vars)"
proof -
  have "length (filter id (map (\<lambda>v. v \<in> M) vars)) = card (set vars \<inter> M)"
    by (simp add: filter_map o_def length_filter_card assms(1))
  moreover have "length (filter (\<lambda>v. map (\<lambda>v. v \<in> M) vars ! indexOf vars v) (cvars c)) = ccount c" if "c \<in> set exact" for c
  proof -
    have "filter (\<lambda>v. map (\<lambda>v. v \<in> M) vars ! indexOf vars v) (cvars c) = filter (\<lambda>v. v \<in> M) (cvars c)"
    proof (rule filter_cong)
      fix v assume "v \<in> set (cvars c)"
      then have "v \<in> set vars" using assms(2) that by blast
      from nth_indexOf [OF this] show "map (\<lambda>v. v \<in> M) vars ! indexOf vars v = (v \<in> M)" by simp
    qed simp
    then show ?thesis using length_filter_card [of "cvars c" M] assms(2) that by (auto simp: holdsIn_def)
  qed
  ultimately show ?thesis using assms(3,4) by (simp add: validAssignment_def list_all_iff)
qed

lemma deduceForced_sound:
  assumes "distinct vars" and "\<forall>c \<in> set constraints. holdsIn M c"
    and "useGlobal \<Longrightarrow> int (card (set vars \<inter> M)) \<le> remaining \<and> remaining - int sea \<le> int (card (set vars \<inter> M))"
  shows "i \<in> set (fst (deduceForced vars constraints remaining sea useGlobal)) \<Longrightarrow> i \<in> set vars \<and> i \<in> M"
    and "i \<in> set (snd (deduceForced vars constraints remaining sea useGlobal)) \<Longrightarrow> i \<in> set vars \<and> i \<notin> M"
proof -
  let ?n = "length vars" and ?ex = "filter (\<lambda>c. list_all (\<lambda>v. v \<in> set vars) (cvars c)) constraints"
  let ?hi = "if useGlobal then min (int ?n) remaining else int ?n"
  let ?lo = "if useGlobal then max 0 (remaining - int sea) else 0"
  let ?sols = "filter (validAssignment ?lo ?hi vars ?ex) (map (assignmentOf ?n) [0..<2 ^ ?n])"
  let ?as = "map (\<lambda>v. v \<in> M) vars"
  have "card (set vars \<inter> M) \<le> ?n" by (meson card_length card_mono finite_set inf_le1 le_trans)
  then have "validAssignment ?lo ?hi vars ?ex ?as"
    by (intro layout_is_valid) (use assms in \<open>auto simp: list_all_iff\<close>)
  then have sol: "?as \<in> set ?sols" using assignmentOf_all [of ?as ?n] by simp
  have all_sols: "P ?as" if "list_all P ?sols" for P using that sol unfolding list_all_iff [of P] by (rule bspec)
  have "vars ! j \<in> M" if "j < ?n" "list_all (\<lambda>s. s ! j) ?sols" for j
    using all_sols [OF that(2)] that(1) by simp
  moreover have "vars ! j \<notin> M" if "j < ?n" "list_all (\<lambda>s. \<not> s ! j) ?sols" for j
    using all_sols [OF that(2)] that(1) by simp
  moreover obtain sols where sols: "sols = ?sols" by simp
  moreover have "deduceForced vars constraints remaining sea useGlobal \<in>
      {([], []), (map (\<lambda>i. vars ! i) (filter (\<lambda>i. list_all (\<lambda>s. s ! i) sols) [0..<?n]),
        map (\<lambda>i. vars ! i) (filter (\<lambda>i. \<not> list_all (\<lambda>s. s ! i) sols \<and> list_all (\<lambda>s. \<not> s ! i) sols) [0..<?n]))}"
    unfolding sols deduceForced_def Let_def by simp
  ultimately show "i \<in> set (fst (deduceForced vars constraints remaining sea useGlobal)) \<Longrightarrow> i \<in> set vars \<and> i \<in> M"
    and "i \<in> set (snd (deduceForced vars constraints remaining sea useGlobal)) \<Longrightarrow> i \<in> set vars \<and> i \<notin> M"
    unfolding sols [symmetric] by auto
qed

section \<open>The constraints hold\<close>

lemma numbers_bounds: "(x, y) \<in> set (numbers b) \<Longrightarrow> inBounds (width b) (height b) x y \<and> cstate (cellAt b x y) = Revealed"
  by (simp add: numbers_def set_squares numberAt_def)

lemma constraints_hold:
  assumes "solverOk b" and "agrees b M" and "c \<in> set (fst (collectConstraints b))"
  shows "holdsIn M c"
proof -
  obtain x y where p: "(x, y) \<in> set (numbers b)" and c: "constraintAt b (x, y) = Some c"
    using assms(3) by (auto simp: collectConstraints_def Let_def map_filter_def)
  have ib: "inBounds (width b) (height b) x y" and rev: "cstate (cellAt b x y) = Revealed" using numbers_bounds [OF p] by simp_all
  have "cvars c = varsAt b (x, y)" "int (ccount c) = int (adjacent (cellAt b x y)) - int (flaggedAround b x y)"
    using c by (auto simp: constraintAt_def Let_def split: if_splits)
  then show ?thesis
    using number_says [OF assms(1) ib rev assms(2)] varsAt_set(2) [OF ib] by (simp add: holdsIn_def)
qed

lemma frontier_parts:
  assumes "solverOk b" and "collectConstraints b = (constraints, frontier, sea)"
  shows "distinct frontier" and "distinct sea" and "set frontier \<inter> set sea = {}"
    and "set frontier \<union> set sea = inState Hidden (cells b)"
proof -
  have fr: "frontier = uniq (concat (map (varsAt b) (numbers b)))"
    and sea: "sea = filter (\<lambda>i. cstate (cells b ! i) = Hidden \<and> i \<notin> set frontier) [0..<length (cells b)]"
    using assms(2) by (auto simp: collectConstraints_def Let_def)
  show "distinct frontier" "distinct sea" "set frontier \<inter> set sea = {}" using fr sea by auto
  have "cstate (cells b ! i) = Hidden \<and> i < length (cells b)" if i: "i \<in> set frontier" for i
  proof -
    obtain x y where "(x, y) \<in> set (numbers b)" and v: "i \<in> set (varsAt b (x, y))" using i fr by auto
    then have ib: "inBounds (width b) (height b) x y" using numbers_bounds by blast
    from varsAt_less [OF assms(1) ib v] v show ?thesis unfolding varsAt_set(1) [OF ib] by simp
  qed
  then show "set frontier \<union> set sea = inState Hidden (cells b)" using sea by (auto simp: inState_def)
qed

text \<open>The mines not flagged are among the hidden squares.\<close>

lemma mines_left:
  assumes "solverOk b" and "agrees b M"
  shows "card (inState Hidden (cells b) \<inter> M) + flagCount b = mineCount b"
proof -
  let ?H = "inState Hidden (cells b)" and ?F = "inState Flagged (cells b)"
  have F: "?F \<subseteq> M" using assms unfolding solverOk_def certainMine_def by blast
  have "i \<in> ?H \<or> i \<in> ?F" if "i \<in> M" for i
    using assms(2) that unfolding agrees_def inState_def using cell_state.exhaust by blast
  then have "M = (?H \<inter> M) \<union> ?F" using F by blast
  moreover have "card ((?H \<inter> M) \<union> ?F) = card (?H \<inter> M) + card ?F" by (rule card_Un_disjoint) (auto simp: inState_def)
  ultimately show ?thesis using assms unfolding solverOk_def agrees_def by simp
qed

lemma frontier_bounds:
  assumes "solverOk b" and "agrees b M" and "collectConstraints b = (constraints, frontier, sea)"
  shows "int (card (set frontier \<inter> M)) \<le> int (mineCount b) - int (flagCount b)"
    and "int (mineCount b) - int (flagCount b) - int (length sea) \<le> int (card (set frontier \<inter> M))"
    and "frontier = [] \<Longrightarrow> int (card (set sea \<inter> M)) = int (mineCount b) - int (flagCount b)"
proof -
  note parts = frontier_parts [OF assms(1,3)]
  have "inState Hidden (cells b) \<inter> M = (set frontier \<inter> M) \<union> (set sea \<inter> M)" using parts(4) by blast
  moreover have "card ((set frontier \<inter> M) \<union> (set sea \<inter> M)) = card (set frontier \<inter> M) + card (set sea \<inter> M)"
    by (rule card_Un_disjoint) (use parts(3) in auto)
  ultimately have sum: "card (set frontier \<inter> M) + card (set sea \<inter> M) + flagCount b = mineCount b"
    using mines_left [OF assms(1,2)] by simp
  moreover have "card (set sea \<inter> M) \<le> length sea" using card_mono [of "set sea" "set sea \<inter> M"] card_length [of sea] by simp
  ultimately show "int (card (set frontier \<inter> M)) \<le> int (mineCount b) - int (flagCount b)"
    "int (mineCount b) - int (flagCount b) - int (length sea) \<le> int (card (set frontier \<inter> M))"
    "frontier = [] \<Longrightarrow> int (card (set sea \<inter> M)) = int (mineCount b) - int (flagCount b)" by auto
qed

section \<open>Every operation of the solver is a run\<close>

lemma autoFlagPass_run: "solverOk b \<Longrightarrow> run b (fst (autoFlagPass b))"
proof -
  assume ok: "solverOk b"
  have "run b (fst (fold autoFlagAt ps (b1, changed)))"
    if "run b b1" "\<forall>(x, y) \<in> set ps. inBounds (width b) (height b) x y" for ps b1 changed
    using that
  proof (induction ps arbitrary: b1 changed)
    case (Cons p ps)
    obtain x y where p: "p = (x, y)" by fastforce
    have "solverOk b1" "inBounds (width b1) (height b1) x y"
      using run_ok [OF Cons.prems(1) ok] run_shape [OF Cons.prems(1) ok] Cons.prems(2) p by simp_all
    then have "run b1 (fst (autoFlagAt p (b1, changed)))" unfolding p by (rule autoFlagAt_run)
    with Cons.prems(1) have "run b (fst (autoFlagAt p (b1, changed)))" by (rule rtranclp_trans)
    with Cons.IH [of "fst (autoFlagAt p (b1, changed))" "snd (autoFlagAt p (b1, changed))"] Cons.prems(2) show ?case by simp
  qed simp
  then show ?thesis unfolding autoFlagPass_def by (simp add: set_squares)
qed

lemma autoFlagLoop_run: "solverOk b \<Longrightarrow> run b (fst (autoFlagLoop k flagged b))"
proof (induction k arbitrary: flagged b)
  case (Suc k)
  obtain b1 c where pass: "autoFlagPass b = (b1, c)" by fastforce
  with autoFlagPass_run [OF Suc.prems] have r: "run b b1" by simp
  with Suc.IH [OF run_ok [OF r Suc.prems]] pass show ?case by (auto intro: rtranclp_trans)
qed simp

lemma openPass_run:
  assumes "run b b1" and "solverOk b" and "\<forall>(x, y) \<in> set ps. inBounds (width b) (height b) x y"
  shows "run b (fst (openPass ps (b1, changed)))"
  using assms
proof (induction ps arbitrary: b1 changed)
  case (Cons p ps)
  obtain x y where p: "p = (x, y)" by fastforce
  obtain b2 c r where at: "openAt p (b1, changed) = (b2, c, r)" by (metis prod_cases3)
  have "solverOk b1" "inBounds (width b1) (height b1) x y"
    using run_ok [OF Cons.prems(1,2)] run_shape [OF Cons.prems(1,2)] Cons.prems(3) p by simp_all
  from openAt_run [OF this, of changed] at have "run b1 b2" "\<not> r" by (simp_all add: p)
  moreover have "run b b2" using Cons.prems(1) \<open>run b1 b2\<close> by (rule rtranclp_trans)
  ultimately show ?case using Cons.IH [of b2 c] Cons.prems at by simp
qed simp

lemma applyBasicAssists_run: "solverOk b \<Longrightarrow> run b (fst (applyBasicAssists b))"
proof -
  assume ok: "solverOk b"
  obtain b1 c where fl: "applyAutoFlags b = (b1, c)" by fastforce
  then have "run b b1" using autoFlagLoop_run [OF ok, of 200 False] by (simp add: applyAutoFlags_def)
  then show ?thesis using openPass_run [OF _ ok] by (simp add: applyBasicAssists_def fl set_squares)
qed

lemma applyForced_run:
  assumes "solverOk b" and "\<forall>i \<in> set (fst forced). i < length (cells b) \<and> certainMine b i"
    and "\<forall>i \<in> set (snd forced). i < length (cells b) \<and> certainSafe b i"
  shows "run b (fst (applyForced forced b))"
proof -
  obtain b1 c where fl: "flagAll (fst forced) (b, False) = (b1, c)" by fastforce
  with flagAll_run [OF assms(1,2), of False] have r: "run b b1" by simp
  have "\<forall>i \<in> set (snd forced). i < length (cells b1) \<and> certainSafe b1 i"
    using assms(3) run_certain(2) [OF r assms(1)] run_shape [OF r assms(1)] by simp
  then have "run b1 (fst (openSafe (snd forced) (b1, c)))" using openSafe_run(1) run_ok [OF r assms(1)] by blast
  with r have "run b (fst (openSafe (snd forced) (b1, c)))" by (rule rtranclp_trans)
  then show ?thesis by (auto simp: applyForced_def fl split: prod.splits)
qed

text \<open>A part of the frontier: its squares are hidden, and where it is all of it the count of mines bounds it.\<close>

lemma forced_certain:
  assumes "solverOk b" and "run b b1" and "collectConstraints b = (constraints, frontier, sea)"
    and "distinct part" and "set part \<subseteq> set frontier" and "length part = length frontier \<Longrightarrow> set part = set frontier"
    and "forced = deduceForced part constraints (int (mineCount b) - int (flagCount b)) (length sea) (length part = length frontier)"
  shows "\<forall>i \<in> set (fst forced). i < length (cells b1) \<and> certainMine b1 i"
    and "\<forall>i \<in> set (snd forced). i < length (cells b1) \<and> certainSafe b1 i"
proof -
  have len: "i < length (cells b1)" if "i \<in> set part" for i
    using frontier_parts(4) [OF assms(1,3)] assms(5) that run_shape [OF assms(2,1)] by (auto simp: inState_def)
  have facts: "(i \<in> set (fst forced) \<longrightarrow> i \<in> set part \<and> i \<in> M) \<and> (i \<in> set (snd forced) \<longrightarrow> i \<in> set part \<and> i \<notin> M)"
    if "agrees b M" for i M
  proof -
    have "\<forall>c \<in> set constraints. holdsIn M c" using constraints_hold [OF assms(1) that] assms(3) by simp
    moreover have "int (card (set part \<inter> M)) \<le> int (mineCount b) - int (flagCount b)
        \<and> int (mineCount b) - int (flagCount b) - int (length sea) \<le> int (card (set part \<inter> M))"
      if all: "length part = length frontier"
      using frontier_bounds(1,2) [OF assms(1) \<open>agrees b M\<close> assms(3)] assms(6) [OF all] by simp
    ultimately show ?thesis unfolding assms(7) using deduceForced_sound [OF assms(4)] by blast
  qed
  have ok1: "agrees b1 (mines (cells b1))" using truth_agrees run_ok [OF assms(2,1)] by blast
  have earlier: "agrees b M" if "agrees b1 M" for M using run_agrees [OF assms(2,1) that] .
  show "\<forall>i \<in> set (fst forced). i < length (cells b1) \<and> certainMine b1 i"
    using facts earlier len ok1 unfolding certainMine_def by blast
  show "\<forall>i \<in> set (snd forced). i < length (cells b1) \<and> certainSafe b1 i"
    using facts earlier len ok1 unfolding certainSafe_def by blast
qed

lemma cspPass_run:
  assumes "solverOk b" and "run b b1" and "collectConstraints b = (constraints, frontier, sea)"
    and "\<forall>part \<in> set parts. distinct part \<and> set part \<subseteq> set frontier \<and> (length part = length frontier \<longrightarrow> set part = set frontier)"
  shows "run b (fst (cspPass maxVars parts constraints (int (mineCount b) - int (flagCount b)) (length sea) (length frontier) (b1, changed)))"
  using assms(2,4)
proof (induction parts arbitrary: b1 changed)
  case (Cons part parts)
  let ?rem = "int (mineCount b) - int (flagCount b)"
  let ?forced = "deduceForced part constraints ?rem (length sea) (length part = length frontier)"
  obtain b2 c where ap: "applyForced ?forced b1 = (b2, c)" by fastforce
  have "run b1 (fst (applyForced ?forced b1))"
    using run_ok [OF Cons.prems(1) assms(1)] forced_certain [OF assms(1) Cons.prems(1) assms(3) _ _ _ refl, of part] Cons.prems(2)
    by (intro applyForced_run) simp_all
  with Cons.prems(1) have r: "run b b2" unfolding ap by (simp add: rtranclp_trans)
  then have "status b2 = Playing" using run_ok [OF r assms(1)] by (simp add: solverOk_def)
  with ap Cons.IH [OF r] Cons.IH [OF Cons.prems(1)] Cons.prems(2) show ?case by simp
qed simp

lemma applyCspAssists_run: "solverOk b \<Longrightarrow> run b (fst (applyCspAssists maxVars b))"
proof -
  assume ok: "solverOk b"
  obtain constraints frontier sea where cc: "collectConstraints b = (constraints, frontier, sea)" by (metis prod_cases3)
  let ?rem = "int (mineCount b) - int (flagCount b)"
  note parts = frontier_parts [OF ok cc] and bounds = frontier_bounds [OF ok _ cc]
  have less: "\<forall>i \<in> set sea. i < length (cells b)" using parts(4) by (auto simp: inState_def)
  have "run b (fst (openSafe sea (b, False)))" if "frontier = []" "?rem = 0"
  proof (rule openSafe_run(1) [OF ok])
    show "\<forall>i \<in> set sea. i < length (cells b) \<and> certainSafe b i"
      using less bounds(3) that empty_number [of "set sea"] unfolding certainSafe_def by simp
  qed
  moreover have "run b (fst (flagAll sea (b, False)))" if "frontier = []" "?rem = int (length sea)"
  proof (rule flagAll_run [OF ok])
    show "\<forall>i \<in> set sea. i < length (cells b) \<and> certainMine b i"
      using less bounds(3) that full_number [of "set sea"] distinct_card [OF parts(2)] unfolding certainMine_def by simp
  qed
  moreover have "run b (fst (cspPass maxVars (frontierComponents constraints frontier) constraints ?rem (length sea) (length frontier) (b, False)))"
    using component_of_frontier [OF _ parts(1)] by (intro cspPass_run [OF ok _ cc]) auto
  ultimately show ?thesis by (auto simp: applyCspAssists_def cc Let_def split: prod.splits)
qed

lemma assistLoop_run: "solverOk b \<Longrightarrow> run b (assistLoop k maxVars b)"
proof (induction k arbitrary: b)
  case (Suc k)
  obtain b1 c1 where basic: "applyBasicAssists b = (b1, c1)" by fastforce
  obtain b2 c2 where csp: "applyCspAssists maxVars b1 = (b2, c2)" by fastforce
  have r1: "run b b1" using applyBasicAssists_run [OF Suc.prems] basic by simp
  have ok1: "solverOk b1" using run_ok [OF r1 Suc.prems] .
  have "run b1 b2" using applyCspAssists_run [OF ok1, of maxVars] csp by simp
  with r1 have r2: "run b b2" by (rule rtranclp_trans)
  have "run b (assistLoop k maxVars b2)" using r2 Suc.IH [OF run_ok [OF r2 Suc.prems]] by (rule rtranclp_trans)
  with basic csp r1 r2 show ?case by simp
qed simp

end
