(* ===== verification/Mine_NoGuess.thy ===== *)
theory Mine_NoGuess
  imports Mine_Frontier
begin

text \<open>
  What the solver of the Minesweeper game promises about a layout: what it finds out is true, it never
  opens a mine, and a layout it clears is one that a player clears without a guess.
\<close>

text \<open>A layout: the mines are counted right and every safe square shows how many are around it.\<close>

definition layoutOk :: "'a solve_state_scheme \<Rightarrow> bool" where
  "layoutOk b \<longleftrightarrow> length (cells b) = width b * height b \<and> adjOk (width b) (height b) (cells b)
     \<and> card (mines (cells b)) = mineCount b"

lemma clone_sel:
  "width (cloneSolveState b) = width b" "height (cloneSolveState b) = height b" "mineCount (cloneSolveState b) = mineCount b"
  "length (cells (cloneSolveState b)) = length (cells b)" "mines (cells (cloneSolveState b)) = mines (cells b)"
  "i < length (cells b) \<Longrightarrow> mine (cells (cloneSolveState b) ! i) = mine (cells b ! i)"
  "i < length (cells b) \<Longrightarrow> adjacent (cells (cloneSolveState b) ! i) = adjacent (cells b ! i)"
  "i < length (cells b) \<Longrightarrow> cstate (cells (cloneSolveState b) ! i) = Hidden"
  by (auto simp: cloneSolveState_def mines_def)

lemma clone_ok: "layoutOk b \<Longrightarrow> solverOk (cloneSolveState b)"
proof -
  assume ok: "layoutOk b"
  have "adjOk (width b) (height b) (cells (cloneSolveState b))"
    by (rule adjOk_cong [of _ _ "cells b"]) (use ok in \<open>simp_all add: layoutOk_def clone_sel\<close>)
  moreover have none: "inState s (cells (cloneSolveState b)) = {}" if "s \<noteq> Hidden" for s
    using that by (auto simp: inState_def clone_sel)
  moreover have "revealedCount (cloneSolveState b) = 0" "flagCount (cloneSolveState b) = 0" "status (cloneSolveState b) = Playing"
    by (simp_all add: cloneSolveState_def)
  ultimately show ?thesis using ok by (simp add: solverOk_def layoutOk_def clone_sel)
qed

lemma first_ok:
  assumes "layoutOk b" and "start < length (cells b)" and "\<not> mine (cells b ! start)"
  shows "solverOk (firstOpen b start)" and "mines (cells (firstOpen b start)) = mines (cells b)"
    and "length (cells (firstOpen b start)) = length (cells b)" and "mineCount (firstOpen b start) = mineCount b"
proof -
  have eq: "firstOpen b start = openCell start (cloneSolveState b)" by (simp add: firstOpen_def openCell_def clone_sel)
  note ok = clone_ok [OF assms(1)]
  show "solverOk (firstOpen b start)" unfolding eq by (rule open_ok [OF ok]) (use assms in \<open>simp_all add: clone_sel\<close>)
  have "length (cells (cloneSolveState b)) = width (cloneSolveState b) * height (cloneSolveState b)"
    "start < length (cells (cloneSolveState b))" using assms by (simp_all add: clone_sel layoutOk_def)
  then obtain cs n where op: "openCell start (cloneSolveState b) = (cloneSolveState b)\<lparr>cells := cs, revealedCount := n\<rparr>"
    and un: "uncovers (cells (cloneSolveState b)) cs" using openCell_cells by metis
  show "mines (cells (firstOpen b start)) = mines (cells b)" "length (cells (firstOpen b start)) = length (cells b)"
    "mineCount (firstOpen b start) = mineCount b"
    unfolding eq op using uncovers_inState(2) [OF un] uncovers_length [OF un] by (simp_all add: clone_sel)
qed

text \<open>What the simulation ends in, when the first square is safe.\<close>

lemma sim_run:
  assumes "layoutOk b" and "start < length (cells b)" and "\<not> mine (cells b ! start)"
    and s_def: "s = runAutoAssists maxVars (firstOpen b start)"
  shows "run (firstOpen b start) s" and "solverOk s" and "mines (cells s) = mines (cells b)"
    and "length (cells s) = length (cells b)" and "mineCount s = mineCount b"
proof -
  note first = first_ok [OF assms(1-3)]
  show r: "run (firstOpen b start) s" unfolding s_def runAutoAssists_def by (rule assistLoop_run [OF first(1)])
  show "solverOk s" using run_ok [OF r first(1)] .
  show "mines (cells s) = mines (cells b)" "length (cells s) = length (cells b)" "mineCount s = mineCount b"
    using run_shape [OF r first(1)] first by simp_all
qed

lemma won_cleared:
  assumes "solverOk s" and "isWon s"
  shows "inState Revealed (cells s) = {..<length (cells s)} - mines (cells s)"
proof (rule card_subset_eq)
  show "inState Revealed (cells s) \<subseteq> {..<length (cells s)} - mines (cells s)" using assms(1) by (auto simp: solverOk_def inState_def)
  have sub: "mines (cells s) \<subseteq> {..<length (cells s)}" by (auto simp: mines_def)
  then have "card ({..<length (cells s)} - mines (cells s)) = length (cells s) - mineCount s"
    using assms(1) by (simp add: card_Diff_subset solverOk_def)
  moreover have "card (inState Revealed (cells s)) \<le> card ({..<length (cells s)} - mines (cells s))"
    using assms(1) by (intro card_mono) (auto simp: solverOk_def inState_def)
  moreover have "length (cells s) - mineCount s \<le> card (inState Revealed (cells s))"
    using assms unfolding isWon_def safeCellsTotal_def solverOk_def by linarith
  ultimately show "card (inState Revealed (cells s)) = card ({..<length (cells s)} - mines (cells s))" by simp
qed simp

section \<open>Properties\<close>

text \<open>
  C8: a layout that passes the check can be cleared without a guess. From the first square, which is
  safe, a sequence of steps leads to a board on which exactly the squares without a mine are open, and
  each step flags a square that holds a mine, or opens one that is safe, in every layout with the same
  number of mines that agrees with all the numbers open at that step.
\<close>

theorem solvable_without_guessing:
  assumes "layoutOk b" and "start < length (cells b)" and "isSolvableWithoutGuessing b start"
  shows "\<not> mine (cells b ! start) \<and> (\<exists>s. deduces\<^sup>*\<^sup>* (firstOpen b start) s
    \<and> inState Revealed (cells s) = {..<length (cells b)} - mines (cells b))"
proof -
  let ?s = "runAutoAssists MAX_CSP_VARS (firstOpen b start)"
  have safe: "\<not> mine (cells b ! start)" and won: "isWon ?s"
    using assms(3) by (auto simp: isSolvableWithoutGuessing_def solveUntilStuck_def Let_def split: if_splits)
  note sim = sim_run [OF assms(1,2) safe refl, of MAX_CSP_VARS]
  have "inState Revealed (cells ?s) = {..<length (cells b)} - mines (cells b)" using won_cleared [OF sim(2) won] sim(3,4) by simp
  with sim(1) safe show ?thesis by blast
qed

text \<open>A row of five squares with a mine in the middle, opened at its left end.\<close>

definition demoRow :: board where
  "demoRow = \<lparr>width = 5, height = 1, mineCount = 1,
     cells = map (\<lambda>i. \<lparr>mine = (i = 2), adjacent = (if i = 1 \<or> i = 3 then 1 else 0), cstate = Hidden\<rparr>) [0..<5],
     revealedCount = 0, flagCount = 0, status = Playing, minesPlaced = True, seed = None, rng = Mulberry 0\<rparr>"

lemma demoRow_ok: "layoutOk demoRow"
proof -
  have "length (cells demoRow) = width demoRow * height demoRow" by code_simp
  moreover have "list_all (\<lambda>i. \<not> mine (cells demoRow ! i) \<longrightarrow> adjacent (cells demoRow ! i) = countMines (cells demoRow) (neighborsOf 5 1 i)) [0..<5]"
    by code_simp
  then have "adjOk (width demoRow) (height demoRow) (cells demoRow)"
    unfolding adjOk_def list_all_iff by (simp add: demoRow_def)
  moreover have "mines (cells demoRow) = {2}" by (auto simp: mines_def demoRow_def)
  ultimately show ?thesis by (simp add: layoutOk_def) (simp add: demoRow_def)
qed

theorem solvable_without_guessing_witness:
  "isSolvableWithoutGuessing demoRow 0 \<and> (\<exists>s. deduces\<^sup>*\<^sup>* (firstOpen demoRow 0) s
     \<and> inState Revealed (cells s) = {..<5} - mines (cells demoRow))"
proof -
  have check: "isSolvableWithoutGuessing demoRow 0" by code_simp
  have len: "length (cells demoRow) = 5" by code_simp
  then have "0 < length (cells demoRow)" by simp
  from solvable_without_guessing [OF demoRow_ok this check] check len show ?thesis by simp
qed

text \<open>
  C9: what the solver says of a layout is true. It reports a loss exactly when the first square is a
  mine, every square it reports as empty is safe, every square it reports as a mine is one, and it
  reports the board cleared exactly when it found every safe square.
\<close>

theorem solver_is_right:
  assumes "layoutOk b" and "start < length (cells b)"
  shows "(spLost (solveUntilStuck maxVars b start) \<longleftrightarrow> mine (cells b ! start))
    \<and> set (spKnownEmpty (solveUntilStuck maxVars b start)) \<inter> mines (cells b) = {}
    \<and> set (spKnownMines (solveUntilStuck maxVars b start)) \<subseteq> mines (cells b)
    \<and> (spWon (solveUntilStuck maxVars b start) \<longleftrightarrow>
        \<not> mine (cells b ! start) \<and> set (spKnownEmpty (solveUntilStuck maxVars b start)) = {..<length (cells b)} - mines (cells b))"
proof (cases "mine (cells b ! start)")
  case True
  then show ?thesis by (simp add: solveUntilStuck_def)
next
  case False
  let ?s = "runAutoAssists maxVars (firstOpen b start)"
  note sim = sim_run [OF assms False refl, of maxVars]
  have known: "set (indicesIn st (cells ?s)) = inState st (cells ?s)" for st by (auto simp: indicesIn_def inState_def)
  have flags: "inState Flagged (cells ?s) \<subseteq> mines (cells ?s)"
    using sim(2) certain_true(1) [OF sim(2)] by (auto simp: solverOk_def inState_def mines_def)
  have playing: "status ?s = Playing" and empties: "inState Revealed (cells ?s) \<inter> mines (cells ?s) = {}" using sim(2) by (simp_all add: solverOk_def)
  have "isWon ?s" if "inState Revealed (cells ?s) = {..<length (cells ?s)} - mines (cells ?s)"
  proof -
    have sub: "mines (cells ?s) \<subseteq> {..<length (cells ?s)}" by (auto simp: mines_def)
    then have "card ({..<length (cells ?s)} - mines (cells ?s)) = length (cells ?s) - mineCount ?s"
      using sim(2) by (simp add: card_Diff_subset solverOk_def)
    then have "revealedCount ?s = length (cells ?s) - mineCount ?s" using that sim(2) by (simp add: solverOk_def)
    then show ?thesis by (simp add: isWon_def safeCellsTotal_def)
  qed
  then have won: "isWon ?s \<longleftrightarrow> inState Revealed (cells ?s) = {..<length (cells b)} - mines (cells b)"
    using won_cleared [OF sim(2)] sim(3,4) by auto
  show ?thesis using False playing empties flags won sim(3) by (simp add: solveUntilStuck_def Let_def known)
qed

theorem solver_is_right_witness:
  "spKnownMines (solveUntilStuck MAX_CSP_VARS demoRow 0) = [2] \<and> \<not> spLost (solveUntilStuck MAX_CSP_VARS demoRow 0)
   \<and> {2} \<subseteq> mines (cells demoRow)"
proof -
  have known: "spKnownMines (solveUntilStuck MAX_CSP_VARS demoRow 0) = [2]" by code_simp
  have "0 < length (cells demoRow)" by code_simp
  from solver_is_right [OF demoRow_ok this, of MAX_CSP_VARS] known show ?thesis by (simp add: demoRow_def)
qed

end
