(* ===== verification/Spec2Isabelle.thy ===== *)
theory Spec2Isabelle
  imports Price_Validate Auth_Sessions Commit_Race Peer_Requests Service Mine_NoGuess
begin

text \<open>
  Verification of Canari (mines-app), a campus application: an encrypted messenger, payments and forms of
  student associations, and a ranked Minesweeper. The repository holds six services under \<open>apps/\<close> and
  the clients under \<open>frontend/\<close>. The development covers four parts that decide something on behalf of
  many users and keep state between requests:

  \<^item> the delivery service (\<open>apps/chat-delivery-service/src\<close>), which stores groups, seats and queues for
    end-to-end encrypted groups (MLS) and orders their commits;
  \<^item> the refresh sessions of the core service (\<open>apps/core-service/src/auth\<close>);
  \<^item> the pricing of the social service (\<open>apps/social-service/src/pricing\<close>);
  \<^item> the engine of the Minesweeper game (\<open>apps/social-service/src/minesweeper/engine/game.ts\<close>, of which
    the client has a copy).

  \<^bold>\<open>Conventions.\<close> A handler is a function from its arguments and the store to its answer, the store
  after it, and, where it publishes, the frames and keys it writes. An answer is \<open>Inl\<close> the HTTP error or
  \<open>Inr\<close> the value; the wording of messages and the logging are left out. Tables are lists of records in
  the order of insertion, Redis keys are maps. Instants are milliseconds as integers and are arguments
  (\<open>eNow\<close>), as are the random identifiers a handler draws. What other services answer, SHA-256, and
  \<open>Math.random\<close> are arguments; where a property needs something of them it is a hypothesis. \<open>Prelude\<close>
  has the vocabulary all theories share, among it the laws of a unique index (locale \<open>unique_index\<close>) and
  of a simulation (locale \<open>simulation\<close>); \<open>Json\<close> has the documents requests carry.

  \<^bold>\<open>Delivery service.\<close>

  \<^item> \<open>Sanitize\<close> (\<open>utils/sanitize.ts\<close>): the validators of identifiers, their limits and errors.
  \<^item> \<open>Delivery_State\<close> (\<open>entities/\<close>, \<open>utils/group-purge.ts\<close>, \<open>utils/revocation.ts\<close>): the record
    \<open>delivery\<close> of all tables and keys, and the deletion of what a group or a device owns.
  \<^item> \<open>Send_Message\<close> (\<open>services/messaging.service.ts\<close>: sendMessage, sendWelcome, activation): a durable
    message is queued once for each seated device with keys, and for nobody else.
  \<^item> \<open>Commit_Log\<close> (validateCommit, getCommitsSince, the retention of commits): the epoch gate accepts a
    commit exactly when it is built on the current epoch. \<open>Commit_Race\<close> takes the awaits of
    validateCommit apart and runs requests interleaved: one commit per epoch as long as no request
    outlives its lock, and a fork otherwise.
  \<^item> \<open>Peer_Requests\<close> (requests for history, for a base, for a Welcome): one reachable peer is elected and
    the chase of peers ends.
  \<^item> \<open>Group_Store\<close>, \<open>Membership\<close> (\<open>controllers/groups\<close>, \<open>locks\<close>, \<open>members\<close>, \<open>invitations\<close>):
    groups, the lock on additions, members, seats, invites; who may add, and that a removed user is out.
  \<^item> \<open>Pending_Queue\<close> (fetchMessages, acknowledgeMessages and the client's loop
    \<open>frontend/src/lib/mls-client/mlsDeliveryApi.ts\<close>): the pages of a queue; the pull ends and drains it.
  \<^item> \<open>Device_Registry\<close>, \<open>Pin_Verifier\<close>, \<open>Push_Access\<close> (\<open>controllers/devices\<close>, \<open>security\<close>,
    \<open>push\<close>): registration and its cap, key packages handed out once, bans, the PIN, the push secret.
  \<^item> \<open>Distribution\<close> (\<open>controllers/internal\<close>): the groups of a scope, created once however requests
    interleave, and the deletion of an account.
  \<^item> \<open>Maintenance\<close> (\<open>app.controller.ts\<close>): every periodic job and what a pass of all of them leaves.
  \<^item> \<open>Store_Invariant\<close>, \<open>Log_Refinement\<close>, \<open>Service\<close>: the service as a whole. A step relation has one
    rule for each request and each job; its reachable stores keep the unique indexes, hold no message of
    a dead group, and implement an abstract append-only log per group.

  \<^bold>\<open>Refresh sessions.\<close> \<open>Auth_Sessions\<close>: rotation, grace window, revocation, binding to devices. The
  statements of rotate are steps of an interleaving semantics, in which a token is rotated once.

  \<^bold>\<open>Pricing.\<close> \<open>Audience\<close>, \<open>Price_Matrix\<close>, \<open>Price_Validate\<close> (\<open>audience.ts\<close>, \<open>price-matrix.ts\<close>,
  \<open>validate.ts\<close>, \<open>pricing-facts.service.ts\<close>): a grid that passes validation prices everyone, and what
  the page shows is what is charged.

  \<^bold>\<open>Minesweeper.\<close>

  \<^item> \<open>Mine_Board\<close>: the seeded generator at its width of 32 bits, cells, neighbours, a random layout, the
    opening of a region with its termination, and what it opens.
  \<^item> \<open>Mine_Solver\<close>: the solver, function by function.
  \<^item> \<open>Mine_Components\<close>: the union-find of the solver computes connected components.
  \<^item> \<open>Mine_Certain\<close>, \<open>Mine_Sound\<close>, \<open>Mine_Frontier\<close>: layouts that agree with what is seen, the step
    relation of certain conclusions, and that every function of the solver is a sequence of such steps.
  \<^item> \<open>Mine_NoGuess\<close>: a layout the solver clears is cleared without a guess, and what it reports is true.

  \<^bold>\<open>Bounds.\<close> Loops of the source with a counter keep it as their argument (200 passes of flags, 400 turns
  of the solver, nine attempts more than the rows of a queue). Loops without one are functions with a
  termination proof (the opening of a region, the page scan), or carry a bound shown to be enough: the
  climb to a root takes as many turns as the frontier has squares, since parents never form a cycle.
  Reachability in \<open>Service\<close>, \<open>Commit_Race\<close>, \<open>Auth_Sessions\<close> and \<open>Distribution\<close> is unbounded.

  \<^bold>\<open>Not modelled.\<close> The relay of WebSocket frames and of calls (\<open>apps/chat-gateway\<close>,
  \<open>apps/call-service\<close>), uploads (\<open>apps/media-service\<close>), the other tables of the core and social services,
  the user interface, the native shells and the deployment: they are input and output, calls to providers,
  or reads and writes of single rows. The MLS protocol is a library the clients call; the service never
  looks into a commit, and neither does the model.
\<close>

end
